(* ===== verification/Sniffer_Prelude.thy ===== *)
theory Sniffer_Prelude
  imports Main "HOL-Library.Word" "HOL-Library.Finite_Map" "HOL-Library.Sublist"
    "HOL-Library.Code_Target_Nat"
begin

text \<open>
  Prelude of the development: the Go notions every component shares. Bytes and
  byte order (\<open>encoding/binary\<close>), strings and the functions of package
  \<open>strings\<close> the source calls, decimal and hexadecimal rendering, instants and
  saturating differences of instants (package \<open>time\<close>), Go maps as finite maps,
  and the loops "for every element, update the map" that most handlers are.
  The collections \<open>go_defs\<close>, \<open>map_loops\<close> and \<open>byte_order\<close> gather the facts
  the component theories hand to the simplifier.
\<close>

named_theorems go_defs \<open>definitions of Go library functions, unfolded in evaluations\<close>
named_theorems map_loops \<open>what a loop of map updates leaves in the map\<close>
named_theorems byte_order \<open>big- and little-endian readings of byte lists\<close>

section \<open>Bytes and strings\<close>

text \<open>
  A Go string is a sequence of bytes and so is an Isabelle \<open>string\<close> (a list of
  8-bit characters). A byte slice is a list of \<open>8 word\<close>.
\<close>

type_synonym byte = "8 word"

definition char_of_byte :: "byte \<Rightarrow> char" where
  "char_of_byte b = char_of (unat b)"

definition byte_of_char :: "char \<Rightarrow> byte" where
  "byte_of_char c = of_nat (of_char c)"

definition string_of_bytes :: "byte list \<Rightarrow> string" where
  "string_of_bytes bs = map char_of_byte bs"

definition bytes_of_string :: "string \<Rightarrow> byte list" where
  "bytes_of_string s = map byte_of_char s"

fun be_nat :: "byte list \<Rightarrow> nat" where
  "be_nat [] = 0"
| "be_nat (b # bs) = unat b * 256 ^ length bs + be_nat bs"

definition le_nat :: "byte list \<Rightarrow> nat" where
  "le_nat bs = be_nat (rev bs)"

fun be_bytes :: "nat \<Rightarrow> nat \<Rightarrow> byte list" where
  "be_bytes 0 n = []"
| "be_bytes (Suc k) n = of_nat (n div 256 ^ k) # be_bytes k n"

definition le_bytes :: "nat \<Rightarrow> nat \<Rightarrow> byte list" where
  "le_bytes k n = rev (be_bytes k n)"

definition go_slice :: "nat \<Rightarrow> nat \<Rightarrow> 'a list \<Rightarrow> 'a list" where
  \<comment> \<open>the Go slice expression \<open>xs[lo:hi]\<close>, used within bounds only\<close>
  "go_slice lo hi xs = take (hi - lo) (drop lo xs)"

section \<open>Package strings\<close>

definition lower_char :: "char \<Rightarrow> char" where
  "lower_char c =
     (let n = (of_char c :: nat) in if 65 \<le> n \<and> n \<le> 90 then char_of (n + 32) else c)"

definition is_ascii :: "string \<Rightarrow> bool" where
  "is_ascii s = list_all (\<lambda>c. (of_char c :: nat) < 128) s"

text \<open>
  \<open>strings.ToLower\<close> maps an all-ASCII string byte by byte and otherwise runs the
  Unicode tables over the string; the second half is the argument \<open>uni\<close>, about
  which nothing is assumed.
\<close>

type_synonym unicode_lower = "string \<Rightarrow> string"

definition to_lower :: "unicode_lower \<Rightarrow> string \<Rightarrow> string" where
  "to_lower uni s = (if is_ascii s then map lower_char s else uni s)"

text \<open>
  \<open>strings.TrimSpace\<close> removes the white space of Unicode's property at both ends:
  the six ASCII characters and the UTF-8 encodings of U+0085, U+00A0, U+1680,
  U+2000 to U+200A, U+2028, U+2029, U+202F, U+205F and U+3000.
\<close>

definition white_spaces :: "string list" where
  "white_spaces =
     map (map char_of)
      ([[9], [10], [11], [12], [13], [32], [194, 133], [194, 160], [225, 154, 128],
        [226, 128, 168], [226, 128, 169], [226, 128, 175], [226, 129, 159],
        [227, 128, 128]] @ map (\<lambda>n. [226, 128, 128 + n]) [0 ..< 11 :: nat])"

definition space_prefix :: "string list \<Rightarrow> string \<Rightarrow> nat" where
  \<comment> \<open>length of the white space \<open>s\<close> starts with, 0 for none\<close>
  "space_prefix ws s =
     (case find (\<lambda>w. prefix w s) ws of None \<Rightarrow> 0 | Some w \<Rightarrow> length w)"

function trim_left :: "string list \<Rightarrow> string \<Rightarrow> string" where
  "trim_left ws s =
     (let n = space_prefix ws s
      in if n = 0 \<or> s = [] then s else trim_left ws (drop n s))"
  by pat_completeness auto
termination
  by (relation "measure (\<lambda>(ws, s). length s)") auto

declare trim_left.simps [simp del]

definition trim_space :: "string \<Rightarrow> string" where
  "trim_space s =
     rev (trim_left (map rev white_spaces) (rev (trim_left white_spaces s)))"

fun str_cut :: "char \<Rightarrow> string \<Rightarrow> string \<times> string \<times> bool" where
  \<comment> \<open>\<open>strings.Cut\<close> at a one-byte separator: before, after, found\<close>
  "str_cut c [] = ([], [], False)"
| "str_cut c (x # xs) =
     (if x = c then ([], xs, True)
      else case str_cut c xs of (before, rest, found) \<Rightarrow> (x # before, rest, found))"

definition trim_suffix_char :: "char \<Rightarrow> string \<Rightarrow> string" where
  \<comment> \<open>\<open>strings.TrimSuffix\<close> for a one-byte suffix\<close>
  "trim_suffix_char c s = (if s \<noteq> [] \<and> last s = c then butlast s else s)"

definition replace_char :: "char \<Rightarrow> char \<Rightarrow> string \<Rightarrow> string" where
  \<comment> \<open>\<open>strings.ReplaceAll\<close> of one byte by another\<close>
  "replace_char a b s = map (\<lambda>c. if c = a then b else c) s"

definition digit_char :: "nat \<Rightarrow> char" where
  "digit_char d = char_of (if d < 10 then 48 + d else 87 + d)"

fun show_base :: "nat \<Rightarrow> nat \<Rightarrow> string" where
  \<comment> \<open>\<open>strconv.FormatUint\<close> and the verb \<open>%d\<close>; lower-case digits, no leading zeros\<close>
  "show_base b n =
     (if b < 2 \<or> n < b then [digit_char n] else show_base b (n div b) @ [digit_char (n mod b)])"

declare show_base.simps [simp del]

abbreviation show_dec :: "nat \<Rightarrow> string" where
  "show_dec \<equiv> show_base 10"

abbreviation show_hex :: "nat \<Rightarrow> string" where
  "show_hex \<equiv> show_base 16"

section \<open>Package time\<close>

text \<open>
  An instant is its distance from the Unix epoch in nanoseconds, a \<open>Duration\<close> is
  a number of nanoseconds. \<open>Time.Sub\<close> saturates at the range of a 64-bit
  \<open>Duration\<close>; \<open>zero_time\<close> is Go's zero \<open>Time\<close>, the first of January of year 1.
\<close>

type_synonym gotime = int
type_synonym duration = int

definition max_duration :: duration where
  "max_duration = 2 ^ 63 - 1"

definition min_duration :: duration where
  "min_duration = - (2 ^ 63)"

definition time_sub :: "gotime \<Rightarrow> gotime \<Rightarrow> duration" where
  "time_sub t u = max min_duration (min max_duration (t - u))"

definition zero_time :: gotime where
  "zero_time = - 62135596800 * 10 ^ 9"

definition second :: duration where
  "second = 10 ^ 9"

definition unix_nano :: "gotime \<Rightarrow> 64 word" where
  \<comment> \<open>\<open>Time.UnixNano\<close>: the low 64 bits\<close>
  "unix_nano t = of_int t"

section \<open>Go maps\<close>

text \<open>
  A Go map is finite, so it is an \<open>fmap\<close>. \<open>range\<close> visits the keys in an order
  the runtime chooses: an iteration order is a list of keys that satisfies
  \<open>key_order\<close>, and definitions whose result shows the order take it as an argument.
\<close>

definition key_order :: "('k, 'v) fmap \<Rightarrow> 'k list \<Rightarrow> bool" where
  "key_order m ks \<longleftrightarrow> distinct ks \<and> fset_of_list ks = fmdom m"

definition map_len :: "('k, 'v) fmap \<Rightarrow> nat" where
  "map_len m = fcard (fmdom m)"

definition go_get :: "'v \<Rightarrow> ('k, 'v) fmap \<Rightarrow> 'k \<Rightarrow> 'v \<times> bool" where
  \<comment> \<open>\<open>v, ok := m[k]\<close>, with the zero value for a missing key\<close>
  "go_get z m k = (case fmlookup m k of None \<Rightarrow> (z, False) | Some v \<Rightarrow> (v, True))"

definition delete_where :: "('v \<Rightarrow> bool) \<Rightarrow> 'k list \<Rightarrow> ('k, 'v) fmap \<Rightarrow> ('k, 'v) fmap" where
  \<comment> \<open>\<open>for k, v := range m { if P(v) { delete(m, k) } }\<close> in the iteration order \<open>ks\<close>\<close>
  "delete_where P ks m =
     fold (\<lambda>k m'. case fmlookup m' k of None \<Rightarrow> m' | Some v \<Rightarrow> if P v then fmdrop k m' else m') ks m"

definition keep_where :: "('v \<Rightarrow> bool) \<Rightarrow> ('k, 'v) fmap \<Rightarrow> ('k, 'v) fmap" where
  "keep_where P m =
     fmfilter (\<lambda>k. case fmlookup m k of None \<Rightarrow> False | Some v \<Rightarrow> P v) m"

declare time_sub_def [go_defs] max_duration_def [go_defs] min_duration_def [go_defs]
  zero_time_def [go_defs] second_def [go_defs] to_lower_def [go_defs]
  is_ascii_def [go_defs] lower_char_def [go_defs] trim_suffix_char_def [go_defs]
  replace_char_def [go_defs] digit_char_def [go_defs]

section \<open>Facts: byte order\<close>

lemma unat_byte_less: "unat (b :: byte) < 256"
  using unsigned_less [of b, where ?'a = nat] by simp

lemma be_nat_less: "be_nat bs < 256 ^ length bs"
proof (induction bs)
  case Nil
  show ?case by simp
next
  case (Cons b bs)
  have "be_nat (b # bs) < Suc (unat b) * 256 ^ length bs" using Cons.IH by simp
  also have "\<dots> \<le> 256 * 256 ^ length bs"
    using unat_byte_less [of b] by (intro mult_right_mono) auto
  finally show ?case by simp
qed

lemma length_be_bytes [simp]: "length (be_bytes k n) = k"
  by (induction k) auto

lemma unat_byte_of_nat: "unat (of_nat n :: byte) = n mod 256"
  by (simp add: unat_of_nat)

lemma be_nat_be_bytes [byte_order]: "be_nat (be_bytes k n) = n mod 256 ^ k"
proof (induction k)
  case 0
  show ?case by simp
next
  case (Suc k)
  have "be_nat (be_bytes (Suc k) n) = (n div 256 ^ k) mod 256 * 256 ^ k + n mod 256 ^ k"
    by (simp add: Suc.IH unat_byte_of_nat)
  also have "\<dots> = n mod (256 ^ k * 256)"
    by (simp add: mod_mult2_eq)
  finally show ?case by (simp add: mult.commute)
qed

lemma byte_256: "(256 :: byte) = 0"
  by simp

lemma be_bytes_mod: "k \<le> j \<Longrightarrow> be_bytes k (a * 256 ^ j + n) = be_bytes k n"
proof (induction k)
  case 0
  show ?case by simp
next
  case (Suc k)
  obtain i where j: "j = k + Suc i" using Suc.prems by (metis add_Suc_right le_Suc_ex add_Suc)
  have "a * 256 ^ j = 256 ^ k * (a * 256 ^ i * 256)"
    by (simp add: j power_add ac_simps)
  then have "(a * 256 ^ j + n) div 256 ^ k = a * 256 ^ i * 256 + n div 256 ^ k"
    by (simp only:) (rule div_mult_self4, simp)
  then have "(of_nat ((a * 256 ^ j + n) div 256 ^ k) :: byte) = of_nat (n div 256 ^ k)"
    by (simp add: byte_256)
  with Suc show ?case by simp
qed

lemma be_bytes_be_nat [byte_order]: "be_bytes (length bs) (be_nat bs) = bs"
proof (induction bs)
  case Nil
  show ?case by simp
next
  case (Cons b bs)
  have "(unat b * 256 ^ length bs + be_nat bs) div 256 ^ length bs = unat b"
    using be_nat_less [of bs] by simp
  moreover have "be_bytes (length bs) (unat b * 256 ^ length bs + be_nat bs) = bs"
    using be_bytes_mod [of "length bs" "length bs" "unat b" "be_nat bs"] Cons.IH by simp
  ultimately show ?case by simp
qed

lemma le_nat_le_bytes [byte_order]: "le_nat (le_bytes k n) = n mod 256 ^ k"
  by (simp add: le_nat_def le_bytes_def be_nat_be_bytes)

lemma length_le_bytes [simp]: "length (le_bytes k n) = k"
  by (simp add: le_bytes_def)

lemma byte_of_char_of_byte [simp]: "byte_of_char (char_of_byte b) = b"
  by (simp add: byte_of_char_def char_of_byte_def unat_byte_less)

lemma char_of_byte_of_char [simp]: "char_of_byte (byte_of_char c) = c"
  by (simp add: byte_of_char_def char_of_byte_def unat_byte_of_nat)

lemma bytes_of_string_of_bytes [simp]: "bytes_of_string (string_of_bytes bs) = bs"
  by (simp add: bytes_of_string_def string_of_bytes_def comp_def)

lemma string_of_bytes_of_string [simp]: "string_of_bytes (bytes_of_string s) = s"
  by (simp add: bytes_of_string_def string_of_bytes_def comp_def)

lemma string_of_bytes_Nil [simp]: "string_of_bytes [] = []"
  by (simp add: string_of_bytes_def)

lemma go_slice_append_left: "hi \<le> length xs \<Longrightarrow> go_slice lo hi (xs @ ys) = go_slice lo hi xs"
  by (cases "lo \<le> hi") (simp_all add: go_slice_def)

lemma go_slice_append [simp]:
  "length xs = lo \<Longrightarrow> go_slice lo (lo + n) (xs @ ys) = take n ys"
  by (auto simp: go_slice_def)

lemma length_go_slice [simp]: "hi \<le> length xs \<Longrightarrow> length (go_slice lo hi xs) = hi - lo"
  by (simp add: go_slice_def)

section \<open>Facts: strings\<close>

lemma str_cut_hit: "c \<notin> set xs \<Longrightarrow> str_cut c (xs @ c # ys) = (xs, ys, True)"
  by (induction xs) auto

lemma str_cut_miss: "c \<notin> set xs \<Longrightarrow> str_cut c xs = (xs, [], False)"
  by (induction xs) auto

lemma str_cut_found_iff: "snd (snd (str_cut c xs)) \<longleftrightarrow> c \<in> set xs"
  by (induction c xs rule: str_cut.induct) (auto split: prod.splits)

lemma str_cut_before: "c \<notin> set (fst (str_cut c xs))"
  by (induction c xs rule: str_cut.induct) (auto split: prod.splits)

lemma str_cut_SomeD: "str_cut c xs = (a, b, True) \<Longrightarrow> xs = a @ c # b \<and> c \<notin> set a"
  by (induction c xs arbitrary: a b rule: str_cut.induct) (auto split: prod.splits if_splits)

lemma trim_space_Nil [simp]: "trim_space [] = []"
  by (simp add: trim_space_def trim_left.simps)

lemma digit_char_eq: "\<lbrakk>m < 36; n < 36; digit_char m = digit_char n\<rbrakk> \<Longrightarrow> m = n"
proof -
  assume m: "m < 36" and n: "n < 36" and eq: "digit_char m = digit_char n"
  from eq have "of_char (digit_char m) = (of_char (digit_char n) :: nat)" by simp
  with m n show "m = n" by (auto simp: digit_char_def of_char_of split: if_splits)
qed

lemma show_base_small: "n < b \<Longrightarrow> show_base b n = [digit_char n]"
  by (subst show_base.simps) simp

lemma show_base_step:
  "\<lbrakk>2 \<le> b; b \<le> n\<rbrakk> \<Longrightarrow> show_base b n = show_base b (n div b) @ [digit_char (n mod b)]"
  by (subst show_base.simps) simp

lemma show_base_nonempty [simp]: "show_base b n \<noteq> []"
  by (subst show_base.simps) simp

lemma show_base_inj:
  assumes b: "2 \<le> b" "b \<le> 36"
  shows "show_base b m = show_base b n \<Longrightarrow> m = n"
proof (induction m arbitrary: n rule: less_induct)
  case (less m)
  show ?case
  proof (cases "m < b \<or> n < b")
    case True
    have single: "length (show_base b k) = 1 \<longleftrightarrow> k < b" for k
      using b by (cases "k < b") (auto simp: show_base_small show_base_step)
    with True less.prems have "m < b" "n < b" by metis+
    with b less.prems show ?thesis by (auto simp: show_base_small intro: digit_char_eq)
  next
    case False
    with b less.prems have q: "show_base b (m div b) = show_base b (n div b)"
      and r: "digit_char (m mod b) = digit_char (n mod b)"
      by (auto simp: show_base_step)
    have "m div b < m" using False b by (intro div_less_dividend) auto
    from less.IH [OF this q] have "m div b = n div b" .
    moreover have "m mod b = n mod b"
      by (rule digit_char_eq [OF _ _ r]) (use b in \<open>auto intro: less_le_trans [OF mod_less_divisor]\<close>)
    ultimately show ?thesis by (metis div_mult_mod_eq)
  qed
qed

lemma show_dec_inj: "show_dec m = show_dec n \<Longrightarrow> m = n"
  by (rule show_base_inj [of 10]) simp_all

lemma set_show_base:
  assumes "2 \<le> b"
  shows "set (show_base b n) \<subseteq> digit_char ` {..<b}"
proof (induction n rule: less_induct)
  case (less n)
  show ?case
  proof (cases "n < b")
    case True
    then show ?thesis by (auto simp: show_base_small)
  next
    case False
    then have "n div b < n" using assms by (intro div_less_dividend) auto
    from less.IH [OF this] show ?thesis using False assms by (auto simp: show_base_step)
  qed
qed

lemma digit_char_dec: "d < 10 \<Longrightarrow> of_char (digit_char d) = (48 + d :: nat)"
  by (simp add: digit_char_def of_char_of)

lemma show_dec_digits: "c \<in> set (show_dec n) \<Longrightarrow> 48 \<le> (of_char c :: nat) \<and> of_char c \<le> (57 :: nat)"
  using set_show_base [of 10 n] by (auto simp: digit_char_dec)

section \<open>Facts: time and maps\<close>

lemma time_sub_ge_iff:
  "\<lbrakk>min_duration < w; w \<le> max_duration\<rbrakk> \<Longrightarrow> w \<le> time_sub t u \<longleftrightarrow> u + w \<le> t"
  by (auto simp: time_sub_def)

lemma time_sub_less_iff:
  "\<lbrakk>min_duration < w; w \<le> max_duration\<rbrakk> \<Longrightarrow> time_sub t u < w \<longleftrightarrow> t < u + w"
  by (auto simp: time_sub_def)

lemma keep_where_lookup [simp]:
  "fmlookup (keep_where P m) k =
     (case fmlookup m k of None \<Rightarrow> None | Some v \<Rightarrow> if P v then Some v else None)"
  by (auto simp: keep_where_def split: option.splits)

lemma fmdom_keep_where_subset: "fmdom (keep_where P m) |\<subseteq>| fmdom m"
  by (auto simp: keep_where_def)

lemma map_len_keep_where: "map_len (keep_where P m) \<le> map_len m"
  unfolding map_len_def by (intro fcard_mono fmdom_keep_where_subset)

lemma map_len_upd: "map_len (fmupd k v m) \<le> Suc (map_len m)"
  by (simp add: map_len_def fcard_finsert_if)

lemma map_len_upd_old: "k |\<in>| fmdom m \<Longrightarrow> map_len (fmupd k v m) = map_len m"
  by (simp add: map_len_def finsert_absorb)

lemma map_len_upd_new: "k |\<notin>| fmdom m \<Longrightarrow> map_len (fmupd k v m) = Suc (map_len m)"
  by (simp add: map_len_def fcard_finsert_if)

lemma map_len_empty [simp]: "map_len fmempty = 0"
  by (simp add: map_len_def)

lemma lookup_delete_where:
  "fmlookup (delete_where P ks m) k =
     (case fmlookup m k of None \<Rightarrow> None | Some v \<Rightarrow> if P v \<and> k \<in> set ks then None else Some v)"
  unfolding delete_where_def
  by (induction ks arbitrary: m) (auto split: option.splits)

lemma delete_where_any_order:
  assumes "key_order m ks"
  shows "delete_where P ks m = keep_where (\<lambda>v. \<not> P v) m"
proof (rule fmap_ext)
  fix k
  have "fmlookup m k = Some v \<Longrightarrow> k \<in> set ks" for v
    using assms by (metis key_order_def fmdomI fset_of_list.rep_eq)
  then show "fmlookup (delete_where P ks m) k = fmlookup (keep_where (\<lambda>v. \<not> P v) m) k"
    by (auto simp: lookup_delete_where split: option.splits)
qed

lemma key_order_empty [simp]: "key_order fmempty ks \<longleftrightarrow> ks = []"
  by (cases ks) (auto simp: key_order_def)

lemma key_order_length: "key_order m ks \<Longrightarrow> length ks = map_len m"
  by (metis key_order_def map_len_def distinct_card fcard.rep_eq fset_of_list.rep_eq)

lemma key_order_exists: "\<exists>ks. key_order m ks"
  by (metis key_order_def finite_distinct_list finite_fset fset_inject fset_of_list.rep_eq)

text \<open>A loop of insertions: a key is bound to the last value the list gives it.\<close>

lemma lookup_fold_upd [map_loops]:
  "fmlookup (fold (\<lambda>x. fmupd (f x) (g x)) xs m) k =
     (case find (\<lambda>x. f x = k) (rev xs) of None \<Rightarrow> fmlookup m k | Some x \<Rightarrow> Some (g x))"
proof (induction xs arbitrary: m rule: rev_induct)
  case Nil
  show ?case by simp
next
  case (snoc x xs)
  then show ?case by simp
qed

lemma lookup_fold_drop [map_loops]:
  "fmlookup (fold (\<lambda>x. fmdrop (f x)) xs m) k = (if k \<in> f ` set xs then None else fmlookup m k)"
  by (induction xs arbitrary: m) auto

lemma fold_nested: "fold f (concat xss) = fold (\<lambda>xs. fold f xs) xss"
  by (induction xss) auto

lemma find_image_None: "find (\<lambda>x. f x = k) xs = None \<longleftrightarrow> k \<notin> f ` set xs"
  by (auto simp: find_None_iff)

lemma find_SomeD: "find P xs = Some x \<Longrightarrow> x \<in> set xs \<and> P x"
  by (induction xs) (auto split: if_splits)

lemma sum_list_update_one:
  fixes f :: "'a \<Rightarrow> 'b :: comm_monoid_add"
  shows "i < length xs \<Longrightarrow> sum_list (map f (xs[i := y])) + f (xs ! i) = sum_list (map f xs) + f y"
proof (induction xs arbitrary: i)
  case Nil
  then show ?case by simp
next
  case (Cons x xs)
  then show ?case by (cases i) (auto simp: ac_simps)
qed

end
