(* ===== verification/Netip.thy ===== *)
theory Netip
  imports Sniffer_Prelude
begin

text \<open>
  Go's package \<open>net/netip\<close> as far as the sniffer uses it: the address type, its
  constructors from bytes, the classification predicates, \<open>Unmap\<close>, \<open>String\<close>,
  \<open>ParseAddr\<close> and \<open>Prefix.Contains\<close>. An address is the zero value, an IPv4
  address or an IPv6 address with its zone; two addresses are equal as Go
  values exactly when the terms are equal.
\<close>

unbundle bit_operations_syntax

section \<open>Addresses\<close>

datatype addr =
    NoAddr
  | Addr4 "32 word"
  | Addr6 "128 word" string

definition addr_from4 :: "byte list \<Rightarrow> addr" where
  "addr_from4 a = Addr4 (of_nat (be_nat a))"

definition addr_from16 :: "byte list \<Rightarrow> addr" where
  "addr_from16 a = Addr6 (of_nat (be_nat a)) []"

definition addr_from_slice :: "byte list \<Rightarrow> addr option" where
  \<comment> \<open>\<open>AddrFromSlice\<close>: \<open>None\<close> is \<open>ok = false\<close>\<close>
  "addr_from_slice b =
     (if length b = 4 then Some (addr_from4 b)
      else if length b = 16 then Some (addr_from16 b) else None)"

fun as_slice :: "addr \<Rightarrow> byte list" where
  "as_slice NoAddr = []"
| "as_slice (Addr4 w) = be_bytes 4 (unat w)"
| "as_slice (Addr6 w z) = be_bytes 16 (unat w)"

definition is_4in6 :: "128 word \<Rightarrow> bool" where
  "is_4in6 w \<longleftrightarrow> drop_bit 32 w = 65535"

fun unmap :: "addr \<Rightarrow> addr" where
  "unmap (Addr6 w z) = (if is_4in6 w then Addr4 (ucast w) else Addr6 w z)"
| "unmap a = a"

definition loopback4 :: "32 word \<Rightarrow> bool" where
  "loopback4 w \<longleftrightarrow> drop_bit 24 w = 127"

definition link_local4 :: "32 word \<Rightarrow> bool" where
  "link_local4 w \<longleftrightarrow> drop_bit 16 w = 43518"

fun is_loopback_addr :: "addr \<Rightarrow> bool" where
  "is_loopback_addr NoAddr = False"
| "is_loopback_addr (Addr4 w) = loopback4 w"
| "is_loopback_addr (Addr6 w z) =
     (if is_4in6 w then loopback4 (ucast w) else w = 1)"

fun is_link_local_unicast :: "addr \<Rightarrow> bool" where
  "is_link_local_unicast NoAddr = False"
| "is_link_local_unicast (Addr4 w) = link_local4 w"
| "is_link_local_unicast (Addr6 w z) =
     (if is_4in6 w then link_local4 (ucast w)
      else drop_bit 112 w AND 65472 = 65152)"

fun prefix6_contains :: "128 word \<Rightarrow> nat \<Rightarrow> addr \<Rightarrow> bool" where
  \<comment> \<open>\<open>Prefix.Contains\<close> of an IPv6 prefix: zoned addresses and IPv4 are never inside\<close>
  "prefix6_contains p bits (Addr6 w z) =
     (z = [] \<and> drop_bit (128 - bits) (w XOR p) = 0)"
| "prefix6_contains p bits _ = False"

section \<open>Rendering\<close>

definition ipv4_string :: "32 word \<Rightarrow> string" where
  "ipv4_string w =
     (case map (\<lambda>b. show_dec (unat b)) (be_bytes 4 (unat w)) of
        [a, b, c, d] \<Rightarrow> a @ ''.'' @ b @ ''.'' @ c @ ''.'' @ d | _ \<Rightarrow> [])"

definition groups6 :: "128 word \<Rightarrow> nat list" where
  \<comment> \<open>the eight 16-bit groups, \<open>v6u16(0)\<close> to \<open>v6u16(7)\<close>\<close>
  "groups6 w = map (\<lambda>i. unat w div 65536 ^ (7 - i) mod 65536) [0 ..< 8]"

definition zero_run :: "nat list \<Rightarrow> nat \<Rightarrow> nat" where
  \<comment> \<open>number of zero groups from index \<open>i\<close> on\<close>
  "zero_run gs i = length (takeWhile (\<lambda>g. g = 0) (drop i gs))"

definition longest_zeros :: "nat list \<Rightarrow> (nat \<times> nat) option" where
  \<comment> \<open>start and end of the first longest run of at least two zero groups\<close>
  "longest_zeros gs =
     fold (\<lambda>i best. let l = zero_run gs i in
             if 2 \<le> l \<and> (case best of None \<Rightarrow> True | Some (s, e) \<Rightarrow> e - s < l)
             then Some (i, i + l) else best) [0 ..< 8] None"

fun join_colon :: "string list \<Rightarrow> string" where
  "join_colon [] = []"
| "join_colon [x] = x"
| "join_colon (x # y # xs) = x @ '':'' @ join_colon (y # xs)"

definition ipv6_string :: "128 word \<Rightarrow> string" where
  "ipv6_string w =
     (let gs = groups6 w; hs = map show_hex gs in
      case longest_zeros gs of
        None \<Rightarrow> join_colon hs
      | Some (s, e) \<Rightarrow> join_colon (take s hs) @ ''::'' @ join_colon (drop e hs))"

fun addr_string :: "addr \<Rightarrow> string" where
  "addr_string NoAddr = ''invalid IP''"
| "addr_string (Addr4 w) = ipv4_string w"
| "addr_string (Addr6 w z) =
     (if is_4in6 w then ''::ffff:'' @ ipv4_string (ucast w) else ipv6_string w)
     @ (if z = [] then [] else CHR ''%'' # z)"

section \<open>Parsing\<close>

definition dec_digit :: "char \<Rightarrow> nat option" where
  "dec_digit c =
     (let n = of_char c in if 48 \<le> n \<and> n \<le> 57 then Some (n - 48) else None)"

definition hex_digit :: "char \<Rightarrow> nat option" where
  "hex_digit c =
     (let n = of_char c in
      if 48 \<le> n \<and> n \<le> 57 then Some (n - 48)
      else if 97 \<le> n \<and> n \<le> 102 then Some (n - 87)
      else if 65 \<le> n \<and> n \<le> 70 then Some (n - 55) else None)"

fun ipv4_fields :: "string \<Rightarrow> nat list \<Rightarrow> nat \<Rightarrow> nat \<Rightarrow> nat list option" where
  \<comment> \<open>\<open>parseIPv4Fields\<close>: finished octets, value and digits of the current one\<close>
  "ipv4_fields [] fs v d = (if length fs < 3 then None else Some (fs @ [v]))"
| "ipv4_fields (c # s) fs v d =
     (case dec_digit c of
        Some n \<Rightarrow>
          if d = 1 \<and> v = 0 then None
          else if 255 < v * 10 + n then None
          else ipv4_fields s fs (v * 10 + n) (Suc d)
      | None \<Rightarrow>
          if c = CHR ''.'' then
            (if d = 0 \<or> s = [] then None
             else if length fs = 3 then None
             else ipv4_fields s (fs @ [v]) 0 0)
          else None)"

fun hex_group :: "string \<Rightarrow> nat \<Rightarrow> nat \<Rightarrow> (nat \<times> nat \<times> string) option" where
  \<comment> \<open>value and digits read so far; a fifth digit fails\<close>
  "hex_group [] acc off = Some (acc, off, [])"
| "hex_group (c # s) acc off =
     (case hex_digit c of
        None \<Rightarrow> Some (acc, off, c # s)
      | Some n \<Rightarrow> if 3 < off then None else hex_group s (acc * 16 + n) (Suc off))"

lemma hex_group_shrinks: "hex_group s acc off = Some (a, n, r) \<Longrightarrow> length r \<le> length s"
  by (induction s acc off rule: hex_group.induct) (auto split: option.splits if_splits)

function ipv6_groups ::
  "string \<Rightarrow> nat list \<Rightarrow> nat option \<Rightarrow> (nat list \<times> nat option \<times> string) option" where
  "ipv6_groups s gs e =
     (if 8 \<le> length gs then Some (gs, e, s)
      else case hex_group s 0 0 of
        None \<Rightarrow> None
      | Some (acc, off, r) \<Rightarrow>
          if off = 0 then None
          else if r \<noteq> [] \<and> hd r = CHR ''.'' then
            (if e = None \<and> length gs \<noteq> 6 then None
             else if 6 < length gs then None
             else case ipv4_fields s [] 0 0 of
                 Some [a, b, c, d] \<Rightarrow> Some (gs @ [a * 256 + b, c * 256 + d], e, [])
               | _ \<Rightarrow> None)
          else if r = [] then Some (gs @ [acc], e, [])
          else if hd r \<noteq> CHR '':'' \<or> length r = 1 then None
          else if hd (tl r) = CHR '':'' then
            (if e \<noteq> None then None
             else if length r = 2 then Some (gs @ [acc], Some (Suc (length gs)), [])
             else ipv6_groups (drop 2 r) (gs @ [acc]) (Some (Suc (length gs))))
          else ipv6_groups (tl r) (gs @ [acc]) e)"
  by pat_completeness auto
termination
  by (relation "measure (\<lambda>(s, gs, e). length s)")
    (auto dest!: hex_group_shrinks simp: neq_Nil_conv)

declare ipv6_groups.simps [simp del]

definition groups_word :: "nat list \<Rightarrow> 128 word" where
  "groups_word gs = of_nat (foldl (\<lambda>n g. n * 65536 + g) 0 gs)"

definition parse_ipv6 :: "string \<Rightarrow> addr option" where
  "parse_ipv6 inp =
     (case str_cut (CHR ''%'') inp of (s, zone, zoned) \<Rightarrow>
        if zoned \<and> zone = [] then None
        else
          let lead = prefix ''::'' s; body = (if lead then drop 2 s else s) in
          if lead \<and> body = [] then Some (Addr6 0 zone)
          else case ipv6_groups body [] (if lead then Some 0 else None) of
              None \<Rightarrow> None
            | Some (gs, e, r) \<Rightarrow>
                if r \<noteq> [] then None
                else if length gs < 8 then
                  (case e of
                     None \<Rightarrow> None
                   | Some k \<Rightarrow>
                       Some (Addr6 (groups_word (take k gs @ replicate (8 - length gs) 0 @ drop k gs)) zone))
                else if e \<noteq> None then None
                else Some (Addr6 (groups_word gs) zone))"

definition parse_addr :: "string \<Rightarrow> addr option" where
  \<comment> \<open>\<open>netip.ParseAddr\<close>: the first of \<open>.\<close>, \<open>:\<close> and \<open>%\<close> decides; \<open>None\<close> is the error\<close>
  "parse_addr s =
     (case find (\<lambda>c. c \<in> {CHR ''.'', CHR '':'', CHR ''%''}) s of
        Some c \<Rightarrow>
          if c = CHR ''.'' then
            (case ipv4_fields s [] 0 0 of
               Some [a, b, c, d] \<Rightarrow> Some (Addr4 (of_nat (((a * 256 + b) * 256 + c) * 256 + d)))
             | _ \<Rightarrow> None)
          else if c = CHR '':'' then parse_ipv6 s else None
      | None \<Rightarrow> None)"

section \<open>Facts\<close>

lemma unmap_idem [simp]: "unmap (unmap a) = unmap a"
  by (cases a rule: unmap.cases) auto

lemma is_loopback_addr_unmap [simp]: "is_loopback_addr (unmap a) = is_loopback_addr a"
  by (cases a rule: unmap.cases) auto

lemma is_link_local_unicast_unmap [simp]:
  "is_link_local_unicast (unmap a) = is_link_local_unicast a"
  by (cases a rule: unmap.cases) auto

fun addr_zone :: "addr \<Rightarrow> string" where
  "addr_zone (Addr6 w z) = z"
| "addr_zone _ = []"

lemma addr_zone_unmap: "addr_zone a = [] \<Longrightarrow> addr_zone (unmap a) = []"
  by (cases a rule: unmap.cases) auto

lemma unmap_eq_NoAddr [simp]: "unmap a = NoAddr \<longleftrightarrow> a = NoAddr"
  by (cases a rule: unmap.cases) auto

lemma length_as_slice: "length (as_slice a) = (case a of NoAddr \<Rightarrow> 0 | Addr4 _ \<Rightarrow> 4 | Addr6 _ _ \<Rightarrow> 16)"
  by (cases a) auto

lemma unat_word32_less: "unat (w :: 32 word) < 256 ^ 4"
  using unsigned_less [of w, where ?'a = nat] by simp

lemma unat_word128_less: "unat (w :: 128 word) < 256 ^ 16"
  using unsigned_less [of w, where ?'a = nat] by simp

text \<open>The bytes of an address without a zone determine it, so it survives the wire.\<close>

lemma addr_from_slice_as_slice [simp]:
  assumes "a \<noteq> NoAddr" and "addr_zone a = []"
  shows "addr_from_slice (as_slice a) = Some a"
proof (cases a)
  case NoAddr
  with assms show ?thesis by simp
next
  case (Addr4 w)
  then show ?thesis
    using unat_word32_less [of w]
    by (simp add: addr_from_slice_def addr_from4_def be_nat_be_bytes del: be_bytes.simps)
next
  case (Addr6 w z)
  with assms show ?thesis
    using unat_word128_less [of w]
    by (simp add: addr_from_slice_def addr_from16_def be_nat_be_bytes del: be_bytes.simps)
qed

lemma addr_from_slice_Some:
  "addr_from_slice b = Some a \<Longrightarrow> a \<noteq> NoAddr \<and> addr_zone a = []"
  by (auto simp: addr_from_slice_def addr_from4_def addr_from16_def split: if_splits)

lemma addr_from_slice_None: "addr_from_slice b = None \<longleftrightarrow> length b \<noteq> 4 \<and> length b \<noteq> 16"
  by (auto simp: addr_from_slice_def)

end
