(* ===== verification/Model.thy ===== *)
theory Model
  imports Netip
begin

text \<open>
  \<open>internal/model/model.go\<close>: connection events, workloads, service calls, the
  orientation of an event, the filters of the pipeline and the recognised
  application protocols. Records and functions carry the source's names; the
  fields of \<open>Workload\<close>, \<open>ServiceCall\<close> and \<open>DNSAnswer\<close> have a short prefix.
\<close>

section \<open>Protocols\<close>

type_synonym protocol = "8 word"

definition ProtocolTCP :: protocol where "ProtocolTCP = 6"
definition ProtocolUDP :: protocol where "ProtocolUDP = 17"
definition ProtocolSCTP :: protocol where "ProtocolSCTP = 132"

definition Protocol_String :: "protocol \<Rightarrow> string" where
  "Protocol_String p =
     (if p = ProtocolTCP then ''tcp''
      else if p = ProtocolUDP then ''udp''
      else if p = ProtocolSCTP then ''sctp''
      else ''proto-'' @ show_dec (unat p))"

definition recognizedL7 :: "string list" where
  "recognizedL7 =
     [''http'', ''http2'', ''https'', ''grpc'', ''grpc-web'', ''tcp'', ''tls'',
      ''mongo'', ''mysql'', ''redis'', ''udp'']"

definition NormalizeL7 :: "unicode_lower \<Rightarrow> string \<Rightarrow> string \<Rightarrow> string" where
  "NormalizeL7 uni appProtocol portName =
     (let token = to_lower uni (trim_space appProtocol);
          token = (if token = [] then fst (str_cut (CHR ''-'') (to_lower uni (trim_space portName)))
                   else token)
      in if token \<in> set recognizedL7 then token else [])"

section \<open>Events and workloads\<close>

record ConnectionEvent =
  SrcIP :: addr
  DstIP :: addr
  SrcPort :: "16 word"
  DstPort :: "16 word"
  Protocol :: protocol
  PID :: "32 word"
  Comm :: string
  Outbound :: bool
  SrcPodUID :: string
  DstHostname :: string

record DNSAnswer =
  a_Name :: string
  a_IP :: addr
  a_TTL :: "32 word"

record Workload =
  w_Name :: string
  w_Namespace :: string
  w_Kind :: string

record ServiceCall =
  sc_Source :: Workload
  sc_Dest :: Workload
  sc_DestPort :: "16 word"
  sc_DestProtocol :: protocol
  sc_DestAppProtocol :: string

definition KindExternal :: string where "KindExternal = ''external''"
definition KindServiceEntry :: string where "KindServiceEntry = ''ServiceEntry''"
definition KindService :: string where "KindService = ''Service''"
definition KindNode :: string where "KindNode = ''node''"

definition IsExternal :: "Workload \<Rightarrow> bool" where
  "IsExternal w \<longleftrightarrow> w_Kind w = KindExternal"

section \<open>Filters and orientation\<close>

definition IsLoopback :: "ConnectionEvent \<Rightarrow> bool" where
  "IsLoopback e \<longleftrightarrow> is_loopback_addr (SrcIP e) \<or> is_loopback_addr (DstIP e)"

definition IsSelfEdge :: "ConnectionEvent \<Rightarrow> bool" where
  "IsSelfEdge e \<longleftrightarrow> unmap (SrcIP e) = unmap (DstIP e)"

definition awsReservedPrefix :: "addr \<Rightarrow> bool" where
  \<comment> \<open>\<open>awsReservedPrefix.Contains\<close> for the prefix \<open>fd00:ec2::/32\<close>\<close>
  "awsReservedPrefix = prefix6_contains 0xfd000ec2000000000000000000000000 32"

definition IsAWSReserved :: "ConnectionEvent \<Rightarrow> bool" where
  "IsAWSReserved e \<longleftrightarrow> awsReservedPrefix (SrcIP e) \<or> awsReservedPrefix (DstIP e)"

definition IsLinkLocal :: "ConnectionEvent \<Rightarrow> bool" where
  "IsLinkLocal e \<longleftrightarrow> is_link_local_unicast (SrcIP e) \<or> is_link_local_unicast (DstIP e)"

definition Canonical :: "ConnectionEvent \<Rightarrow> ConnectionEvent" where
  "Canonical e =
     (if Outbound e then e
      else e\<lparr>SrcIP := DstIP e, DstIP := SrcIP e, SrcPort := DstPort e, DstPort := SrcPort e\<rparr>)"

definition IsReversedDuplicate :: "ConnectionEvent \<Rightarrow> Workload \<Rightarrow> bool" where
  "IsReversedDuplicate e source \<longleftrightarrow> \<not> Outbound e \<and> \<not> IsExternal source"

text \<open>
  What the tracepoint reports at the accepting end of a connection whose
  connecting end it reports as \<open>e\<close>: endpoints exchanged, no process context.
\<close>

definition accepted_side :: "ConnectionEvent \<Rightarrow> ConnectionEvent" where
  "accepted_side e =
     \<lparr>SrcIP = DstIP e, DstIP = SrcIP e, SrcPort = DstPort e, DstPort = SrcPort e,
      Protocol = Protocol e, PID = 0, Comm = [], Outbound = False,
      SrcPodUID = [], DstHostname = []\<rparr>"

definition node_local :: "ConnectionEvent \<Rightarrow> bool" where
  \<comment> \<open>the disjunction the collector drops events on\<close>
  "node_local e \<longleftrightarrow> IsLoopback e \<or> IsSelfEdge e \<or> IsAWSReserved e \<or> IsLinkLocal e"

lemmas filter_defs =
  IsLoopback_def IsSelfEdge_def IsAWSReserved_def IsLinkLocal_def node_local_def

section \<open>Facts\<close>

lemma NormalizeL7_recognized: "NormalizeL7 uni a p \<in> insert [] (set recognizedL7)"
  by (simp add: NormalizeL7_def Let_def)

lemma Canonical_simps [simp]:
  "Outbound (Canonical e) = Outbound e"
  "Protocol (Canonical e) = Protocol e"
  "PID (Canonical e) = PID e"
  "Comm (Canonical e) = Comm e"
  "SrcPodUID (Canonical e) = SrcPodUID e"
  "DstHostname (Canonical e) = DstHostname e"
  by (simp_all add: Canonical_def)

lemma Canonical_outbound [simp]: "Outbound e \<Longrightarrow> Canonical e = e"
  by (simp add: Canonical_def)

lemma Canonical_involutive [simp]: "Canonical (Canonical e) = e"
  by (simp add: Canonical_def)

lemma node_local_Canonical [simp]: "node_local (Canonical e) = node_local e"
  by (auto simp: filter_defs Canonical_def)

lemma to_lower_recognized: "t \<in> set recognizedL7 \<Longrightarrow> to_lower uni t = t \<and> trim_space t = t \<and> t \<noteq> []"
proof -
  assume t: "t \<in> set recognizedL7"
  have "\<forall>t \<in> set recognizedL7. is_ascii t \<and> map lower_char t = t \<and> trim_space t = t \<and> t \<noteq> []"
    by code_simp
  with t show ?thesis by (auto simp: to_lower_def)
qed

section \<open>Properties\<close>

text \<open>An application protocol is either unknown (empty) or one of the recognised
  tokens. A recognised \<open>appProtocol\<close> is returned as it is, whatever the port's name;
  without one, a port named by a recognised token that has no dash gets that token,
  and a port named \<open>grpc-web\<close> gets \<open>grpc\<close>, since the name is cut at its first dash.\<close>

lemma NormalizeL7_tokens:
  "NormalizeL7 uni a n \<in> insert [] (set recognizedL7)
   \<and> (t \<in> set recognizedL7 \<longrightarrow>
        NormalizeL7 uni t n = t \<and> (CHR ''-'' \<notin> set t \<longrightarrow> NormalizeL7 uni [] t = t))
   \<and> NormalizeL7 uni [] ''grpc-web'' = ''grpc''"
proof (intro conjI impI)
  show "NormalizeL7 uni a n \<in> insert [] (set recognizedL7)" by (rule NormalizeL7_recognized)
next
  assume t: "t \<in> set recognizedL7"
  with to_lower_recognized [OF t, of uni] show "NormalizeL7 uni t n = t"
    by (simp add: NormalizeL7_def Let_def)
  assume "CHR ''-'' \<notin> set t"
  with t to_lower_recognized [OF t, of uni] show "NormalizeL7 uni [] t = t"
    by (simp add: NormalizeL7_def Let_def trim_space_Nil str_cut_miss to_lower_def is_ascii_def)
next
  have "''grpc-web'' \<in> set recognizedL7" by code_simp
  from to_lower_recognized [OF this, of uni] show "NormalizeL7 uni [] ''grpc-web'' = ''grpc''"
    by (simp add: NormalizeL7_def Let_def trim_space_Nil to_lower_def is_ascii_def) (simp add: recognizedL7_def)
qed

end
