(* ===== verification/Aggregate.thy ===== *)
theory Aggregate
  imports Model
begin

text \<open>
  \<open>internal/collector/aggregate.go\<close> and the wire messages of
  \<open>api/sniffer/v1/processor.pb.go\<close> it fills: canonical events are folded into one
  flow per key until the flows are drained into records. \<open>Add\<close> and the swap in
  \<open>Drain\<close> hold the mutex, so each operation is one atomic function; the iteration
  order of the drained map is the argument \<open>ks\<close>.
\<close>

section \<open>Messages\<close>

record FlowRecord =
  fr_SrcIp :: "byte list"
  fr_DstIp :: "byte list"
  fr_DstPort :: "32 word"
  fr_Protocol :: "32 word"
  fr_Outbound :: bool
  fr_SrcPodUid :: string
  fr_Comm :: string
  fr_Count :: "32 word"
  fr_FirstSeenUnixNano :: "64 word"
  fr_LastSeenUnixNano :: "64 word"
  fr_DstHostname :: string

record ReportRequest =
  rq_NodeName :: string
  rq_Records :: "FlowRecord list"

section \<open>State and operations\<close>

record flowKey =
  k_src :: addr
  k_dst :: addr
  k_dstPort :: "16 word"
  k_proto :: protocol
  k_outbound :: bool
  k_podUID :: string

record flow =
  f_comm :: string
  f_hostname :: string
  f_count :: "32 word"
  f_first :: gotime
  f_last :: gotime

record Aggregator =
  a_flows :: "(flowKey, flow) fmap"

definition NewAggregator :: Aggregator where
  "NewAggregator = \<lparr>a_flows = fmempty\<rparr>"

definition flow_key :: "ConnectionEvent \<Rightarrow> flowKey" where
  "flow_key ev =
     \<lparr>k_src = SrcIP ev, k_dst = DstIP ev, k_dstPort = DstPort ev, k_proto = Protocol ev,
      k_outbound = Outbound ev, k_podUID = SrcPodUID ev\<rparr>"

definition Aggregator_Add :: "ConnectionEvent \<Rightarrow> gotime \<Rightarrow> Aggregator \<Rightarrow> nat \<times> Aggregator" where
  "Aggregator_Add ev now a =
     (let k = flow_key ev;
          f = (case fmlookup (a_flows a) k of
                 None \<Rightarrow> \<lparr>f_comm = [], f_hostname = [], f_count = 0, f_first = now, f_last = zero_time\<rparr>
               | Some f \<Rightarrow> f);
          f = (if f_comm f = [] then f\<lparr>f_comm := Comm ev\<rparr> else f);
          f = (if f_hostname f = [] then f\<lparr>f_hostname := DstHostname ev\<rparr> else f);
          f = f\<lparr>f_count := f_count f + 1, f_last := now\<rparr>;
          flows = fmupd k f (a_flows a)
      in (map_len flows, a\<lparr>a_flows := flows\<rparr>))"

definition flow_record :: "flowKey \<Rightarrow> flow \<Rightarrow> FlowRecord" where
  "flow_record k f =
     \<lparr>fr_SrcIp = as_slice (k_src k), fr_DstIp = as_slice (k_dst k),
      fr_DstPort = ucast (k_dstPort k), fr_Protocol = ucast (k_proto k),
      fr_Outbound = k_outbound k, fr_SrcPodUid = k_podUID k, fr_Comm = f_comm f,
      fr_Count = f_count f, fr_FirstSeenUnixNano = unix_nano (f_first f),
      fr_LastSeenUnixNano = unix_nano (f_last f), fr_DstHostname = f_hostname f\<rparr>"

fun drain_loop :: "(flowKey, flow) fmap \<Rightarrow> flowKey list \<Rightarrow> FlowRecord list" where
  "drain_loop flows [] = []"
| "drain_loop flows (k # ks) =
     (case fmlookup flows k of None \<Rightarrow> [] | Some f \<Rightarrow> [flow_record k f]) @ drain_loop flows ks"

definition Aggregator_Drain :: "flowKey list \<Rightarrow> Aggregator \<Rightarrow> FlowRecord list \<times> Aggregator" where
  "Aggregator_Drain ks a = (drain_loop (a_flows a) ks, a\<lparr>a_flows := fmempty\<rparr>)"

section \<open>The summary a record stands for\<close>

definition first_nonempty :: "string list \<Rightarrow> string" where
  "first_nonempty ss = (case find (\<lambda>s. s \<noteq> []) ss of None \<Rightarrow> [] | Some s \<Rightarrow> s)"

definition of_key :: "flowKey \<Rightarrow> (gotime \<times> ConnectionEvent) list \<Rightarrow> (gotime \<times> ConnectionEvent) list" where
  "of_key k es = filter (\<lambda>e. flow_key (snd e) = k) es"

definition summary :: "(gotime \<times> ConnectionEvent) list \<Rightarrow> flow option" where
  \<comment> \<open>of the events of one key, in order\<close>
  "summary es =
     (if es = [] then None
      else Some \<lparr>f_comm = first_nonempty (map (Comm \<circ> snd) es),
                 f_hostname = first_nonempty (map (DstHostname \<circ> snd) es),
                 f_count = of_nat (length es), f_first = fst (hd es), f_last = fst (last es)\<rparr>)"

definition add_all :: "(gotime \<times> ConnectionEvent) list \<Rightarrow> Aggregator \<Rightarrow> Aggregator" where
  "add_all es a = fold (\<lambda>e a. snd (Aggregator_Add (snd e) (fst e) a)) es a"

definition agg_len :: "Aggregator \<Rightarrow> nat" where
  "agg_len a = map_len (a_flows a)"

definition agg_total :: "Aggregator \<Rightarrow> 32 word" where
  \<comment> \<open>events folded into the held flows, modulo \<open>2 ^ 32\<close> like each count\<close>
  "agg_total a = (\<Sum>k \<in> fset (fmdom (a_flows a)). case fmlookup (a_flows a) k of None \<Rightarrow> 0 | Some f \<Rightarrow> f_count f)"

definition records_total :: "FlowRecord list \<Rightarrow> 32 word" where
  "records_total rs = sum_list (map fr_Count rs)"

section \<open>Facts\<close>

lemma first_nonempty_snoc:
  "first_nonempty (ss @ [s]) = (if first_nonempty ss = [] then s else first_nonempty ss)"
  by (induction ss) (auto simp: first_nonempty_def)

lemma Aggregator_Add_lookup:
  "fmlookup (a_flows (snd (Aggregator_Add ev now a))) k =
     (if k = flow_key ev
      then Some (case fmlookup (a_flows a) k of
          None \<Rightarrow> \<lparr>f_comm = Comm ev, f_hostname = DstHostname ev, f_count = 1, f_first = now, f_last = now\<rparr>
        | Some f \<Rightarrow> \<lparr>f_comm = (if f_comm f = [] then Comm ev else f_comm f),
                     f_hostname = (if f_hostname f = [] then DstHostname ev else f_hostname f),
                     f_count = f_count f + 1, f_first = f_first f, f_last = now\<rparr>)
      else fmlookup (a_flows a) k)"
  by (auto simp: Aggregator_Add_def Let_def split: option.split)

lemma Aggregator_Add_len: "fst (Aggregator_Add ev now a) = agg_len (snd (Aggregator_Add ev now a))"
  by (simp add: Aggregator_Add_def Let_def agg_len_def)

lemma Aggregator_Add_len_le: "agg_len (snd (Aggregator_Add ev now a)) \<le> Suc (agg_len a)"
  by (simp add: Aggregator_Add_def Let_def agg_len_def map_len_upd)

lemma add_all_lookup:
  "fmlookup (a_flows (add_all es NewAggregator)) k = summary (of_key k es)"
proof (induction es rule: rev_induct)
  case Nil
  show ?case by (simp add: add_all_def NewAggregator_def summary_def of_key_def)
next
  case (snoc e es)
  show ?case
  proof (cases "flow_key (snd e) = k")
    case False
    with snoc show ?thesis by (auto simp: add_all_def Aggregator_Add_lookup of_key_def)
  next
    case True
    have all: "of_key k (es @ [e]) = of_key k es @ [e]" using True by (simp add: of_key_def)
    show ?thesis
    proof (cases "of_key k es = []")
      case True
      with snoc \<open>flow_key (snd e) = k\<close> all show ?thesis
        by (simp add: add_all_def Aggregator_Add_lookup summary_def first_nonempty_def)
    next
      case False
      with snoc \<open>flow_key (snd e) = k\<close> all show ?thesis
        by (simp add: add_all_def Aggregator_Add_lookup summary_def first_nonempty_snoc)
    qed
  qed
qed

lemma drain_loop_in:
  "r \<in> set (drain_loop flows ks) \<longleftrightarrow> (\<exists>k \<in> set ks. \<exists>f. fmlookup flows k = Some f \<and> r = flow_record k f)"
proof (induction ks)
  case Nil
  show ?case by simp
next
  case (Cons k ks)
  then show ?case by (cases "fmlookup flows k") auto
qed

lemma drain_loop_map:
  "set ks \<subseteq> fset (fmdom flows) \<Longrightarrow>
     drain_loop flows ks = map (\<lambda>k. flow_record k (the (fmlookup flows k))) ks"
  by (induction ks) (auto split: option.splits simp: fmdom_notI)

lemma key_order_set: "key_order m ks \<Longrightarrow> set ks = fset (fmdom m)"
  by (metis key_order_def fset_of_list.rep_eq)

lemma Aggregator_Drain_records:
  assumes "key_order (a_flows a) ks"
  shows "r \<in> set (fst (Aggregator_Drain ks a)) \<longleftrightarrow>
           (\<exists>k f. fmlookup (a_flows a) k = Some f \<and> r = flow_record k f)"
  using key_order_set [OF assms] by (auto simp: Aggregator_Drain_def drain_loop_in fmdomI)

lemma Aggregator_Drain_length:
  assumes "key_order (a_flows a) ks"
  shows "length (fst (Aggregator_Drain ks a)) = agg_len a"
  using key_order_length [OF assms] key_order_set [OF assms]
  by (simp add: Aggregator_Drain_def drain_loop_map agg_len_def)

lemma Aggregator_Drain_total:
  assumes "key_order (a_flows a) ks"
  shows "records_total (fst (Aggregator_Drain ks a)) = agg_total a"
proof -
  have d: "distinct ks" using assms by (simp add: key_order_def)
  have "records_total (fst (Aggregator_Drain ks a)) = (\<Sum>k \<leftarrow> ks. f_count (the (fmlookup (a_flows a) k)))"
    using key_order_set [OF assms]
    by (simp add: Aggregator_Drain_def drain_loop_map records_total_def flow_record_def comp_def)
  also have "\<dots> = (\<Sum>k \<in> set ks. f_count (the (fmlookup (a_flows a) k)))"
    using d by (rule sum_list_distinct_conv_sum_set)
  also have "\<dots> = agg_total a"
    unfolding agg_total_def key_order_set [OF assms]
    by (rule sum.cong) (auto split: option.split simp: fmdom_notI)
  finally show ?thesis .
qed

lemma agg_total_Add: "agg_total (snd (Aggregator_Add ev now a)) = agg_total a + 1"
proof -
  let ?k = "flow_key ev" and ?a = "snd (Aggregator_Add ev now a)"
  let ?c = "\<lambda>a k. case fmlookup (a_flows a) k of None \<Rightarrow> 0 | Some f \<Rightarrow> f_count f"
  have dom: "fset (fmdom (a_flows ?a)) = insert ?k (fset (fmdom (a_flows a)))"
    by (simp add: Aggregator_Add_def Let_def)
  have same: "k \<noteq> ?k \<Longrightarrow> ?c ?a k = ?c a k" for k
    by (simp add: Aggregator_Add_lookup)
  have here: "?c ?a ?k = ?c a ?k + 1"
    by (simp add: Aggregator_Add_lookup split: option.split)
  let ?D = "fset (fmdom (a_flows a))"
  have "agg_total ?a = ?c ?a ?k + (\<Sum>k \<in> ?D - {?k}. ?c ?a k)"
    unfolding agg_total_def dom by (simp add: sum.insert_remove)
  also have "(\<Sum>k \<in> ?D - {?k}. ?c ?a k) = (\<Sum>k \<in> ?D - {?k}. ?c a k)"
    by (rule sum.cong) (auto simp: same)
  also have "?c a ?k + (\<Sum>k \<in> ?D - {?k}. ?c a k) = agg_total a"
  proof (cases "?k \<in> ?D")
    case True
    then show ?thesis unfolding agg_total_def by (simp add: sum.remove)
  next
    case False
    then have "?c a ?k = 0" by (simp add: fmdom_notD)
    with False show ?thesis unfolding agg_total_def by simp
  qed
  then have "?c ?a ?k + (\<Sum>k \<in> ?D - {?k}. ?c a k) = agg_total a + 1"
    unfolding here by (simp add: algebra_simps)
  finally show ?thesis by simp
qed

lemma agg_empty [simp]: "agg_len NewAggregator = 0" "agg_total NewAggregator = 0"
  by (simp_all add: NewAggregator_def agg_len_def agg_total_def)

lemma Aggregator_Drain_empties [simp]: "snd (Aggregator_Drain ks a) = NewAggregator"
  by (simp add: Aggregator_Drain_def NewAggregator_def)

lemma drain_summary:
  assumes "key_order (a_flows (add_all es NewAggregator)) ks"
    and "rs = fst (Aggregator_Drain ks (add_all es NewAggregator))"
  shows "set rs = {flow_record k f | k f. summary (of_key k es) = Some f}
    \<and> length rs = card (flow_key ` snd ` set es)
    \<and> records_total rs = of_nat (length es)"
proof (intro conjI)
  let ?a = "add_all es NewAggregator"
  note rs = assms(2)
  show "set rs = {flow_record k f | k f. summary (of_key k es) = Some f}"
    unfolding rs set_eq_iff using Aggregator_Drain_records [OF assms(1)] by (simp add: add_all_lookup conj_commute)
  have "k |\<in>| fmdom (a_flows ?a) \<longleftrightarrow> of_key k es \<noteq> []" for k
    by (simp add: fmlookup_dom_iff add_all_lookup summary_def)
  moreover have "of_key k es \<noteq> [] \<longleftrightarrow> k \<in> flow_key ` snd ` set es" for k
    by (induction es) (auto simp: of_key_def)
  ultimately have "fset (fmdom (a_flows ?a)) = flow_key ` snd ` set es" by blast
  then show "length rs = card (flow_key ` snd ` set es)"
    unfolding rs Aggregator_Drain_length [OF assms(1)] by (simp add: agg_len_def map_len_def fcard.rep_eq)
  have "agg_total (add_all es b) = agg_total b + of_nat (length es)" for b
    by (induction es arbitrary: b) (simp_all add: add_all_def agg_total_Add)
  then show "records_total rs = of_nat (length es)"
    unfolding rs Aggregator_Drain_total [OF assms(1)] by simp
qed

section \<open>Properties\<close>

text \<open>C28. What a drain reports: after any sequence of events, in whatever order the map is
  visited, there is exactly one record per distinct key, and it is the summary of that
  key's events, their number (modulo \<open>2 ^ 32\<close>), first and last time, and the first
  non-empty command and host name; the counts add up to the number of events, and
  the aggregator is empty afterwards.\<close>

theorem Drain_summarises:
  assumes "key_order (a_flows (add_all es NewAggregator)) ks"
    and "Aggregator_Drain ks (add_all es NewAggregator) = (rs, a)"
  shows "set rs = {flow_record k f | k f. summary (of_key k es) = Some f}
    \<and> length rs = card (flow_key ` snd ` set es)
    \<and> records_total rs = of_nat (length es)
    \<and> a = NewAggregator"
  using drain_summary [OF assms(1), of rs] assms(2) Aggregator_Drain_empties [of ks "add_all es NewAggregator"] by simp

definition sample_event :: ConnectionEvent where
  "sample_event = \<lparr>SrcIP = Addr4 1, DstIP = Addr4 2, SrcPort = 4000, DstPort = 80, Protocol = 6, PID = 9,
     Comm = ''curl'', Outbound = True, SrcPodUID = [], DstHostname = []\<rparr>"

theorem Drain_summarises_witness:
  "length (fst (Aggregator_Drain [flow_key sample_event] (add_all [(5, sample_event), (8, sample_event)] NewAggregator))) = 1"
proof -
  have "key_order (a_flows (add_all [(5, sample_event), (8, sample_event)] NewAggregator)) [flow_key sample_event]"
    by (simp add: key_order_def add_all_def Aggregator_Add_def NewAggregator_def Let_def)
  from Drain_summarises [OF this surjective_pairing] show ?thesis by simp
qed

end
