(* ===== verification/Interfaces.thy ===== *)
theory Interfaces
  imports Sniffer_Prelude
begin

text \<open>
  The contracts between components, as locales. \<open>timed_store\<close> and
  \<open>timed_machine\<close>: a store whose entries expire and that is swept by a
  background loop (the DNS cache, swept by the collector's flush loop, and the
  deduper, swept by the processor's sweep loop); sweeping must not be observable.
  \<open>keyed_store\<close>: a lookup table addressed through normalised keys (the three
  indexes of the workload cache; \<open>val\<close> is what writing a value leaves to be
  looked up), with the loops the informer handlers run over it. \<open>winding_down\<close>: a
  component that only uses up the work it has. Each locale is interpreted on the model's own operations in the theory of
  the component that provides them.
\<close>

section \<open>Stores with expiring entries\<close>

text \<open>
  A schedule is a list of time-stamped events: an operation, or a sweep
  (\<open>None\<close>). \<open>timed_run\<close> logs every operation with its time and result.
\<close>

fun timed_run ::
  "('x \<Rightarrow> gotime \<Rightarrow> 's \<Rightarrow> 'r \<times> 's) \<Rightarrow> (gotime \<Rightarrow> 's \<Rightarrow> 's) \<Rightarrow>
   (gotime \<times> 'x option) list \<Rightarrow> 's \<Rightarrow> (gotime \<times> 'x \<times> 'r) list" where
  "timed_run act sweep [] s = []"
| "timed_run act sweep ((t, None) # es) s = timed_run act sweep es (sweep t s)"
| "timed_run act sweep ((t, Some x) # es) s =
     (case act x t s of (r, s') \<Rightarrow> (t, x, r) # timed_run act sweep es s')"

definition only_acts :: "(gotime \<times> 'x option) list \<Rightarrow> (gotime \<times> 'x option) list" where
  "only_acts es = filter (\<lambda>e. snd e \<noteq> None) es"

locale timed_store =
  fixes invar :: "'s \<Rightarrow> bool"
    and cfg :: "'s \<Rightarrow> 'c"
    and observe :: "'s \<Rightarrow> 'k \<Rightarrow> gotime \<Rightarrow> 'v option"
    and sweep :: "gotime \<Rightarrow> 's \<Rightarrow> 's"
  assumes invar_sweep: "invar s \<Longrightarrow> invar (sweep now s)"
    and cfg_sweep: "cfg (sweep now s) = cfg s"
    and sweep_transparent: "\<lbrakk>invar s; now \<le> t\<rbrakk> \<Longrightarrow> observe (sweep now s) k t = observe s k t"
begin

lemma sweeps_transparent:
  "\<lbrakk>invar s; \<forall>u \<in> set us. u \<le> t\<rbrakk> \<Longrightarrow> observe (fold sweep us s) k t = observe s k t"
proof (induction us arbitrary: s)
  case Nil
  show ?case by simp
next
  case (Cons u us)
  then show ?case using sweep_transparent [of s u t k] invar_sweep [of s u] by simp
qed

end

locale timed_machine = timed_store invar cfg observe sweep
  for invar :: "'s \<Rightarrow> bool"
    and cfg :: "'s \<Rightarrow> 'c"
    and observe :: "'s \<Rightarrow> 'k \<Rightarrow> gotime \<Rightarrow> 'v option"
    and sweep :: "gotime \<Rightarrow> 's \<Rightarrow> 's" +
  fixes act :: "'x \<Rightarrow> gotime \<Rightarrow> 's \<Rightarrow> 'r \<times> 's"
  assumes invar_act: "invar s \<Longrightarrow> invar (snd (act x now s))"
    and cfg_act: "cfg (snd (act x now s)) = cfg s"
    and act_result:
      "\<lbrakk>invar s; invar s'; cfg s = cfg s'; \<forall>k t. now \<le> t \<longrightarrow> observe s k t = observe s' k t\<rbrakk>
       \<Longrightarrow> fst (act x now s) = fst (act x now s')"
    and act_agree:
      "\<lbrakk>invar s; invar s'; cfg s = cfg s'; \<forall>k t. now \<le> t \<longrightarrow> observe s k t = observe s' k t; now \<le> t\<rbrakk>
       \<Longrightarrow> observe (snd (act x now s)) k t = observe (snd (act x now s')) k t"
begin

text \<open>The sweeps of a schedule change no result, whenever the loop runs.\<close>

lemma run_only_acts_agree:
  assumes "invar s" and "invar s'" and "cfg s = cfg s'"
    and "\<forall>k t. start \<le> t \<longrightarrow> observe s k t = observe s' k t"
    and "sorted (map fst es)" and "\<forall>e \<in> set es. start \<le> fst e"
  shows "timed_run act sweep es s = timed_run act sweep (only_acts es) s'"
  using assms
proof (induction es arbitrary: s s' start)
  case Nil
  show ?case by (simp add: only_acts_def)
next
  case (Cons e es)
  obtain now x where e: "e = (now, x)" by (cases e)
  have later: "sorted (map fst es)" "\<forall>e \<in> set es. now \<le> fst e" and now: "start \<le> now"
    using Cons.prems(5,6) e by auto
  have agree: "\<forall>k t. now \<le> t \<longrightarrow> observe s k t = observe s' k t"
    using Cons.prems(4) now by force
  show ?case
  proof (cases x)
    case None
    have "\<forall>k t. now \<le> t \<longrightarrow> observe (sweep now s) k t = observe s' k t"
      using agree sweep_transparent Cons.prems(1) by simp
    then have "timed_run act sweep es (sweep now s) = timed_run act sweep (only_acts es) s'"
      using Cons.prems(1-3) later by (intro Cons.IH [where start = now]) (auto simp: invar_sweep cfg_sweep)
    then show ?thesis using e None by (simp add: only_acts_def)
  next
    case (Some y)
    obtain r u r' u' where u: "act y now s = (r, u)" "act y now s' = (r', u')"
      by (metis surj_pair)
    have "r = r'" using act_result [OF Cons.prems(1-3) agree, of y] u by simp
    have "\<forall>k t. now \<le> t \<longrightarrow> observe u k t = observe u' k t"
      using act_agree [OF Cons.prems(1-3) agree, of _ y] u by simp
    moreover have "invar u" "invar u'" "cfg u = cfg u'"
      using invar_act [of s y now] invar_act [of s' y now] cfg_act [of y now s] cfg_act [of y now s']
        Cons.prems(1-3) u by auto
    ultimately have "timed_run act sweep es u = timed_run act sweep (only_acts es) u'"
      using later by (intro Cons.IH [where start = now]) auto
    then show ?thesis using e Some u \<open>r = r'\<close> by (simp add: only_acts_def)
  qed
qed

lemma sweeps_change_nothing:
  assumes "invar s" and "sorted (map fst es)"
  shows "timed_run act sweep es s = timed_run act sweep (only_acts es) s"
proof (cases es)
  case Nil
  then show ?thesis by (simp add: only_acts_def)
next
  case (Cons e es')
  then show ?thesis
    using assms by (intro run_only_acts_agree [where start = "fst e"]) auto
qed

end

section \<open>Lookup tables with normalised keys\<close>

locale keyed_store =
  fixes norm :: "'k \<Rightarrow> 'n"
    and val :: "'x \<Rightarrow> 'v option"
    and lookup :: "'s \<Rightarrow> 'k \<Rightarrow> 'v option"
    and upsert :: "'k \<Rightarrow> 'x \<Rightarrow> 's \<Rightarrow> 's"
    and delete :: "'k \<Rightarrow> 's \<Rightarrow> 's"
  assumes lookup_upsert: "lookup (upsert k v s) k' = (if norm k = norm k' then val v else lookup s k')"
    and lookup_delete: "lookup (delete k s) k' = (if norm k = norm k' then None else lookup s k')"
begin

lemma lookup_upserts:
  "lookup (fold (\<lambda>x. upsert (f x) (g x)) xs s) k =
     (case find (\<lambda>x. norm (f x) = norm k) (rev xs) of None \<Rightarrow> lookup s k | Some x \<Rightarrow> val (g x))"
proof (induction xs arbitrary: s rule: rev_induct)
  case Nil
  show ?case by simp
next
  case (snoc x xs)
  then show ?case by (simp add: lookup_upsert)
qed

lemma lookup_upserts_const:
  "lookup (fold (\<lambda>k. upsert k v) ks s) k =
     (if norm k \<in> norm ` set ks then val v else lookup s k)"
  by (induction ks arbitrary: s) (auto simp: lookup_upsert)

lemma lookup_deletes:
  "lookup (fold (\<lambda>x. delete (f x)) xs s) k =
     (if norm k \<in> (\<lambda>x. norm (f x)) ` set xs then None else lookup s k)"
  by (induction xs arbitrary: s) (auto simp: lookup_delete)

lemma lookup_deletes_where:
  "lookup (fold (\<lambda>x s. if P x then delete (f x) s else s) xs s) k =
     (if \<exists>x \<in> set xs. P x \<and> norm (f x) = norm k then None else lookup s k)"
  by (induction xs arbitrary: s) (auto simp: lookup_delete)

text \<open>
  The update of an object: the new entries are written, then every key of the old
  entries that the new ones do not have is deleted. Afterwards a key touched by
  either revision is bound to what the new revision says of it.
\<close>

lemma lookup_reindex:
  "lookup (fold (\<lambda>x s. if norm (f x) \<notin> (\<lambda>y. norm (f y)) ` set new then delete (f x) s else s) old
            (fold (\<lambda>x. upsert (f x) (g x)) new s)) k =
     (case find (\<lambda>x. norm (f x) = norm k) (rev new) of
        Some x \<Rightarrow> val (g x)
      | None \<Rightarrow> if norm k \<in> (\<lambda>x. norm (f x)) ` set old then None else lookup s k)"
proof (cases "find (\<lambda>x. norm (f x) = norm k) (rev new)")
  case None
  then have "norm k \<notin> (\<lambda>y. norm (f y)) ` set new" by (auto simp: find_None_iff)
  then have "(\<exists>x \<in> set old. norm (f x) \<notin> (\<lambda>y. norm (f y)) ` set new \<and> norm (f x) = norm k)
      \<longleftrightarrow> norm k \<in> (\<lambda>x. norm (f x)) ` set old"
    by (metis (no_types, lifting) image_iff)
  then show ?thesis by (simp add: lookup_deletes_where lookup_upserts None)
next
  case (Some x)
  then have "norm k \<in> (\<lambda>y. norm (f y)) ` set new"
    using find_SomeD [OF Some] by (metis image_eqI set_rev)
  then show ?thesis by (auto simp: lookup_deletes_where lookup_upserts Some)
qed

end

section \<open>Components that come to rest\<close>

text \<open>
  A step relation that, from some point on, only uses up what is left to do. The
  delivery goroutine draining its queue and the collector after the shutdown signal
  are of this kind; \<open>left\<close> bounds the steps still possible.
\<close>

locale winding_down =
  fixes step :: "'s \<Rightarrow> 's \<Rightarrow> bool"
    and ok :: "'s \<Rightarrow> bool"
    and finished :: "'s \<Rightarrow> bool"
    and left :: "'s \<Rightarrow> nat"
  assumes step_down: "\<lbrakk>ok s; step s t\<rbrakk> \<Longrightarrow> ok t \<and> left t < left s"
    and step_on: "\<lbrakk>ok s; \<not> finished s\<rbrakk> \<Longrightarrow> \<exists>t. step s t"
begin

lemma runs_bounded: "\<lbrakk>(step ^^ k) s t; ok s\<rbrakk> \<Longrightarrow> ok t \<and> k + left t \<le> left s"
proof (induction k arbitrary: t)
  case 0
  then show ?case by simp
next
  case (Suc k)
  then obtain u where u: "(step ^^ k) s u" "step u t" by auto
  from Suc.IH [OF u(1) Suc.prems(2)] step_down [OF _ u(2)] show ?case by auto
qed

lemma comes_to_rest: "ok s \<Longrightarrow> \<exists>t. step\<^sup>*\<^sup>* s t \<and> ok t \<and> finished t"
proof (induction "left s" arbitrary: s rule: less_induct)
  case less
  show ?case
  proof (cases "finished s")
    case True
    with less.prems show ?thesis by blast
  next
    case False
    with step_on less.prems obtain u where u: "step s u" by blast
    with less.hyps [of u] step_down [OF less.prems u] show ?thesis
      by (meson converse_rtranclp_into_rtranclp)
  qed
qed

end

end
