(* ===== verification/Sender.thy ===== *)
theory Sender
  imports Interfaces "HOL-Library.Multiset"
begin

text \<open>
  \<open>internal/collector/sender.go\<close>: the bounded queue of batches and the delivery
  loop. \<open>Enqueue\<close> is first a function, the call running alone; then the whole
  component is a step relation in which any number of \<open>Enqueue\<close> calls, the
  delivery goroutine \<open>Run\<close>/\<open>send\<close>, the processor and the context's cancellation
  interleave, one channel operation per step. Counters are natural numbers. Two
  fields are ghosts: the records ever offered and the batches ever queued.
\<close>

section \<open>State\<close>

definition minBackoff :: duration where "minBackoff = 100 * 10 ^ 6"
definition maxBackoff :: duration where "maxBackoff = 10 * second"

datatype 'a producer = Pushing "'a list" | Evicting "'a list"

datatype 'a worker =
    Idle  \<comment> \<open>\<open>Run\<close> waits for a batch or the context\<close>
  | Calling "'a list" duration  \<comment> \<open>\<open>send\<close> is in \<open>client.Report\<close>\<close>
  | Waiting "'a list" duration  \<comment> \<open>\<open>send\<close> waits for the backoff timer\<close>
  | Stopped "'a list"  \<comment> \<open>\<open>Run\<close> returned; the batch it held, if any\<close>

record 'a Sender =
  s_cap :: nat
  s_queue :: "'a list list"
  s_failing :: bool
  s_producers :: "'a producer multiset"
  s_worker :: "'a worker"
  s_cancelled :: bool
  m_RecordsSent :: nat
  m_RecordsDropped :: nat
  m_ReportErrors :: nat
  m_QueueDepth :: nat
  g_offered :: nat
  g_pushed :: "'a list list"

definition NewSender :: "nat \<Rightarrow> 'a Sender" where
  "NewSender queueSize =
     \<lparr>s_cap = queueSize, s_queue = [], s_failing = False, s_producers = {#}, s_worker = Idle,
      s_cancelled = False, m_RecordsSent = 0, m_RecordsDropped = 0, m_ReportErrors = 0,
      m_QueueDepth = 0, g_offered = 0, g_pushed = []\<rparr>"

section \<open>Channel operations\<close>

definition chan_push :: "'a list \<Rightarrow> 'a Sender \<Rightarrow> 'a Sender" where
  \<comment> \<open>\<open>s.queue <- batch\<close> and the gauge\<close>
  "chan_push b s =
     s\<lparr>s_queue := s_queue s @ [b], m_QueueDepth := length (s_queue s) + 1,
       g_pushed := g_pushed s @ [b]\<rparr>"

definition chan_evict :: "'a Sender \<Rightarrow> 'a Sender" where
  \<comment> \<open>\<open>old := <-s.queue\<close> and the counter, on a non-empty queue\<close>
  "chan_evict s =
     s\<lparr>s_queue := tl (s_queue s),
       m_RecordsDropped := m_RecordsDropped s + length (hd (s_queue s))\<rparr>"

partial_function (option) enqueue_loop :: "'a list \<Rightarrow> 'a Sender \<Rightarrow> 'a Sender option" where
  "enqueue_loop batch s =
     (if length (s_queue s) < s_cap s then Some (chan_push batch s)
      else enqueue_loop batch (if s_queue s = [] then s else chan_evict s))"

definition Enqueue :: "'a list \<Rightarrow> 'a Sender \<Rightarrow> 'a Sender option" where
  \<comment> \<open>the call running alone; \<open>None\<close> is a call that never returns\<close>
  "Enqueue batch s =
     (let s = s\<lparr>g_offered := g_offered s + length batch\<rparr>
      in if batch = [] then Some s else enqueue_loop batch s)"

definition next_backoff :: "duration \<Rightarrow> duration" where
  "next_backoff b = min (b * 2) maxBackoff"

section \<open>The concurrent component\<close>

inductive sender_step :: "'a Sender \<Rightarrow> 'a Sender \<Rightarrow> bool" where
  enqueue_call: "b \<noteq> [] \<Longrightarrow>
     sender_step s (s\<lparr>s_producers := add_mset (Pushing b) (s_producers s),
                     g_offered := g_offered s + length b\<rparr>)"
| enqueue_push: "\<lbrakk>Pushing b \<in># s_producers s; length (s_queue s) < s_cap s\<rbrakk> \<Longrightarrow>
     sender_step s ((chan_push b s)\<lparr>s_producers := s_producers s - {#Pushing b#}\<rparr>)"
| enqueue_full: "\<lbrakk>Pushing b \<in># s_producers s; s_cap s \<le> length (s_queue s)\<rbrakk> \<Longrightarrow>
     sender_step s (s\<lparr>s_producers := add_mset (Evicting b) (s_producers s - {#Pushing b#})\<rparr>)"
| enqueue_evict: "\<lbrakk>Evicting b \<in># s_producers s; s_queue s \<noteq> []\<rbrakk> \<Longrightarrow>
     sender_step s ((chan_evict s)\<lparr>s_producers := add_mset (Pushing b) (s_producers s - {#Evicting b#})\<rparr>)"
| enqueue_none: "\<lbrakk>Evicting b \<in># s_producers s; s_queue s = []\<rbrakk> \<Longrightarrow>
     sender_step s (s\<lparr>s_producers := add_mset (Pushing b) (s_producers s - {#Evicting b#})\<rparr>)"
| handoff: "\<lbrakk>Pushing b \<in># s_producers s; s_cap s = 0; s_worker s = Idle\<rbrakk> \<Longrightarrow>
     sender_step s (s\<lparr>s_producers := s_producers s - {#Pushing b#}, m_QueueDepth := 0,
                     s_worker := Calling b minBackoff\<rparr>)"
| run_recv: "\<lbrakk>s_worker s = Idle; s_queue s = b # q\<rbrakk> \<Longrightarrow>
     sender_step s (s\<lparr>s_queue := q, m_QueueDepth := length q, s_worker := Calling b minBackoff\<rparr>)"
| run_done: "\<lbrakk>s_worker s = Idle; s_cancelled s\<rbrakk> \<Longrightarrow> sender_step s (s\<lparr>s_worker := Stopped []\<rparr>)"
| report_ok: "s_worker s = Calling b d \<Longrightarrow>
     sender_step s (s\<lparr>m_RecordsSent := m_RecordsSent s + length b, s_failing := False, s_worker := Idle\<rparr>)"
| report_done: "\<lbrakk>s_worker s = Calling b d; s_cancelled s\<rbrakk> \<Longrightarrow>
     sender_step s (s\<lparr>s_worker := Stopped b\<rparr>)"
| report_drop: "\<lbrakk>s_worker s = Calling b d; \<not> s_cancelled s; length (s_queue s) = s_cap s\<rbrakk> \<Longrightarrow>
     sender_step s (s\<lparr>m_ReportErrors := m_ReportErrors s + 1, s_failing := True,
                     m_RecordsDropped := m_RecordsDropped s + length b, s_worker := Idle\<rparr>)"
| report_retry: "\<lbrakk>s_worker s = Calling b d; \<not> s_cancelled s; length (s_queue s) \<noteq> s_cap s\<rbrakk> \<Longrightarrow>
     sender_step s (s\<lparr>m_ReportErrors := m_ReportErrors s + 1, s_failing := True,
                     s_worker := Waiting b d\<rparr>)"
| timer: "s_worker s = Waiting b d \<Longrightarrow>
     sender_step s (s\<lparr>s_worker := Calling b (next_backoff d)\<rparr>)"
| wait_done: "\<lbrakk>s_worker s = Waiting b d; s_cancelled s\<rbrakk> \<Longrightarrow>
     sender_step s (s\<lparr>s_worker := Stopped b\<rparr>)"
| cancel: "sender_step s (s\<lparr>s_cancelled := True\<rparr>)"

inductive_cases sender_stepE: "sender_step s t"

inductive sender_reachable :: "nat \<Rightarrow> 'a Sender \<Rightarrow> bool" for cap where
  start: "sender_reachable cap (NewSender cap)"
| step: "\<lbrakk>sender_reachable cap s; sender_step s t\<rbrakk> \<Longrightarrow> sender_reachable cap t"

section \<open>Where the records are\<close>

fun producer_batch :: "'a producer \<Rightarrow> 'a list" where
  "producer_batch (Pushing b) = b"
| "producer_batch (Evicting b) = b"

fun worker_batch :: "'a worker \<Rightarrow> 'a list" where
  "worker_batch Idle = []"
| "worker_batch (Calling b d) = b"
| "worker_batch (Waiting b d) = b"
| "worker_batch (Stopped b) = b"

fun backoff_ok :: "'a worker \<Rightarrow> bool" where
  "backoff_ok (Calling b d) = (minBackoff \<le> d \<and> d \<le> maxBackoff)"
| "backoff_ok (Waiting b d) = (minBackoff \<le> d \<and> d \<le> maxBackoff)"
| "backoff_ok _ = True"

definition queued_records :: "'a list list \<Rightarrow> nat" where
  "queued_records q = sum_list (map length q)"

definition waiting_records :: "'a producer multiset \<Rightarrow> nat" where
  "waiting_records ps = sum_mset (image_mset (\<lambda>p. length (producer_batch p)) ps)"

definition records_accounted :: "'a Sender \<Rightarrow> bool" where
  "records_accounted s \<longleftrightarrow>
     g_offered s = m_RecordsSent s + m_RecordsDropped s + queued_records (s_queue s)
       + waiting_records (s_producers s) + length (worker_batch (s_worker s))"

definition sender_inv :: "'a Sender \<Rightarrow> bool" where
  "sender_inv s \<longleftrightarrow> length (s_queue s) \<le> s_cap s \<and> suffix (s_queue s) (g_pushed s)
     \<and> records_accounted s \<and> backoff_ok (s_worker s)"

section \<open>Facts\<close>

lemma chan_push_simps [simp]:
  "s_queue (chan_push b s) = s_queue s @ [b]" "s_cap (chan_push b s) = s_cap s"
  "s_producers (chan_push b s) = s_producers s" "s_worker (chan_push b s) = s_worker s"
  "m_RecordsSent (chan_push b s) = m_RecordsSent s" "m_RecordsDropped (chan_push b s) = m_RecordsDropped s"
  "g_offered (chan_push b s) = g_offered s" "g_pushed (chan_push b s) = g_pushed s @ [b]"
  "s_failing (chan_push b s) = s_failing s" "m_ReportErrors (chan_push b s) = m_ReportErrors s"
  "s_cancelled (chan_push b s) = s_cancelled s"
  by (simp_all add: chan_push_def)

lemma chan_evict_simps [simp]:
  "s_queue (chan_evict s) = tl (s_queue s)" "s_cap (chan_evict s) = s_cap s"
  "s_producers (chan_evict s) = s_producers s" "s_worker (chan_evict s) = s_worker s"
  "m_RecordsSent (chan_evict s) = m_RecordsSent s"
  "m_RecordsDropped (chan_evict s) = m_RecordsDropped s + length (hd (s_queue s))"
  "g_offered (chan_evict s) = g_offered s" "g_pushed (chan_evict s) = g_pushed s"
  "s_failing (chan_evict s) = s_failing s" "m_ReportErrors (chan_evict s) = m_ReportErrors s"
  "s_cancelled (chan_evict s) = s_cancelled s"
  by (simp_all add: chan_evict_def)

lemma queued_records_simps [simp]:
  "queued_records [] = 0" "queued_records (b # q) = length b + queued_records q"
  "queued_records (q @ [b]) = queued_records q + length b"
  by (simp_all add: queued_records_def)

lemma queued_records_hd_tl: "q \<noteq> [] \<Longrightarrow> length (hd q) + queued_records (tl q) = queued_records q"
  by (cases q) auto

lemma waiting_records_simps [simp]:
  "waiting_records {#} = 0"
  "waiting_records (add_mset p ps) = length (producer_batch p) + waiting_records ps"
  by (simp_all add: waiting_records_def)

lemma waiting_records_remove:
  "p \<in># ps \<Longrightarrow> waiting_records (ps - {#p#}) + length (producer_batch p) = waiting_records ps"
  by (metis add.commute insert_DiffM waiting_records_simps(2))

lemma next_backoff_bounds:
  "minBackoff \<le> d \<Longrightarrow> minBackoff \<le> next_backoff d \<and> next_backoff d \<le> maxBackoff"
  by (auto simp: next_backoff_def minBackoff_def maxBackoff_def second_def)

lemma backoff_start: "minBackoff \<le> maxBackoff"
  by (simp add: minBackoff_def maxBackoff_def second_def)

lemma next_backoff_capped: "0 \<le> x \<Longrightarrow> next_backoff (min x maxBackoff) = min (x * 2) maxBackoff"
  by (simp add: next_backoff_def maxBackoff_def second_def min_def)

lemma backoff_closed_form: "(next_backoff ^^ n) minBackoff = min (minBackoff * 2 ^ n) maxBackoff"
proof (induction n)
  case 0
  show ?case by (simp add: minBackoff_def maxBackoff_def second_def)
next
  case (Suc n)
  have "0 \<le> minBackoff * 2 ^ n" by (simp add: minBackoff_def)
  from next_backoff_capped [OF this]
  show ?case by (simp only: funpow.simps comp_apply Suc.IH power_Suc mult_ac)
qed

lemma suffix_tl: "suffix q p \<Longrightarrow> suffix (tl q) p"
  by (cases q) (auto simp: suffix_def)

lemma suffix_snoc: "suffix q p \<Longrightarrow> suffix (q @ [b]) (p @ [b])"
  by (auto simp: suffix_def)

lemma enqueue_loop_room:
  "length (s_queue s) < s_cap s \<Longrightarrow> enqueue_loop b s = Some (chan_push b s)"
  by (simp add: enqueue_loop.simps)

lemma enqueue_loop_full:
  "\<lbrakk>s_cap s \<le> length (s_queue s); s_queue s \<noteq> []\<rbrakk> \<Longrightarrow> enqueue_loop b s = enqueue_loop b (chan_evict s)"
  by (subst enqueue_loop.simps) simp

lemma sender_inv_New: "sender_inv (NewSender cap)"
  by (simp add: sender_inv_def NewSender_def records_accounted_def)

lemma sender_step_cap: "sender_step s t \<Longrightarrow> s_cap t = s_cap s"
  by (erule sender_stepE) auto

lemma sender_step_accounted: "\<lbrakk>sender_step s t; records_accounted s\<rbrakk> \<Longrightarrow> records_accounted t"
  by (erule sender_stepE)
    (auto simp: records_accounted_def dest!: waiting_records_remove queued_records_hd_tl)

lemma sender_step_bounded:
  "\<lbrakk>sender_step s t; length (s_queue s) \<le> s_cap s\<rbrakk> \<Longrightarrow> length (s_queue t) \<le> s_cap t"
  by (erule sender_stepE) auto

lemma sender_step_suffix:
  "\<lbrakk>sender_step s t; suffix (s_queue s) (g_pushed s)\<rbrakk> \<Longrightarrow> suffix (s_queue t) (g_pushed t)"
  by (erule sender_stepE) (auto intro: suffix_tl suffix_snoc dest: suffix_ConsD)

lemma sender_step_backoff: "\<lbrakk>sender_step s t; backoff_ok (s_worker s)\<rbrakk> \<Longrightarrow> backoff_ok (s_worker t)"
  by (erule sender_stepE) (auto simp: backoff_start dest: next_backoff_bounds)

lemma sender_step_inv: "\<lbrakk>sender_step s t; sender_inv s\<rbrakk> \<Longrightarrow> sender_inv t"
  unfolding sender_inv_def
  using sender_step_accounted sender_step_bounded sender_step_suffix sender_step_backoff by blast

lemma sender_reachable_inv: "sender_reachable cap s \<Longrightarrow> sender_inv s \<and> s_cap s = cap"
proof (induction rule: sender_reachable.induct)
  case start
  then show ?case by (simp add: sender_inv_New) (simp add: NewSender_def)
next
  case (step s t)
  then show ?case by (auto intro: sender_step_inv simp: sender_step_cap)
qed

lemma enqueue_loop_result:
  assumes "0 < s_cap s" and "length (s_queue s) \<le> s_cap s"
  shows "enqueue_loop b s =
     Some (chan_push b (if length (s_queue s) < s_cap s then s else chan_evict s))"
proof (cases "length (s_queue s) < s_cap s")
  case True
  then show ?thesis by (simp add: enqueue_loop_room)
next
  case False
  with assms have "s_queue s \<noteq> []" "length (s_queue (chan_evict s)) < s_cap (chan_evict s)" by auto
  with False show ?thesis by (simp add: enqueue_loop_full enqueue_loop_room)
qed

lemma Enqueue_result:
  assumes "0 < s_cap s" and "length (s_queue s) \<le> s_cap s" and "b \<noteq> []"
  shows "Enqueue b s =
     (let s' = s\<lparr>g_offered := g_offered s + length b\<rparr>
      in Some (chan_push b (if length (s_queue s) < s_cap s then s' else chan_evict s')))"
  using enqueue_loop_result [of "s\<lparr>g_offered := g_offered s + length b\<rparr>" b] assms
  by (simp add: Enqueue_def Let_def)

lemma Enqueue_empty: "Enqueue [] s = Some s"
  by (simp add: Enqueue_def)

text \<open>The call running alone is a run of the step relation.\<close>

lemma Enqueue_steps:
  assumes "0 < s_cap s" and "length (s_queue s) \<le> s_cap s" and "Enqueue b s = Some t"
  shows "sender_step\<^sup>*\<^sup>* s t"
proof (cases "b = []")
  case True
  with assms show ?thesis by (simp add: Enqueue_empty)
next
  case b: False
  define u where "u = s\<lparr>s_producers := add_mset (Pushing b) (s_producers s), g_offered := g_offered s + length b\<rparr>"
  have call: "sender_step s u" unfolding u_def by (rule enqueue_call [OF b])
  show ?thesis
  proof (cases "length (s_queue s) < s_cap s")
    case True
    have "sender_step u ((chan_push b u)\<lparr>s_producers := s_producers u - {#Pushing b#}\<rparr>)"
      by (rule enqueue_push) (simp_all add: u_def True)
    also have "(chan_push b u)\<lparr>s_producers := s_producers u - {#Pushing b#}\<rparr> = t"
      using assms(3) True by (simp add: u_def chan_push_def Enqueue_result [OF assms(1,2) b] Let_def)
    finally show ?thesis using call by (meson rtranclp.rtrancl_into_rtrancl rtranclp.rtrancl_refl)
  next
    case False
    with assms(1,2) have q: "s_queue s \<noteq> []" "s_cap s \<le> length (s_queue s)" by auto
    define v where "v = u\<lparr>s_producers := add_mset (Evicting b) (s_producers u - {#Pushing b#})\<rparr>"
    have full: "sender_step u v"
      unfolding v_def by (rule enqueue_full) (simp_all add: u_def q)
    define w where "w = (chan_evict v)\<lparr>s_producers := add_mset (Pushing b) (s_producers v - {#Evicting b#})\<rparr>"
    have evict: "sender_step v w"
      unfolding w_def by (rule enqueue_evict) (simp_all add: v_def u_def q)
    have "sender_step w ((chan_push b w)\<lparr>s_producers := s_producers w - {#Pushing b#}\<rparr>)"
      using assms(1,2) by (intro enqueue_push) (simp_all add: w_def v_def u_def)
    also have "(chan_push b w)\<lparr>s_producers := s_producers w - {#Pushing b#}\<rparr> = t"
      using assms(3) False
      by (simp add: w_def v_def u_def chan_push_def chan_evict_def Enqueue_result [OF assms(1,2) b] Let_def)
    finally show ?thesis using call full evict
      by (meson rtranclp.rtrancl_into_rtrancl rtranclp.rtrancl_refl)
  qed
qed

lemma sender_steps_inv: "\<lbrakk>sender_step\<^sup>*\<^sup>* s t; sender_inv s\<rbrakk> \<Longrightarrow> sender_inv t \<and> s_cap t = s_cap s"
  by (induction rule: rtranclp_induct) (auto intro: sender_step_inv simp: sender_step_cap)

text \<open>What a sequence of calls running alone does to a sender, batch by batch.\<close>

definition enqueued :: "'a list list \<Rightarrow> 'a Sender \<Rightarrow> 'a Sender \<Rightarrow> bool" where
  "enqueued bs s t \<longleftrightarrow> sender_inv t \<and> s_cap t = s_cap s \<and> s_producers t = s_producers s
     \<and> s_worker t = s_worker s \<and> s_cancelled t = s_cancelled s \<and> m_RecordsSent t = m_RecordsSent s
     \<and> g_pushed t = g_pushed s @ bs \<and> g_offered t = g_offered s + length (concat bs)"

lemma enqueuedD:
  assumes "enqueued bs s t"
  shows "sender_inv t" and "s_cap t = s_cap s" and "s_producers t = s_producers s" and "s_worker t = s_worker s"
    and "s_cancelled t = s_cancelled s" and "g_pushed t = g_pushed s @ bs"
    and "g_offered t = g_offered s + length (concat bs)" and "m_RecordsSent t = m_RecordsSent s"
  using assms by (simp_all add: enqueued_def)

lemma enqueued_refl: "sender_inv s \<Longrightarrow> enqueued [] s s"
  by (simp add: enqueued_def)

lemma enqueued_trans: "\<lbrakk>enqueued bs s t; enqueued cs t u\<rbrakk> \<Longrightarrow> enqueued (bs @ cs) s u"
  by (simp add: enqueued_def)

lemma Enqueue_inv:
  assumes "0 < s_cap s" and "sender_inv s"
  shows "\<exists>t. Enqueue b s = Some t \<and> enqueued (if b = [] then [] else [b]) s t"
proof -
  have q: "length (s_queue s) \<le> s_cap s" using assms(2) by (simp add: sender_inv_def)
  obtain t where t: "Enqueue b s = Some t"
    and p: "s_producers t = s_producers s" "g_pushed t = g_pushed s @ (if b = [] then [] else [b])"
      "s_worker t = s_worker s" "s_cancelled t = s_cancelled s" "g_offered t = g_offered s + length b"
      "m_RecordsSent t = m_RecordsSent s"
    by (cases "b = []") (auto simp: Enqueue_empty Enqueue_result [OF assms(1) q] Let_def)
  with sender_steps_inv [OF Enqueue_steps [OF assms(1) q t] assms(2)] show ?thesis
    by (auto simp: enqueued_def)
qed

section \<open>Draining\<close>

text \<open>
  The processor answers, nothing new is queued and the context lives: what is left of
  the component is the delivery goroutine working through the queue.
\<close>

definition healthy_step :: "'a Sender \<Rightarrow> 'a Sender \<Rightarrow> bool" where
  "healthy_step s t \<longleftrightarrow> sender_step s t \<and> s_producers t = {#} \<and> g_offered t = g_offered s
     \<and> \<not> s_cancelled t \<and> m_ReportErrors t = m_ReportErrors s"

definition running :: "'a Sender \<Rightarrow> bool" where
  "running s \<longleftrightarrow> s_producers s = {#} \<and> \<not> s_cancelled s \<and> (\<forall>b. s_worker s \<noteq> Stopped b)"

definition work_left :: "'a Sender \<Rightarrow> nat" where
  "work_left s = 2 * length (s_queue s)
     + (case s_worker s of Waiting b d \<Rightarrow> 2 | Calling b d \<Rightarrow> 1 | _ \<Rightarrow> 0)"

lemma healthy_stepD:
  assumes "healthy_step s t" and "running s"
  shows "running t \<and> work_left s = Suc (work_left t) \<and> m_RecordsDropped t = m_RecordsDropped s
    \<and> g_offered t = g_offered s"
  using assms unfolding healthy_step_def running_def work_left_def
  by (elim conjE sender_stepE) auto

lemma healthy_progress:
  assumes "running s" and "s_queue s \<noteq> [] \<or> s_worker s \<noteq> Idle"
  shows "\<exists>t. healthy_step s t"
proof (cases "s_worker s")
  case Idle
  with assms(2) obtain b q where "s_queue s = b # q" by (cases "s_queue s") auto
  from run_recv [OF Idle this] show ?thesis
    using assms(1) by (intro exI) (auto simp: healthy_step_def running_def)
next
  case (Calling b d)
  from report_ok [OF this] show ?thesis
    using assms(1) by (intro exI) (auto simp: healthy_step_def running_def)
next
  case (Waiting b d)
  from timer [OF this] show ?thesis
    using assms(1) by (intro exI) (auto simp: healthy_step_def running_def)
next
  case (Stopped b)
  with assms(1) show ?thesis by (simp add: running_def)
qed

interpretation drain: winding_down healthy_step running "\<lambda>s. s_queue s = [] \<and> s_worker s = Idle" work_left
proof unfold_locales
  show "running t \<and> work_left t < work_left s" if "running s" "healthy_step s t" for s t :: "'a Sender"
    using healthy_stepD [OF that(2,1)] by simp
  show "\<exists>t. healthy_step s t" if "running s" "\<not> (s_queue s = [] \<and> s_worker s = Idle)" for s :: "'a Sender"
    using healthy_progress [OF that(1)] that(2) by blast
qed

lemma healthy_run_counts:
  assumes "(healthy_step ^^ k) s t" and "running s"
  shows "m_RecordsDropped t = m_RecordsDropped s \<and> g_offered t = g_offered s \<and> sender_step\<^sup>*\<^sup>* s t"
  using assms
proof (induction k arbitrary: t)
  case 0
  then show ?case by simp
next
  case (Suc k)
  then obtain u where u: "(healthy_step ^^ k) s u" "healthy_step u t" by auto
  with Suc.IH [OF u(1) Suc.prems(2)] drain.runs_bounded [OF u(1) Suc.prems(2)] healthy_stepD [OF u(2)]
  show ?case by (auto simp: healthy_step_def intro: rtranclp.rtrancl_into_rtrancl)
qed

section \<open>Properties\<close>

text \<open>C10. Safety of the delivery queue under every interleaving of \<open>Enqueue\<close> calls, the
  delivery goroutine and cancellation: the queue never exceeds its capacity, it holds
  the newest batches ever queued, in order, every record ever offered is sent, dropped,
  queued, in a pending \<open>Enqueue\<close> or in the sender's hands (none is lost or counted
  twice), and the retry delay stays between the two bounds.\<close>

theorem sender_safe:
  assumes "sender_reachable cap s"
  shows "length (s_queue s) \<le> cap
    \<and> suffix (s_queue s) (g_pushed s)
    \<and> g_offered s = m_RecordsSent s + m_RecordsDropped s + queued_records (s_queue s)
        + waiting_records (s_producers s) + length (worker_batch (s_worker s))
    \<and> backoff_ok (s_worker s)"
  using sender_reachable_inv [OF assms] by (auto simp: sender_inv_def records_accounted_def)

theorem sender_safe_witness:
  "length (s_queue (chan_push [1 :: nat] (NewSender 2))) \<le> 2"
proof -
  have "sender_reachable 2 (NewSender 2 :: nat Sender)" by (rule sender_reachable.start)
  note call = sender_reachable.step [OF this enqueue_call [of "[1]"]]
  have "sender_reachable 2 ((chan_push [1] ((NewSender 2)\<lparr>s_producers := {#Pushing [1]#}, g_offered := 1\<rparr>))
      \<lparr>s_producers := {#}\<rparr> :: nat Sender)"
    using sender_reachable.step [OF call enqueue_push [of "[1]"]] by (simp add: NewSender_def)
  from sender_safe [OF this] show ?thesis by (simp add: NewSender_def)
qed

text \<open>\<open>Enqueue\<close> never blocks: on a queue of positive capacity the call returns, queues
  the batch last, and evicts exactly the oldest batch, counting its records dropped,
  when and only when the queue is full. An empty batch changes nothing.\<close>

lemma Enqueue_drops_oldest:
  assumes "0 < s_cap s" and "length (s_queue s) \<le> s_cap s"
  shows "\<exists>t. Enqueue b s = Some t
    \<and> s_queue t = (if b = [] then s_queue s
         else (if length (s_queue s) < s_cap s then s_queue s else tl (s_queue s)) @ [b])
    \<and> m_RecordsDropped t = m_RecordsDropped s
         + (if b \<noteq> [] \<and> length (s_queue s) = s_cap s then length (hd (s_queue s)) else 0)
    \<and> length (s_queue t) \<le> s_cap t"
proof (cases "b = []")
  case True
  with assms show ?thesis by (simp add: Enqueue_empty)
next
  case False
  with assms show ?thesis by (auto simp: Enqueue_result Let_def)
qed

text \<open>The sequential reading of \<open>Enqueue\<close> is sound for the concurrent component: its
  effect is a run of the step relation, so what holds of every reachable state holds
  after the call.\<close>

lemma Enqueue_refines_steps:
  assumes "0 < s_cap s" and "sender_inv s" and "Enqueue b s = Some t"
  shows "sender_step\<^sup>*\<^sup>* s t \<and> sender_inv t"
proof -
  have "length (s_queue s) \<le> s_cap s" using assms(2) by (simp add: sender_inv_def)
  from Enqueue_steps [OF assms(1) this assms(3)] show ?thesis
    using sender_steps_inv assms(2) by blast
qed

text \<open>C12. Delivery: once no \<open>Enqueue\<close> call is pending and the processor answers, the delivery
  goroutine needs at most two steps for each queued batch and two for the one in hand;
  nothing is dropped on the way, and where it can go no further the queue is empty
  and every record that was queued or in hand has been sent.\<close>

theorem queue_drains:
  assumes "sender_reachable cap s" and "s_producers s = {#}" and "\<not> s_cancelled s"
    and "\<forall>b. s_worker s \<noteq> Stopped b" and "(healthy_step ^^ k) s t"
  shows "k \<le> 2 * length (s_queue s) + 2 \<and> m_RecordsDropped t = m_RecordsDropped s
    \<and> ((\<nexists>u. healthy_step t u) \<longrightarrow> s_queue t = [] \<and> s_worker t = Idle
         \<and> m_RecordsSent t = m_RecordsSent s + queued_records (s_queue s) + length (worker_batch (s_worker s)))"
proof -
  have s: "running s" using assms(2-4) by (simp add: running_def)
  note run = healthy_run_counts [OF assms(5) s] drain.runs_bounded [OF assms(5) s]
  have inv: "sender_inv s" using sender_reachable_inv [OF assms(1)] by blast
  with run have "sender_inv t" using sender_steps_inv by blast
  with inv have acc: "records_accounted s" "records_accounted t" by (simp_all add: sender_inv_def)
  have "work_left s \<le> 2 * length (s_queue s) + 2" by (cases "s_worker s") (simp_all add: work_left_def)
  with run have "k \<le> 2 * length (s_queue s) + 2" by simp
  moreover have "s_queue t = [] \<and> s_worker t = Idle
      \<and> m_RecordsSent t = m_RecordsSent s + queued_records (s_queue s) + length (worker_batch (s_worker s))"
    if "\<nexists>u. healthy_step t u"
  proof -
    have e: "s_queue t = []" "s_worker t = Idle" using drain.step_on [of t] that run by blast+
    have "s_producers t = {#}" using run by (simp add: running_def)
    with acc e run assms(2) show ?thesis by (simp add: records_accounted_def)
  qed
  ultimately show ?thesis using run by blast
qed

theorem queue_drains_witness:
  "\<exists>s t :: nat Sender. sender_reachable 2 s \<and> (healthy_step ^^ 2) s t \<and> s_queue t = [] \<and> m_RecordsSent t = 1"
proof -
  let ?s = "(NewSender 2)\<lparr>g_offered := 1, s_queue := [[1]], m_QueueDepth := 1, g_pushed := [[1]]\<rparr> :: nat Sender"
  let ?u = "?s\<lparr>s_queue := [], m_QueueDepth := 0, s_worker := Calling [1] minBackoff\<rparr>"
  let ?t = "?u\<lparr>m_RecordsSent := 1, s_failing := False, s_worker := Idle\<rparr>"
  have "sender_reachable 2 (NewSender 2 :: nat Sender)" by (rule sender_reachable.start)
  note call = sender_reachable.step [OF this enqueue_call [of "[1]"]]
  have s: "sender_reachable 2 ?s"
    using sender_reachable.step [OF call enqueue_push [of "[1]"]] by (simp add: NewSender_def chan_push_def)
  have "sender_step ?s ?u" using run_recv [of ?s "[1]" "[]"] by (simp add: NewSender_def)
  then have u: "healthy_step ?s ?u" by (simp add: healthy_step_def NewSender_def)
  have "sender_step ?u ?t" using report_ok [of ?u "[1]" minBackoff] by (simp add: NewSender_def)
  then have "healthy_step ?u ?t" by (simp add: healthy_step_def NewSender_def)
  with u have run: "(healthy_step ^^ 2) ?s ?t" by (auto simp: numeral_2_eq_2)
  have "\<nexists>v. healthy_step ?t v"
    by (auto simp: healthy_step_def NewSender_def elim!: sender_stepE)
  with queue_drains [OF s _ _ _ run] have "s_queue ?t = [] \<and> m_RecordsSent ?t = 1"
    by (simp add: NewSender_def)
  with s run show ?thesis by blast
qed

text \<open>The delay before the retry after \<open>n\<close> further failures is 100 ms doubled \<open>n\<close> times,
  capped at 10 s: it never shrinks, never leaves the bounds, and from the seventh
  retry on it is the cap.\<close>

lemma backoff_sequence:
  "(next_backoff ^^ n) minBackoff = min (minBackoff * 2 ^ n) maxBackoff
   \<and> (next_backoff ^^ n) minBackoff \<le> (next_backoff ^^ Suc n) minBackoff
   \<and> (7 \<le> n \<longrightarrow> (next_backoff ^^ n) minBackoff = 10 * second)"
proof (intro conjI impI)
  show "(next_backoff ^^ n) minBackoff = min (minBackoff * 2 ^ n) maxBackoff" by (rule backoff_closed_form)
  have "minBackoff * 2 ^ n \<le> minBackoff * 2 ^ Suc n" by (simp add: minBackoff_def)
  then show "(next_backoff ^^ n) minBackoff \<le> (next_backoff ^^ Suc n) minBackoff"
    unfolding backoff_closed_form by (simp only: min.mono order_refl)
  assume "7 \<le> n"
  then have "(2 :: int) ^ 7 \<le> 2 ^ n" by (rule power_increasing) simp
  then show "(next_backoff ^^ n) minBackoff = 10 * second"
    unfolding backoff_closed_form by (simp add: minBackoff_def maxBackoff_def second_def)
qed

end
