(* ===== verification/Dns_Cache.thy ===== *)
theory Dns_Cache
  imports Netip Interfaces
begin

text \<open>
  \<open>internal/dnscache/dnscache.go\<close>: the bounded IP to hostname map of the
  collector. Every method holds the mutex for its whole body, so each is one
  atomic function on the cache. The iteration order of \<open>sweepLocked\<close> is not
  observable (\<open>sweepLocked_any_order\<close>).
\<close>

section \<open>State and operations\<close>

definition MinTTL :: duration where "MinTTL = 60 * second"
definition MaxTTL :: duration where "MaxTTL = 30 * 60 * second"

record entry =
  e_name :: string
  e_expires :: gotime

record Cache =
  c_max :: int
  c_entries :: "(addr, entry) fmap"

definition Cache_New :: "int \<Rightarrow> Cache" where
  "Cache_New maxEntries = \<lparr>c_max = maxEntries, c_entries = fmempty\<rparr>"

definition expired :: "gotime \<Rightarrow> entry \<Rightarrow> bool" where
  \<comment> \<open>\<open>!now.Before(e.expires)\<close>\<close>
  "expired now e \<longleftrightarrow> \<not> now < e_expires e"

definition sweepLocked :: "gotime \<Rightarrow> Cache \<Rightarrow> Cache" where
  "sweepLocked now c = c\<lparr>c_entries := keep_where (\<lambda>e. \<not> expired now e) (c_entries c)\<rparr>"

definition clamp_ttl :: "duration \<Rightarrow> duration" where
  "clamp_ttl ttl = min (max ttl MinTTL) MaxTTL"

definition Cache_Put :: "addr \<Rightarrow> string \<Rightarrow> duration \<Rightarrow> gotime \<Rightarrow> Cache \<Rightarrow> bool \<times> Cache" where
  "Cache_Put ip0 name ttl now c =
     (let ttl = clamp_ttl ttl; ip = unmap ip0;
          full = ip |\<notin>| fmdom (c_entries c) \<and> c_max c \<le> int (map_len (c_entries c));
          c' = (if full then sweepLocked now c else c)
      in if full \<and> c_max c' \<le> int (map_len (c_entries c')) then (False, c')
         else (True, c'\<lparr>c_entries := fmupd ip \<lparr>e_name = name, e_expires = now + ttl\<rparr> (c_entries c')\<rparr>))"

definition Cache_Lookup :: "addr \<Rightarrow> gotime \<Rightarrow> Cache \<Rightarrow> string option" where
  "Cache_Lookup ip now c =
     (case fmlookup (c_entries c) (unmap ip) of
        None \<Rightarrow> None
      | Some e \<Rightarrow> if expired now e then None else Some (e_name e))"

definition Cache_Sweep :: "gotime \<Rightarrow> Cache \<Rightarrow> nat \<times> Cache" where
  "Cache_Sweep now c = (let c' = sweepLocked now c in (map_len (c_entries c'), c'))"

definition Cache_Len :: "Cache \<Rightarrow> nat" where
  "Cache_Len c = map_len (c_entries c)"

definition live_entries :: "gotime \<Rightarrow> Cache \<Rightarrow> nat" where
  "live_entries now c = Cache_Len (sweepLocked now c)"

definition cache_ok :: "Cache \<Rightarrow> bool" where
  \<comment> \<open>the bound the type promises; keys are stored unmapped\<close>
  "cache_ok c \<longleftrightarrow> int (Cache_Len c) \<le> max 0 (c_max c)
     \<and> fmpred (\<lambda>ip _. unmap ip = ip) (c_entries c)"

section \<open>Facts\<close>

lemma sweepLocked_any_order:
  "key_order (c_entries c) ks \<Longrightarrow>
     c\<lparr>c_entries := delete_where (expired now) ks (c_entries c)\<rparr> = sweepLocked now c"
  by (simp add: sweepLocked_def delete_where_any_order)

lemma sweepLocked_max [simp]: "c_max (sweepLocked now c) = c_max c"
  by (simp add: sweepLocked_def)

lemma sweepLocked_lookup [simp]:
  "fmlookup (c_entries (sweepLocked now c)) ip =
     (case fmlookup (c_entries c) ip of None \<Rightarrow> None | Some e \<Rightarrow> if expired now e then None else Some e)"
  by (auto simp: sweepLocked_def split: option.splits)

lemma sweepLocked_len: "Cache_Len (sweepLocked now c) \<le> Cache_Len c"
  by (simp add: Cache_Len_def sweepLocked_def map_len_keep_where)

lemma Cache_Lookup_sweep: "now \<le> t \<Longrightarrow> Cache_Lookup ip t (sweepLocked now c) = Cache_Lookup ip t c"
  by (auto simp: Cache_Lookup_def expired_def split: option.splits)

lemma cache_ok_sweep: "cache_ok c \<Longrightarrow> cache_ok (sweepLocked now c)"
  using sweepLocked_len [of now c]
  by (auto simp: cache_ok_def fmpred_iff split: option.splits if_splits)

lemma cache_ok_New [simp]: "cache_ok (Cache_New n)"
  by (simp add: cache_ok_def Cache_New_def Cache_Len_def)

lemma clamp_ttl_bounds: "MinTTL \<le> clamp_ttl d \<and> clamp_ttl d \<le> MaxTTL"
  by (auto simp: clamp_ttl_def MinTTL_def MaxTTL_def second_def)

lemma Cache_Put_cases:
  obtains
    (stored) "Cache_Put ip name ttl now c =
       (True, c\<lparr>c_entries := fmupd (unmap ip) \<lparr>e_name = name, e_expires = now + clamp_ttl ttl\<rparr> (c_entries c)\<rparr>)"
      "unmap ip |\<in>| fmdom (c_entries c) \<or> int (Cache_Len c) < c_max c"
  | (swept) "Cache_Put ip name ttl now c =
       (True, (sweepLocked now c)\<lparr>c_entries := fmupd (unmap ip) \<lparr>e_name = name, e_expires = now + clamp_ttl ttl\<rparr>
                 (c_entries (sweepLocked now c))\<rparr>)"
      "unmap ip |\<notin>| fmdom (c_entries c)" "int (live_entries now c) < c_max c"
  | (full) "Cache_Put ip name ttl now c = (False, sweepLocked now c)"
      "unmap ip |\<notin>| fmdom (c_entries c)" "c_max c \<le> int (live_entries now c)"
      "c_max c \<le> int (Cache_Len c)"
  unfolding Cache_Put_def live_entries_def Cache_Len_def Let_def
  by (cases "unmap ip |\<in>| fmdom (c_entries c)"; cases "c_max c \<le> int (map_len (c_entries c))";
      cases "c_max c \<le> int (map_len (c_entries (sweepLocked now c)))") auto

lemma cache_ok_upd:
  assumes "cache_ok c" and "unmap ip = ip" and "ip |\<in>| fmdom (c_entries c) \<or> int (Cache_Len c) < c_max c"
  shows "cache_ok (c\<lparr>c_entries := fmupd ip e (c_entries c)\<rparr>)"
proof -
  have "map_len (fmupd ip e (c_entries c)) \<le> Suc (map_len (c_entries c))" by (rule map_len_upd)
  then have "int (map_len (fmupd ip e (c_entries c))) \<le> max 0 (c_max c)"
    using assms by (cases "ip |\<in>| fmdom (c_entries c)") (auto simp: cache_ok_def Cache_Len_def map_len_upd_old)
  then show ?thesis using assms by (auto simp: cache_ok_def Cache_Len_def intro: fmpred_upd)
qed

lemma cache_ok_Put: "cache_ok c \<Longrightarrow> cache_ok (snd (Cache_Put ip name ttl now c))"
  by (rule Cache_Put_cases [of ip name ttl now c])
    (auto simp: live_entries_def intro: cache_ok_sweep cache_ok_upd)

lemma Cache_Put_max: "c_max (snd (Cache_Put ip name ttl now c)) = c_max c"
  by (rule Cache_Put_cases [of ip name ttl now c]) auto

lemma Cache_Lookup_upd:
  "Cache_Lookup ip' t (c\<lparr>c_entries := fmupd (unmap ip) e (c_entries c)\<rparr>) =
     (if unmap ip = unmap ip' then if expired t e then None else Some (e_name e)
      else Cache_Lookup ip' t c)"
  by (simp add: Cache_Lookup_def)

lemma Cache_Lookup_after_Put:
  assumes "now \<le> t"
  shows "Cache_Lookup ip' t (snd (Cache_Put ip name ttl now c)) =
     (if fst (Cache_Put ip name ttl now c) \<and> unmap ip = unmap ip'
      then if t < now + clamp_ttl ttl then Some name else None
      else Cache_Lookup ip' t c)"
  using assms
  by (cases rule: Cache_Put_cases [of ip name ttl now c])
    (auto simp: Cache_Lookup_upd Cache_Lookup_sweep expired_def)

text \<open>The number of live entries is observable: it counts the addresses that look up.\<close>

lemma live_entries_observe:
  assumes "cache_ok c"
  shows "live_entries now c = card {ip. unmap ip = ip \<and> Cache_Lookup ip now c \<noteq> None}"
proof -
  have "fset (fmdom (c_entries (sweepLocked now c))) = {ip. unmap ip = ip \<and> Cache_Lookup ip now c \<noteq> None}"
    using assms
    by (auto simp: fmlookup_dom_iff cache_ok_def fmpred_iff Cache_Lookup_def split: option.splits if_splits)
  then show ?thesis by (simp add: live_entries_def Cache_Len_def map_len_def fcard.rep_eq)
qed

lemma held_expired_leaves_room:
  assumes "cache_ok c" and "fmlookup (c_entries c) ip = Some e" and "expired now e"
  shows "int (live_entries now c) < c_max c"
proof -
  have "fmdom (c_entries (sweepLocked now c)) |\<subseteq>| fmdom (c_entries c)"
    by (simp add: sweepLocked_def fmdom_keep_where_subset)
  moreover have "ip |\<notin>| fmdom (c_entries (sweepLocked now c))" and "ip |\<in>| fmdom (c_entries c)"
    using assms(2,3) by (simp_all add: fmlookup_dom_iff)
  ultimately have "fmdom (c_entries (sweepLocked now c)) |\<subset>| fmdom (c_entries c)"
    by blast
  then have "live_entries now c < Cache_Len c"
    by (simp add: live_entries_def Cache_Len_def map_len_def pfsubset_fcard_mono)
  then show ?thesis using assms(1) by (auto simp: cache_ok_def)
qed

text \<open>What \<open>Put\<close> answers is a function of what lookups can see.\<close>

lemma Cache_Put_refuses_iff:
  assumes "cache_ok c"
  shows "fst (Cache_Put ip name ttl now c) \<longleftrightarrow>
     Cache_Lookup ip now c \<noteq> None \<or> int (live_entries now c) < c_max c"
proof (cases rule: Cache_Put_cases [of ip name ttl now c])
  case stored
  consider (fresh) "Cache_Lookup ip now c \<noteq> None"
    | (stale) e where "fmlookup (c_entries c) (unmap ip) = Some e" "expired now e"
    | (room) "int (Cache_Len c) < c_max c"
    using stored(2) unfolding Cache_Lookup_def fmlookup_dom_iff
    by (cases "fmlookup (c_entries c) (unmap ip)"; cases "int (Cache_Len c) < c_max c")
      (fastforce split: if_splits)+
  then have "Cache_Lookup ip now c \<noteq> None \<or> int (live_entries now c) < c_max c"
  proof cases
    case stale
    with assms show ?thesis using held_expired_leaves_room by blast
  next
    case room
    then show ?thesis using sweepLocked_len [of now c] by (simp add: live_entries_def)
  qed simp
  with stored show ?thesis by simp
next
  case swept
  then show ?thesis by simp
next
  case full
  then have "Cache_Lookup ip now c = None" by (simp add: Cache_Lookup_def fmdom_notD)
  with full show ?thesis by simp
qed

section \<open>The cache is a timed machine\<close>

definition put_act :: "addr \<times> string \<times> duration \<Rightarrow> gotime \<Rightarrow> Cache \<Rightarrow> bool \<times> Cache" where
  "put_act x now c = (case x of (ip, name, ttl) \<Rightarrow> Cache_Put ip name ttl now c)"

interpretation dns: timed_machine cache_ok c_max "\<lambda>c ip t. Cache_Lookup ip t c" sweepLocked put_act
proof unfold_locales
  fix s s' :: Cache and now t :: gotime and k :: addr and x :: "addr \<times> string \<times> duration"
  show "cache_ok s \<Longrightarrow> cache_ok (sweepLocked now s)" by (rule cache_ok_sweep)
  show "c_max (sweepLocked now s) = c_max s" by simp
  show "now \<le> t \<Longrightarrow> Cache_Lookup k t (sweepLocked now s) = Cache_Lookup k t s"
    by (rule Cache_Lookup_sweep)
  show "cache_ok s \<Longrightarrow> cache_ok (snd (put_act x now s))"
    by (cases x) (simp add: put_act_def cache_ok_Put)
  show "c_max (snd (put_act x now s)) = c_max s"
    by (cases x) (simp add: put_act_def Cache_Put_max)
  assume ok: "cache_ok s" "cache_ok s'" and m: "c_max s = c_max s'"
    and agree: "\<forall>k t. now \<le> t \<longrightarrow> Cache_Lookup k t s = Cache_Lookup k t s'"
  then have "live_entries now s = live_entries now s'"
    by (simp add: live_entries_observe)
  with ok m agree show res: "fst (put_act x now s) = fst (put_act x now s')"
    by (cases x) (simp add: put_act_def Cache_Put_refuses_iff)
  show "now \<le> t \<Longrightarrow> Cache_Lookup k t (snd (put_act x now s)) = Cache_Lookup k t (snd (put_act x now s'))"
    using res agree by (cases x) (simp add: put_act_def Cache_Lookup_after_Put)
qed

section \<open>Properties\<close>

text \<open>C30. The contract of \<open>Put\<close>: the bound of the cache is kept; an answer is refused only
  when the address has no live entry and the live entries already fill the cache; and
  after a successful \<open>Put\<close> the name is found under every form of the address from now
  until the clamped TTL (at least a minute, at most half an hour) has passed, and no
  longer, while every other address looks up as before.\<close>

theorem Cache_Put_contract:
  assumes "cache_ok c" and "Cache_Put ip name ttl now c = (stored, c')"
  shows "int (Cache_Len c') \<le> max 0 (c_max c) \<and> cache_ok c'
    \<and> (stored \<longleftrightarrow> Cache_Lookup ip now c \<noteq> None \<or> int (live_entries now c) < c_max c)
    \<and> (now \<le> t \<longrightarrow> Cache_Lookup ip' t c' =
         (if stored \<and> unmap ip' = unmap ip
          then if t < now + min (max ttl (60 * second)) (30 * 60 * second) then Some name else None
          else Cache_Lookup ip' t c))"
proof -
  have c': "c' = snd (Cache_Put ip name ttl now c)" and st: "stored = fst (Cache_Put ip name ttl now c)"
    using assms(2) by simp_all
  have ok: "cache_ok c'" unfolding c' by (rule cache_ok_Put [OF assms(1)])
  then have "int (Cache_Len c') \<le> max 0 (c_max c)"
    using Cache_Put_max [of ip name ttl now c] by (simp add: cache_ok_def c')
  moreover have "now \<le> t \<longrightarrow> Cache_Lookup ip' t c' =
       (if stored \<and> unmap ip' = unmap ip
        then if t < now + clamp_ttl ttl then Some name else None
        else Cache_Lookup ip' t c)"
    unfolding c' st by (auto simp: Cache_Lookup_after_Put)
  ultimately show ?thesis
    using ok Cache_Put_refuses_iff [OF assms(1), of ip name ttl now]
    by (simp add: st clamp_ttl_def MinTTL_def MaxTTL_def)
qed

theorem Cache_Put_contract_witness:
  "Cache_Lookup (Addr4 9) (59 * second) (snd (Cache_Put (Addr4 9) ''a.b'' 5 0 (Cache_New 1))) = Some ''a.b''"
proof -
  obtain stored c' where p: "Cache_Put (Addr4 9) ''a.b'' 5 0 (Cache_New 1) = (stored, c')" by (metis surj_pair)
  moreover have "stored" using p by (auto simp: Cache_Put_def Cache_New_def Let_def)
  ultimately show ?thesis
    using Cache_Put_contract [OF cache_ok_New p, of "59 * second" "Addr4 9"] by (simp add: second_def)
qed

text \<open>Sweeping is not observable: in any schedule of \<open>Put\<close> calls with times that do
  not go back, interleaved with sweeps, every \<open>Put\<close> answers as it would without the
  sweeps, so the flush loop's period has no effect on what the cache stores.\<close>

lemma Cache_sweeps_unobservable:
  assumes "sorted (map fst es)"
  shows "timed_run put_act sweepLocked es (Cache_New n) = timed_run put_act sweepLocked (only_acts es) (Cache_New n)"
  by (rule dns.sweeps_change_nothing [OF cache_ok_New assms])

end
