(* ===== verification/Probe.thy ===== *)
theory Probe
  imports Model
begin

text \<open>
  \<open>bpf/sniffer.c\<close>, the connection capture: the packed record \<open>conn_event\<close> and its
  bytes, the map \<open>pid_by_sock\<close>, the fentry program \<open>handle_tcp_connect\<close> and the
  tracepoint program \<open>handle_set_state\<close>. The ring buffer is the list of the
  records submitted so far; whether a reservation succeeds is an argument, and an
  eviction by the LRU map is a step of its own. The DNS capture program is not
  modelled here.
\<close>

section \<open>State\<close>

record conn_event =
  ce_saddr :: "byte list"
  ce_daddr :: "byte list"
  ce_sport :: "16 word"
  ce_dport :: "16 word"
  ce_family :: byte
  ce_protocol :: byte
  ce_pid :: "32 word"
  ce_comm :: "byte list"
  ce_outbound :: byte

record pid_info =
  pi_pid :: "32 word"
  pi_comm :: "byte list"

record set_state_ctx =
  \<comment> \<open>the fields of \<open>trace_event_raw_inet_sock_set_state\<close> the program reads\<close>
  skaddr :: "64 word"
  newstate :: nat
  ctx_family :: "16 word"
  ctx_protocol :: "16 word"
  ctx_sport :: "16 word"
  ctx_dport :: "16 word"
  ctx_saddr :: "byte list"
  ctx_daddr :: "byte list"
  ctx_saddr_v6 :: "byte list"
  ctx_daddr_v6 :: "byte list"

record probe =
  pid_by_sock :: "(64 word, pid_info) fmap"
  events :: "byte list list"

section \<open>Operations\<close>

definition bpf_htons :: "16 word \<Rightarrow> 16 word" where
  \<comment> \<open>on the little-endian target (bpfel): the two bytes exchanged\<close>
  "bpf_htons w = of_nat (be_nat (le_bytes 2 (unat w)))"

definition conn_event_bytes :: "conn_event \<Rightarrow> byte list" where
  \<comment> \<open>the packed layout in memory\<close>
  "conn_event_bytes e =
     ce_saddr e @ ce_daddr e @ le_bytes 2 (unat (ce_sport e)) @ le_bytes 2 (unat (ce_dport e))
     @ [ce_family e] @ [ce_protocol e] @ le_bytes 4 (unat (ce_pid e)) @ ce_comm e
     @ [ce_outbound e]"

definition pad16 :: "byte list \<Rightarrow> byte list" where
  \<comment> \<open>bytes copied into a zeroed array of 16\<close>
  "pad16 bs = bs @ replicate (16 - length bs) 0"

definition handle_tcp_connect :: "64 word \<Rightarrow> 32 word \<Rightarrow> byte list \<Rightarrow> probe \<Rightarrow> probe" where
  "handle_tcp_connect sk pid comm s =
     s\<lparr>pid_by_sock := fmupd sk \<lparr>pi_pid = pid, pi_comm = comm\<rparr> (pid_by_sock s)\<rparr>"

definition build_conn_event :: "set_state_ctx \<Rightarrow> pid_info option \<Rightarrow> conn_event" where
  "build_conn_event ctx info =
     \<lparr>ce_saddr = (if ctx_family ctx = 2 then pad16 (take 4 (ctx_saddr ctx)) else take 16 (ctx_saddr_v6 ctx)),
      ce_daddr = (if ctx_family ctx = 2 then pad16 (take 4 (ctx_daddr ctx)) else take 16 (ctx_daddr_v6 ctx)),
      ce_sport = bpf_htons (ctx_sport ctx),
      ce_dport = bpf_htons (ctx_dport ctx),
      ce_family = (if ctx_family ctx = 2 then 2 else 10),
      ce_protocol = ucast (ctx_protocol ctx),
      ce_pid = (case info of None \<Rightarrow> 0 | Some i \<Rightarrow> pi_pid i),
      ce_comm = (case info of None \<Rightarrow> replicate 16 0 | Some i \<Rightarrow> pi_comm i),
      ce_outbound = (case info of None \<Rightarrow> 0 | Some i \<Rightarrow> 1)\<rparr>"

definition handle_set_state :: "bool \<Rightarrow> set_state_ctx \<Rightarrow> probe \<Rightarrow> probe" where
  \<comment> \<open>\<open>reserved\<close>: \<open>bpf_ringbuf_reserve\<close> returned a record\<close>
  "handle_set_state reserved ctx s =
     (if newstate ctx = 7 then s\<lparr>pid_by_sock := fmdrop (skaddr ctx) (pid_by_sock s)\<rparr>
      else if newstate ctx \<noteq> 1 then s
      else
        let info = fmlookup (pid_by_sock s) (skaddr ctx);
            s' = s\<lparr>pid_by_sock := fmdrop (skaddr ctx) (pid_by_sock s)\<rparr>
        in if ctx_family ctx \<noteq> 2 \<and> ctx_family ctx \<noteq> 10 then s'
           else if \<not> reserved then s'
           else s'\<lparr>events := events s' @ [conn_event_bytes (build_conn_event ctx info)]\<rparr>)"

definition wf_ctx :: "set_state_ctx \<Rightarrow> bool" where
  \<comment> \<open>the array sizes of the tracepoint's record\<close>
  "wf_ctx ctx \<longleftrightarrow> length (ctx_saddr ctx) = 4 \<and> length (ctx_daddr ctx) = 4
     \<and> length (ctx_saddr_v6 ctx) = 16 \<and> length (ctx_daddr_v6 ctx) = 16"

definition wf_conn_event :: "conn_event \<Rightarrow> bool" where
  "wf_conn_event e \<longleftrightarrow>
     length (ce_saddr e) = 16 \<and> length (ce_daddr e) = 16 \<and> length (ce_comm e) = 16"

definition wf_probe :: "probe \<Rightarrow> bool" where
  "wf_probe s \<longleftrightarrow> fmpred (\<lambda>_ i. length (pi_comm i) = 16) (pid_by_sock s)"

text \<open>
  One step of the kernel: a task connects, a socket changes state, or the LRU map
  evicts an entry to make room.
\<close>

inductive probe_step :: "probe \<Rightarrow> probe \<Rightarrow> bool" where
  connect: "length comm = 16 \<Longrightarrow> probe_step s (handle_tcp_connect sk pid comm s)"
| set_state: "wf_ctx ctx \<Longrightarrow> probe_step s (handle_set_state reserved ctx s)"
| evict: "probe_step s (s\<lparr>pid_by_sock := fmdrop sk (pid_by_sock s)\<rparr>)"

inductive probe_reachable :: "probe \<Rightarrow> bool" where
  init: "probe_reachable \<lparr>pid_by_sock = fmempty, events = []\<rparr>"
| step: "\<lbrakk>probe_reachable s; probe_step s t\<rbrakk> \<Longrightarrow> probe_reachable t"

inductive_cases probe_stepE: "probe_step s t"

section \<open>Facts\<close>

lemma le_bytes_bpf_htons [byte_order]: "le_bytes 2 (unat (bpf_htons w)) = be_bytes 2 (unat w)"
proof -
  have "be_nat (le_bytes 2 (unat w)) < 256 ^ 2"
    using be_nat_less [of "le_bytes 2 (unat w)"] by simp
  then have "unat (bpf_htons w) = be_nat (le_bytes 2 (unat w))"
    by (simp add: bpf_htons_def unat_of_nat)
  moreover have "be_bytes 2 (be_nat (le_bytes 2 (unat w))) = le_bytes 2 (unat w)"
    using be_bytes_be_nat [of "le_bytes 2 (unat w)"] by simp
  ultimately show ?thesis by (simp add: le_bytes_def)
qed

lemma length_pad16: "length bs \<le> 16 \<Longrightarrow> length (pad16 bs) = 16"
  by (simp add: pad16_def)

lemma length_conn_event_bytes: "wf_conn_event e \<Longrightarrow> length (conn_event_bytes e) = 59"
  by (simp add: conn_event_bytes_def wf_conn_event_def)

lemma wf_build_conn_event:
  assumes "wf_ctx ctx" and "\<And>i. info = Some i \<Longrightarrow> length (pi_comm i) = 16"
  shows "wf_conn_event (build_conn_event ctx info)"
  using assms by (auto simp: wf_conn_event_def build_conn_event_def wf_ctx_def length_pad16 split: option.splits)

lemma wf_probe_init: "wf_probe \<lparr>pid_by_sock = fmempty, events = []\<rparr>"
  by (simp add: wf_probe_def)

lemma wf_probe_step: "\<lbrakk>probe_step s t; wf_probe s\<rbrakk> \<Longrightarrow> wf_probe t"
  by (erule probe_stepE)
    (auto simp: wf_probe_def handle_tcp_connect_def handle_set_state_def Let_def intro!: fmpred_upd fmpred_drop)

lemma probe_reachable_wf: "probe_reachable s \<Longrightarrow> wf_probe s"
  by (induction rule: probe_reachable.induct) (auto intro: wf_probe_init wf_probe_step)

end
