(* ===== verification/Decode.thy ===== *)
theory Decode
  imports Probe
begin

text \<open>
  \<open>internal/decode/decode.go\<close>: the raw record of the ring buffer into a
  \<open>ConnectionEvent\<close>. Errors are the left side of a sum; the lemmas relate the
  decoder to the layout \<open>conn_event_bytes\<close> the eBPF program writes.
\<close>

section \<open>The decoder\<close>

datatype decode_error =
    ErrShortEvent | ErrUnknownFamily
  | ErrNotDNSAnswer | ErrBadDNSLength
  | ErrParser  \<comment> \<open>an error value of the DNS message parser\<close>

definition EventSize :: nat where "EventSize = 59"

definition familyIPv4 :: byte where "familyIPv4 = 2"
definition familyIPv6 :: byte where "familyIPv6 = 10"

definition offSaddr :: nat where "offSaddr = 0"
definition offDaddr :: nat where "offDaddr = 16"
definition offSport :: nat where "offSport = 32"
definition offDport :: nat where "offDport = 34"
definition offFamily :: nat where "offFamily = 36"
definition offProtocol :: nat where "offProtocol = 37"
definition offPID :: nat where "offPID = 38"
definition offComm :: nat where "offComm = 42"
definition commLen :: nat where "commLen = 16"
definition offOutbound :: nat where "offOutbound = 58"

lemmas layout_defs =
  EventSize_def familyIPv4_def familyIPv6_def offSaddr_def offDaddr_def offSport_def
  offDport_def offFamily_def offProtocol_def offPID_def offComm_def commLen_def offOutbound_def

definition decodeAddr :: "byte list \<Rightarrow> byte \<Rightarrow> decode_error + addr" where
  "decodeAddr raw family =
     (if family = familyIPv4 then Inr (addr_from4 (take 4 raw))
      else if family = familyIPv6 then Inr (unmap (addr_from16 (take 16 raw)))
      else Inl ErrUnknownFamily)"

fun decodeComm_from :: "byte list \<Rightarrow> nat \<Rightarrow> byte list \<Rightarrow> string" where
  \<comment> \<open>the loop of \<open>decodeComm\<close> at index \<open>i\<close>, the bytes from \<open>i\<close> on as last argument\<close>
  "decodeComm_from raw i [] = string_of_bytes raw"
| "decodeComm_from raw i (c # cs) =
     (if c = 0 then string_of_bytes (take i raw) else decodeComm_from raw (Suc i) cs)"

definition decodeComm :: "byte list \<Rightarrow> string" where
  "decodeComm raw = decodeComm_from raw 0 raw"

definition Decode :: "byte list \<Rightarrow> decode_error + ConnectionEvent" where
  "Decode b =
     (if length b < EventSize then Inl ErrShortEvent
      else
        let family = b ! offFamily in
        case decodeAddr (go_slice offSaddr (offSaddr + 16) b) family of
          Inl err \<Rightarrow> Inl err
        | Inr src \<Rightarrow>
            (case decodeAddr (go_slice offDaddr (offDaddr + 16) b) family of
               Inl err \<Rightarrow> Inl err
             | Inr dst \<Rightarrow> Inr
                 \<lparr>SrcIP = src, DstIP = dst,
                  SrcPort = of_nat (be_nat (go_slice offSport (offSport + 2) b)),
                  DstPort = of_nat (be_nat (go_slice offDport (offDport + 2) b)),
                  Protocol = b ! offProtocol,
                  PID = of_nat (le_nat (go_slice offPID (offPID + 4) b)),
                  Comm = decodeComm (go_slice offComm (offComm + commLen) b),
                  Outbound = (b ! offOutbound \<noteq> 0),
                  SrcPodUID = [], DstHostname = []\<rparr>))"

section \<open>Facts\<close>

lemma decodeComm_from_eq:
  "raw = pre @ cs \<Longrightarrow> 0 \<notin> set pre \<Longrightarrow>
     decodeComm_from raw (length pre) cs = string_of_bytes (pre @ takeWhile (\<lambda>c. c \<noteq> 0) cs)"
proof (induction cs arbitrary: pre)
  case Nil
  then show ?case by simp
next
  case (Cons c cs)
  show ?case
  proof (cases "c = 0")
    case True
    with Cons.prems show ?thesis by simp
  next
    case False
    with Cons.prems Cons.IH [of "pre @ [c]"] show ?thesis by simp
  qed
qed

lemma decodeComm_eq: "decodeComm raw = string_of_bytes (takeWhile (\<lambda>c. c \<noteq> 0) raw)"
  using decodeComm_from_eq [of raw "[]" raw] by (simp add: decodeComm_def)

lemma Decode_short: "length b < 59 \<Longrightarrow> Decode b = Inl ErrShortEvent"
  by (simp add: Decode_def EventSize_def)

text \<open>The fields of a packed record, read back at the decoder's offsets.\<close>

lemma slices_of_record:
  assumes "wf_conn_event e"
  defines "b \<equiv> conn_event_bytes e"
  shows "go_slice 0 16 b = ce_saddr e" and "go_slice 16 32 b = ce_daddr e"
    and "go_slice 32 34 b = le_bytes 2 (unat (ce_sport e))"
    and "go_slice 34 36 b = le_bytes 2 (unat (ce_dport e))"
    and "b ! 36 = ce_family e" and "b ! 37 = ce_protocol e"
    and "go_slice 38 42 b = le_bytes 4 (unat (ce_pid e))"
    and "go_slice 42 58 b = ce_comm e" and "b ! 58 = ce_outbound e"
  using assms(1) unfolding b_def
  by (simp_all add: conn_event_bytes_def wf_conn_event_def go_slice_def nth_append)

lemma Decode_record:
  assumes "wf_conn_event e"
  shows "Decode (conn_event_bytes e) =
     (case decodeAddr (ce_saddr e) (ce_family e) of
        Inl err \<Rightarrow> Inl err
      | Inr src \<Rightarrow>
          (case decodeAddr (ce_daddr e) (ce_family e) of
             Inl err \<Rightarrow> Inl err
           | Inr dst \<Rightarrow> Inr
               \<lparr>SrcIP = src, DstIP = dst,
                SrcPort = of_nat (be_nat (le_bytes 2 (unat (ce_sport e)))),
                DstPort = of_nat (be_nat (le_bytes 2 (unat (ce_dport e)))),
                Protocol = ce_protocol e, PID = ce_pid e, Comm = decodeComm (ce_comm e),
                Outbound = (ce_outbound e \<noteq> 0), SrcPodUID = [], DstHostname = []\<rparr>))"
proof -
  have pid: "of_nat (le_nat (le_bytes 4 (unat (ce_pid e)))) = ce_pid e"
    using unat_word32_less [of "ce_pid e"] by (simp add: le_nat_le_bytes)
  show ?thesis
    using length_conn_event_bytes [OF assms]
    by (simp add: Decode_def layout_defs slices_of_record [OF assms] pid Let_def split: sum.split)
qed

lemma port_of_bytes: "(of_nat (be_nat (be_bytes 2 (unat (p :: 16 word)))) :: 16 word) = p"
proof -
  have "unat p < 256 ^ 2" using unsigned_less [of p, where ?'a = nat] by simp
  then show ?thesis by (simp add: be_nat_be_bytes del: be_bytes.simps)
qed

lemma Decode_addrs_unmapped:
  assumes "Decode b = Inr e"
  shows "unmap (SrcIP e) = SrcIP e \<and> unmap (DstIP e) = DstIP e"
  using assms
  by (auto simp: Decode_def decodeAddr_def addr_from4_def Let_def split: if_splits sum.splits)

section \<open>Properties\<close>

definition ctx_addr :: "16 word \<Rightarrow> byte list \<Rightarrow> byte list \<Rightarrow> addr" where
  "ctx_addr fam a4 a6 = (if fam = 2 then addr_from4 a4 else unmap (addr_from16 a6))"

definition observed_event :: "set_state_ctx \<Rightarrow> pid_info option \<Rightarrow> ConnectionEvent" where
  \<comment> \<open>what the tracepoint saw, and the task recorded at \<open>tcp_connect\<close> if any\<close>
  "observed_event ctx info =
     \<lparr>SrcIP = ctx_addr (ctx_family ctx) (ctx_saddr ctx) (ctx_saddr_v6 ctx),
      DstIP = ctx_addr (ctx_family ctx) (ctx_daddr ctx) (ctx_daddr_v6 ctx),
      SrcPort = ctx_sport ctx, DstPort = ctx_dport ctx, Protocol = ucast (ctx_protocol ctx),
      PID = (case info of None \<Rightarrow> 0 | Some i \<Rightarrow> pi_pid i),
      Comm = (case info of None \<Rightarrow> [] | Some i \<Rightarrow> string_of_bytes (takeWhile (\<lambda>c. c \<noteq> 0) (pi_comm i))),
      Outbound = (info \<noteq> None), SrcPodUID = [], DstHostname = []\<rparr>"

lemma takeWhile_zeros: "takeWhile (\<lambda>c. c \<noteq> 0) (replicate n (0 :: byte)) = []"
  by (cases n) simp_all

text \<open>C21. From the kernel to the event: when a socket reaches ESTABLISHED, the probe
  submits one record, which the collector decodes to exactly the connection the
  tracepoint saw: addresses of its family, ports in host order, and the process
  recorded by \<open>tcp_connect\<close> for the same socket. The event is outbound exactly when
  such a process was recorded, and that entry is consumed.\<close>

theorem established_event:
  assumes "probe_reachable s" and "wf_ctx ctx" and "newstate ctx = 1"
    and "ctx_family ctx = 2 \<or> ctx_family ctx = 10"
  shows "\<exists>b. events (handle_set_state True ctx s) = events s @ [b]
    \<and> Decode b = Inr (observed_event ctx (fmlookup (pid_by_sock s) (skaddr ctx)))
    \<and> skaddr ctx |\<notin>| fmdom (pid_by_sock (handle_set_state True ctx s))"
proof -
  let ?info = "fmlookup (pid_by_sock s) (skaddr ctx)"
  let ?e = "build_conn_event ctx ?info"
  have "wf_probe s" using assms(1) by (rule probe_reachable_wf)
  then have "\<And>i. ?info = Some i \<Longrightarrow> length (pi_comm i) = 16" by (auto simp: wf_probe_def fmpred_iff)
  from wf_build_conn_event [OF assms(2) this] have wf: "wf_conn_event ?e" .
  have len: "length (ctx_saddr ctx) = 4" "length (ctx_daddr ctx) = 4"
    "length (ctx_saddr_v6 ctx) = 16" "length (ctx_daddr_v6 ctx) = 16"
    using assms(2) by (simp_all add: wf_ctx_def)
  have "Decode (conn_event_bytes ?e) = Inr (observed_event ctx ?info)"
    using assms(4) len unfolding Decode_record [OF wf]
    by (auto simp: build_conn_event_def observed_event_def ctx_addr_def decodeAddr_def familyIPv4_def
        familyIPv6_def pad16_def le_bytes_bpf_htons port_of_bytes decodeComm_eq takeWhile_zeros
        split: option.split)
  moreover have "handle_set_state True ctx s =
      s\<lparr>pid_by_sock := fmdrop (skaddr ctx) (pid_by_sock s), events := events s @ [conn_event_bytes ?e]\<rparr>"
    using assms(3,4) by (auto simp: handle_set_state_def Let_def)
  ultimately show ?thesis by simp
qed

definition sample_ctx :: set_state_ctx where
  "sample_ctx = \<lparr>skaddr = 7, newstate = 1, ctx_family = 2, ctx_protocol = 6, ctx_sport = 40000, ctx_dport = 443,
     ctx_saddr = [10, 0, 0, 1], ctx_daddr = [10, 0, 0, 2], ctx_saddr_v6 = replicate 16 0, ctx_daddr_v6 = replicate 16 0\<rparr>"

theorem established_event_witness:
  "\<exists>b. events (handle_set_state True sample_ctx \<lparr>pid_by_sock = fmempty, events = []\<rparr>) = [b]
    \<and> Decode b = Inr (observed_event sample_ctx None)"
proof -
  have "wf_ctx sample_ctx" "newstate sample_ctx = 1" "ctx_family sample_ctx = 2 \<or> ctx_family sample_ctx = 10"
    by (simp_all add: sample_ctx_def wf_ctx_def)
  from established_event [OF probe_reachable.init this] show ?thesis by auto
qed

text \<open>The decoder is total: a record shorter than the layout is refused as short, one
  of another address family as unknown, every other record decodes; bytes after the
  layout are ignored, and an IPv4 address is never left in its IPv6-mapped form.\<close>

lemma Decode_outcome:
  "(Decode b = Inl ErrShortEvent \<longleftrightarrow> length b < 59)
   \<and> (Decode b = Inl ErrUnknownFamily \<longleftrightarrow> 59 \<le> length b \<and> b ! 36 \<notin> {2, 10})
   \<and> ((\<exists>e. Decode b = Inr e) \<longleftrightarrow> 59 \<le> length b \<and> b ! 36 \<in> {2, 10})
   \<and> (59 \<le> length b \<longrightarrow> Decode (b @ x) = Decode b)
   \<and> (\<forall>e. Decode b = Inr e \<longrightarrow> unmap (SrcIP e) = SrcIP e \<and> unmap (DstIP e) = DstIP e)"
proof (intro conjI allI impI)
  show "Decode b = Inl ErrShortEvent \<longleftrightarrow> length b < 59"
    by (auto simp: Decode_def layout_defs decodeAddr_def Let_def)
  show "Decode b = Inl ErrUnknownFamily \<longleftrightarrow> 59 \<le> length b \<and> b ! 36 \<notin> {2, 10}"
    by (auto simp: Decode_def layout_defs decodeAddr_def Let_def)
  show "(\<exists>e. Decode b = Inr e) \<longleftrightarrow> 59 \<le> length b \<and> b ! 36 \<in> {2, 10}"
    by (auto simp: Decode_def layout_defs decodeAddr_def Let_def)
  assume "59 \<le> length b"
  then show "Decode (b @ x) = Decode b"
    by (simp add: Decode_def layout_defs go_slice_append_left nth_append Let_def split: sum.split)
next
  fix e
  assume "Decode b = Inr e"
  then show "unmap (SrcIP e) = SrcIP e" "unmap (DstIP e) = DstIP e"
    using Decode_addrs_unmapped by blast+
qed

end
