(* ===== verification/Dns_Decode.thy ===== *)
theory Dns_Decode
  imports Decode
begin

text \<open>
  \<open>internal/decode/dns.go\<close>: a captured DNS message into its address answers. The
  message parser is \<open>golang.org/x/net/dns/dnsmessage\<close>, a third-party package: it is
  the record argument \<open>dns_parser\<close>, one field per method the code calls, over an
  abstract parser state. \<open>None\<close> is an error return.
\<close>

section \<open>The parser interface\<close>

record dns_header =
  h_Response :: bool
  h_RCode :: nat

record resource_header =
  rh_Type :: nat
  rh_TTL :: "32 word"

record 'p dns_parser =
  p_Start :: "byte list \<Rightarrow> (dns_header \<times> 'p) option"
  p_AllQuestions :: "'p \<Rightarrow> (string list \<times> 'p) option"
  p_AnswerHeader :: "'p \<Rightarrow> (resource_header \<times> 'p) option"
  p_AResource :: "'p \<Rightarrow> (byte list \<times> 'p) option"
  p_AAAAResource :: "'p \<Rightarrow> (byte list \<times> 'p) option"
  p_SkipAnswer :: "'p \<Rightarrow> 'p option"

definition RCodeSuccess :: nat where "RCodeSuccess = 0"
definition TypeA :: nat where "TypeA = 1"
definition TypeAAAA :: nat where "TypeAAAA = 28"

section \<open>The decoder\<close>

definition dnsOffPayload :: nat where "dnsOffPayload = 2"
definition dnsMaxPayload :: nat where "dnsMaxPayload = 512"
definition DNSEventSize :: nat where "DNSEventSize = dnsOffPayload + dnsMaxPayload"

lemmas dns_layout_defs = dnsOffPayload_def dnsMaxPayload_def DNSEventSize_def

definition normalizeName :: "unicode_lower \<Rightarrow> string \<Rightarrow> string" where
  "normalizeName uni n = to_lower uni (trim_suffix_char (CHR ''.'') n)"

text \<open>
  The answer loop. It ends when the parser reports an error; \<open>None\<close> is a loop that
  never ends.
\<close>

partial_function (option) answer_loop ::
  "'p dns_parser \<Rightarrow> string \<Rightarrow> 'p \<Rightarrow> DNSAnswer list \<Rightarrow> DNSAnswer list option" where
  "answer_loop P name p out =
     (case p_AnswerHeader P p of
        None \<Rightarrow> Some out
      | Some (rh, p1) \<Rightarrow>
          if rh_Type rh = TypeA then
            (case p_AResource P p1 of
               None \<Rightarrow> Some out
             | Some (a, p2) \<Rightarrow>
                 answer_loop P name p2
                   (out @ [\<lparr>a_Name = name, a_IP = addr_from4 a, a_TTL = rh_TTL rh\<rparr>]))
          else if rh_Type rh = TypeAAAA then
            (case p_AAAAResource P p1 of
               None \<Rightarrow> Some out
             | Some (a, p2) \<Rightarrow>
                 answer_loop P name p2
                   (out @ [\<lparr>a_Name = name, a_IP = unmap (addr_from16 a), a_TTL = rh_TTL rh\<rparr>]))
          else
            (case p_SkipAnswer P p1 of
               None \<Rightarrow> Some out
             | Some p2 \<Rightarrow> answer_loop P name p2 out))"

definition dns_message :: "byte list \<Rightarrow> decode_error + byte list" where
  \<comment> \<open>the message a record carries, or why it carries none\<close>
  "dns_message b =
     (if length b < DNSEventSize then Inl ErrShortEvent
      else
        let n = unat (of_nat (le_nat (take dnsOffPayload b)) :: 16 word) in
        if n = 0 \<or> dnsMaxPayload < n then Inl ErrBadDNSLength
        else Inr (go_slice dnsOffPayload (dnsOffPayload + n) b))"

definition parse_message ::
  "unicode_lower \<Rightarrow> 'p dns_parser \<Rightarrow> byte list \<Rightarrow> (decode_error + DNSAnswer list) option" where
  "parse_message uni P msg =
     (case p_Start P msg of
        None \<Rightarrow> Some (Inl ErrParser)
      | Some (h, p) \<Rightarrow>
          if \<not> h_Response h \<or> h_RCode h \<noteq> RCodeSuccess then Some (Inl ErrNotDNSAnswer)
          else
            case p_AllQuestions P p of
              None \<Rightarrow> Some (Inl ErrParser)
            | Some (qs, p) \<Rightarrow>
                if length qs \<noteq> 1 then Some (Inl ErrNotDNSAnswer)
                else
                  let name = normalizeName uni (qs ! 0) in
                  if name = [] then Some (Inl ErrNotDNSAnswer)
                  else map_option Inr (answer_loop P name p []))"

definition DecodeDNS ::
  "unicode_lower \<Rightarrow> 'p dns_parser \<Rightarrow> byte list \<Rightarrow> (decode_error + DNSAnswer list) option" where
  "DecodeDNS uni P b =
     (case dns_message b of Inl err \<Rightarrow> Some (Inl err) | Inr msg \<Rightarrow> parse_message uni P msg)"

section \<open>What the parser yields\<close>

text \<open>
  The answer section as the parser walks it: address records and skipped records
  until the first error.
\<close>

datatype dns_item = Address addr "32 word" | Skipped

inductive walks :: "'p dns_parser \<Rightarrow> 'p \<Rightarrow> dns_item list \<Rightarrow> bool" for P where
  no_header: "p_AnswerHeader P p = None \<Longrightarrow> walks P p []"
| bad_a: "\<lbrakk>p_AnswerHeader P p = Some (rh, p1); rh_Type rh = TypeA; p_AResource P p1 = None\<rbrakk>
    \<Longrightarrow> walks P p []"
| bad_aaaa: "\<lbrakk>p_AnswerHeader P p = Some (rh, p1); rh_Type rh = TypeAAAA; p_AAAAResource P p1 = None\<rbrakk>
    \<Longrightarrow> walks P p []"
| bad_skip: "\<lbrakk>p_AnswerHeader P p = Some (rh, p1); rh_Type rh \<noteq> TypeA; rh_Type rh \<noteq> TypeAAAA;
     p_SkipAnswer P p1 = None\<rbrakk> \<Longrightarrow> walks P p []"
| a: "\<lbrakk>p_AnswerHeader P p = Some (rh, p1); rh_Type rh = TypeA; p_AResource P p1 = Some (b, p2);
     walks P p2 items\<rbrakk> \<Longrightarrow> walks P p (Address (addr_from4 b) (rh_TTL rh) # items)"
| aaaa: "\<lbrakk>p_AnswerHeader P p = Some (rh, p1); rh_Type rh = TypeAAAA; p_AAAAResource P p1 = Some (b, p2);
     walks P p2 items\<rbrakk> \<Longrightarrow> walks P p (Address (unmap (addr_from16 b)) (rh_TTL rh) # items)"
| skip: "\<lbrakk>p_AnswerHeader P p = Some (rh, p1); rh_Type rh \<noteq> TypeA; rh_Type rh \<noteq> TypeAAAA;
     p_SkipAnswer P p1 = Some p2; walks P p2 items\<rbrakk> \<Longrightarrow> walks P p (Skipped # items)"

fun answers_of :: "string \<Rightarrow> dns_item list \<Rightarrow> DNSAnswer list" where
  "answers_of name [] = []"
| "answers_of name (Address ip ttl # items) = \<lparr>a_Name = name, a_IP = ip, a_TTL = ttl\<rparr> # answers_of name items"
| "answers_of name (Skipped # items) = answers_of name items"

text \<open>
  The documented behaviour the loop's termination rests on: every answer consumed
  leaves fewer of them (a message has at most 65535).
\<close>

definition parser_progress :: "'p dns_parser \<Rightarrow> ('p \<Rightarrow> nat) \<Rightarrow> bool" where
  "parser_progress P rem \<longleftrightarrow>
     (\<forall>p rh p1. p_AnswerHeader P p = Some (rh, p1) \<longrightarrow>
        (\<forall>b p2. p_AResource P p1 = Some (b, p2) \<longrightarrow> rem p2 < rem p) \<and>
        (\<forall>b p2. p_AAAAResource P p1 = Some (b, p2) \<longrightarrow> rem p2 < rem p) \<and>
        (\<forall>p2. p_SkipAnswer P p1 = Some p2 \<longrightarrow> rem p2 < rem p))"

text \<open>
  A concrete parser over a list of records, for evaluations: a record is its type,
  its TTL and its address bytes (\<open>None\<close> for a malformed body).
\<close>

type_synonym record_list = "(nat \<times> 32 word \<times> byte list option) list"

definition list_parser :: "dns_header \<Rightarrow> string list \<Rightarrow> record_list \<Rightarrow> record_list dns_parser" where
  "list_parser h qs rs =
     \<lparr>p_Start = (\<lambda>_. Some (h, rs)),
      p_AllQuestions = (\<lambda>p. Some (qs, p)),
      p_AnswerHeader = (\<lambda>p. case p of [] \<Rightarrow> None
         | (ty, ttl, _) # _ \<Rightarrow> Some (\<lparr>rh_Type = ty, rh_TTL = ttl\<rparr>, p)),
      p_AResource = (\<lambda>p. case p of (_, _, Some b) # rest \<Rightarrow> Some (b, rest) | _ \<Rightarrow> None),
      p_AAAAResource = (\<lambda>p. case p of (_, _, Some b) # rest \<Rightarrow> Some (b, rest) | _ \<Rightarrow> None),
      p_SkipAnswer = (\<lambda>p. case p of (_, _, Some _) # rest \<Rightarrow> Some rest | _ \<Rightarrow> None)\<rparr>"

section \<open>Facts\<close>

lemma answer_loop_walks: "walks P p items \<Longrightarrow> answer_loop P name p out = Some (out @ answers_of name items)"
proof (induction arbitrary: out rule: walks.induct)
  case (no_header p)
  then show ?case by (simp add: answer_loop.simps [of P name p out])
next
  case (bad_a p rh p1)
  then show ?case by (simp add: answer_loop.simps [of P name p out])
next
  case (bad_aaaa p rh p1)
  then show ?case by (simp add: answer_loop.simps [of P name p out] TypeA_def TypeAAAA_def)
next
  case (bad_skip p rh p1)
  then show ?case by (simp add: answer_loop.simps [of P name p out])
next
  case (a p rh p1 b p2 items)
  then show ?case by (simp add: answer_loop.simps [of P name p out])
next
  case (aaaa p rh p1 b p2 items)
  then show ?case by (simp add: answer_loop.simps [of P name p out] TypeA_def TypeAAAA_def)
next
  case (skip p rh p1 p2 items)
  then show ?case by (simp add: answer_loop.simps [of P name p out])
qed

lemma walks_exists:
  assumes "parser_progress P rem"
  shows "\<exists>items. walks P p items"
proof (induction p rule: measure_induct_rule [of rem])
  case (less p)
  show ?case
  proof (cases "p_AnswerHeader P p")
    case None
    then show ?thesis by (blast intro: walks.no_header)
  next
    case (Some hp)
    obtain rh p1 where h: "p_AnswerHeader P p = Some (rh, p1)" using Some by (cases hp) auto
    consider "rh_Type rh = TypeA" | "rh_Type rh = TypeAAAA"
      | "rh_Type rh \<noteq> TypeA" "rh_Type rh \<noteq> TypeAAAA" by blast
    then show ?thesis
    proof cases
      case 1
      show ?thesis
      proof (cases "p_AResource P p1")
        case None
        with h 1 show ?thesis by (blast intro: walks.bad_a)
      next
        case (Some r)
        obtain b p2 where r: "p_AResource P p1 = Some (b, p2)" using Some by (cases r) auto
        have "rem p2 < rem p" using assms h r unfolding parser_progress_def by blast
        then obtain items where "walks P p2 items" using less by blast
        with h 1 r show ?thesis by (blast intro: walks.a)
      qed
    next
      case 2
      show ?thesis
      proof (cases "p_AAAAResource P p1")
        case None
        with h 2 show ?thesis by (blast intro: walks.bad_aaaa)
      next
        case (Some r)
        obtain b p2 where r: "p_AAAAResource P p1 = Some (b, p2)" using Some by (cases r) auto
        have "rem p2 < rem p" using assms h r unfolding parser_progress_def by blast
        then obtain items where "walks P p2 items" using less by blast
        with h 2 r show ?thesis by (blast intro: walks.aaaa)
      qed
    next
      case 3
      show ?thesis
      proof (cases "p_SkipAnswer P p1")
        case None
        with h 3 show ?thesis by (blast intro: walks.bad_skip)
      next
        case (Some p2)
        have "rem p2 < rem p" using assms h Some unfolding parser_progress_def by blast
        then obtain items where "walks P p2 items" using less by blast
        with h 3 Some show ?thesis by (blast intro: walks.skip)
      qed
    qed
  qed
qed

lemma list_parser_progress: "parser_progress (list_parser h qs rs) length"
  by (auto simp: parser_progress_def list_parser_def split: list.splits option.splits prod.splits)

lemma answers_of_in:
  "a \<in> set (answers_of name items) \<longleftrightarrow>
     (\<exists>ip ttl. Address ip ttl \<in> set items \<and> a = \<lparr>a_Name = name, a_IP = ip, a_TTL = ttl\<rparr>)"
  by (induction name items rule: answers_of.induct) auto

lemma walks_unmapped: "\<lbrakk>walks P p items; Address ip ttl \<in> set items\<rbrakk> \<Longrightarrow> unmap ip = ip"
  by (induction rule: walks.induct) (auto simp: addr_from4_def)

lemma le_nat_16: "length bs \<le> 2 \<Longrightarrow> unat (of_nat (le_nat bs) :: 16 word) = le_nat bs"
proof -
  assume "length bs \<le> 2"
  have "be_nat (rev bs) < 256 ^ length (rev bs)" by (rule be_nat_less)
  also have "(256 :: nat) ^ length (rev bs) \<le> 256 ^ 2" using \<open>length bs \<le> 2\<close> by (intro power_increasing) simp_all
  finally show ?thesis by (simp add: le_nat_def unat_of_nat take_bit_nat_eq_self)
qed

lemma dns_message_eq:
  "dns_message b =
     (if length b < 514 then Inl ErrShortEvent
      else if le_nat (take 2 b) = 0 \<or> 512 < le_nat (take 2 b) then Inl ErrBadDNSLength
      else Inr (go_slice 2 (2 + le_nat (take 2 b)) b))"
  by (simp add: dns_message_def dns_layout_defs le_nat_16 Let_def)

lemma parse_message_Inr:
  "parse_message uni P msg = Some (Inr out) \<longleftrightarrow>
     (\<exists>h p q p'. p_Start P msg = Some (h, p) \<and> h_Response h \<and> h_RCode h = 0
        \<and> p_AllQuestions P p = Some ([q], p') \<and> normalizeName uni q \<noteq> []
        \<and> answer_loop P (normalizeName uni q) p' [] = Some out)"
  by (auto simp: parse_message_def RCodeSuccess_def Let_def length_Suc_conv split: if_splits option.splits prod.splits)

lemma parse_message_returns:
  assumes "\<And>name p. answer_loop P name p [] \<noteq> None"
  shows "parse_message uni P msg \<noteq> None"
    and "parse_message uni P msg \<noteq> Some (Inl ErrShortEvent)"
    and "parse_message uni P msg \<noteq> Some (Inl ErrBadDNSLength)"
  using assms by (auto simp: parse_message_def Let_def split: option.splits prod.splits)

lemma DecodeDNS_Inr:
  "DecodeDNS uni P b = Some (Inr out) \<longleftrightarrow> (\<exists>msg. dns_message b = Inr msg \<and> parse_message uni P msg = Some (Inr out))"
  by (auto simp: DecodeDNS_def split: sum.splits)

lemma answer_loop_returns: "parser_progress P left \<Longrightarrow> answer_loop P name p [] \<noteq> None"
  using walks_exists [of P left p] answer_loop_walks [of P p _ name "[]"] by fastforce

lemma DecodeDNS_returns:
  assumes "parser_progress P left"
  shows "\<exists>res. DecodeDNS uni P b = Some res"
  using parse_message_returns(1) [where P = P, OF answer_loop_returns [OF assms], of uni]
  by (cases "dns_message b") (auto simp: DecodeDNS_def)

section \<open>Properties\<close>

text \<open>C31. A captured DNS record is always decoded in finitely many steps, given a parser that
  consumes the answers it returns. It is short exactly below 514 bytes and has a bad
  length exactly when its prefix is not between 1 and 512. It gives answers exactly when
  the parser finds the header of a successful response with one question of a non-empty
  name in the prefixed bytes; the answers are then the address records of the answer
  section up to the parser's first error, in order, each under the normalised question
  name, whatever CNAMEs were followed.\<close>

theorem DecodeDNS_result:
  assumes "parser_progress P left"
  shows "\<exists>res. DecodeDNS uni P b = Some res \<and>
    (res = Inl ErrShortEvent \<longleftrightarrow> length b < 514) \<and>
    (res = Inl ErrBadDNSLength \<longleftrightarrow> 514 \<le> length b \<and> le_nat (take 2 b) \<notin> {1..512}) \<and>
    (\<forall>out. res = Inr out \<longleftrightarrow>
       (\<exists>h p q p' items. 514 \<le> length b \<and> le_nat (take 2 b) \<in> {1..512}
          \<and> p_Start P (go_slice 2 (2 + le_nat (take 2 b)) b) = Some (h, p) \<and> h_Response h \<and> h_RCode h = 0
          \<and> p_AllQuestions P p = Some ([q], p') \<and> normalizeName uni q \<noteq> []
          \<and> walks P p' items \<and> out = answers_of (normalizeName uni q) items))"
proof -
  have loop: "answer_loop P name p [] = Some out \<longleftrightarrow> (\<exists>items. walks P p items \<and> out = answers_of name items)" for name p out
    using walks_exists [OF assms, of p] answer_loop_walks [of P p _ name "[]"] by fastforce
  note returns = parse_message_returns [where P = P, OF answer_loop_returns [OF assms]]
  obtain res where res: "DecodeDNS uni P b = Some res" using DecodeDNS_returns [OF assms] by blast
  have "res = Inl ErrShortEvent \<longleftrightarrow> length b < 514"
    and "res = Inl ErrBadDNSLength \<longleftrightarrow> 514 \<le> length b \<and> le_nat (take 2 b) \<notin> {1..512}"
    using res returns(2,3) [of uni] by (auto simp: DecodeDNS_def dns_message_eq split: if_splits)
  moreover have "res = Inr out \<longleftrightarrow>
       (\<exists>h p q p' items. 514 \<le> length b \<and> le_nat (take 2 b) \<in> {1..512}
          \<and> p_Start P (go_slice 2 (2 + le_nat (take 2 b)) b) = Some (h, p) \<and> h_Response h \<and> h_RCode h = 0
          \<and> p_AllQuestions P p = Some ([q], p') \<and> normalizeName uni q \<noteq> []
          \<and> walks P p' items \<and> out = answers_of (normalizeName uni q) items)" for out
    using DecodeDNS_Inr [of uni P b out] unfolding res parse_message_Inr loop
    by (auto simp: dns_message_eq split: if_splits)
  ultimately show ?thesis using res by blast
qed

theorem DecodeDNS_result_witness:
  "\<exists>out. DecodeDNS (\<lambda>s. s) (list_parser \<lparr>h_Response = True, h_RCode = 0\<rparr> [''a.b.''] [(1, 60, Some [1, 2, 3, 4])])
     (1 # replicate 513 0) = Some (Inr out)"
proof -
  let ?P = "list_parser \<lparr>h_Response = True, h_RCode = 0\<rparr> [''a.b.''] [(1, 60, Some [1, 2, 3, 4])]"
  obtain items where "walks ?P [(1, 60, Some [1, 2, 3, 4])] items"
    using walks_exists [OF list_parser_progress] by blast
  moreover have "le_nat (take 2 (1 # replicate 513 0)) = 1" by code_simp
  moreover have "normalizeName (\<lambda>s. s) ''a.b.'' \<noteq> []" by code_simp
  ultimately show ?thesis
    using DecodeDNS_result [OF list_parser_progress, of "\<lambda>s. s" "\<lparr>h_Response = True, h_RCode = 0\<rparr>" "[''a.b.'']"
      "[(1, 60, Some [1, 2, 3, 4])]" "1 # replicate 513 0"]
    by (auto simp: list_parser_def)
qed

end
