(* ===== verification/Pod_Identity.thy ===== *)
theory Pod_Identity
  imports Sniffer_Prelude
begin

text \<open>
  \<open>internal/resolver/cgroup.go\<close> and \<open>pid.go\<close>: the pod UID in the cgroup file of a
  process. The regular expression \<open>podUIDPattern\<close> is a literal followed by two
  fixed sequences of character classes, the first tried first; the search is the
  leftmost match. The host's procfs is the argument \<open>ReadFile\<close>: the contents
  \<open>os.ReadFile\<close> returns for the path \<open>filepath.Join\<close> builds from the listed
  elements, \<open>None\<close> for an error.
\<close>

section \<open>The pattern\<close>

definition is_hex :: "char \<Rightarrow> bool" where
  "is_hex c =
     (let n = (of_char c :: nat)
      in (48 \<le> n \<and> n \<le> 57) \<or> (97 \<le> n \<and> n \<le> 102) \<or> (65 \<le> n \<and> n \<le> 70))"

definition is_sep :: "char \<Rightarrow> bool" where
  "is_sep c \<longleftrightarrow> c = CHR ''-'' \<or> c = CHR ''_''"

definition uuid_classes :: "(char \<Rightarrow> bool) \<Rightarrow> (char \<Rightarrow> bool) list" where
  "uuid_classes hex =
     replicate 8 hex @ [is_sep] @ replicate 4 hex @ [is_sep] @ replicate 4 hex
     @ [is_sep] @ replicate 4 hex @ [is_sep] @ replicate 12 hex"

fun starts_with :: "(char \<Rightarrow> bool) list \<Rightarrow> string \<Rightarrow> bool" where
  "starts_with [] s = True"
| "starts_with (p # ps) [] = False"
| "starts_with (p # ps) (c # s) = (p c \<and> starts_with ps s)"

definition pod_here :: "string \<Rightarrow> string option" where
  \<comment> \<open>the captured group of a match of \<open>podUIDPattern\<close> at the start of \<open>s\<close>\<close>
  "pod_here s =
     (if \<not> prefix ''pod'' s then None
      else
        let body = drop 3 s in
        if starts_with (uuid_classes is_hex) body then Some (take 36 body)
        else if starts_with (replicate 32 is_hex) body then Some (take 32 body)
        else None)"

fun podUIDPattern :: "string \<Rightarrow> string option" where
  \<comment> \<open>\<open>FindStringSubmatch\<close>: the leftmost match\<close>
  "podUIDPattern [] = pod_here []"
| "podUIDPattern (c # s) =
     (case pod_here (c # s) of Some m \<Rightarrow> Some m | None \<Rightarrow> podUIDPattern s)"

section \<open>Operations\<close>

definition normalisePodUID :: "unicode_lower \<Rightarrow> string \<Rightarrow> string" where
  "normalisePodUID uni raw =
     (let s = to_lower uni (replace_char (CHR ''_'') (CHR ''-'') raw)
      in if CHR ''-'' \<notin> set s \<and> length s = 32
         then go_slice 0 8 s @ ''-'' @ go_slice 8 12 s @ ''-'' @ go_slice 12 16 s @ ''-''
                @ go_slice 16 20 s @ ''-'' @ go_slice 20 32 s
         else s)"

definition ParsePodUID :: "unicode_lower \<Rightarrow> string \<Rightarrow> string \<times> bool" where
  "ParsePodUID uni cgroup =
     (case podUIDPattern cgroup of
        None \<Rightarrow> ([], False)
      | Some m \<Rightarrow> (normalisePodUID uni m, True))"

definition formatPID :: "32 word \<Rightarrow> string" where
  "formatPID pid = show_dec (unat pid)"

definition PodUIDForPID ::
  "unicode_lower \<Rightarrow> (string list \<Rightarrow> string option) \<Rightarrow> string \<Rightarrow> 32 word \<Rightarrow> string \<times> bool" where
  "PodUIDForPID uni ReadFile root pid =
     (if pid = 0 then ([], False)
      else case ReadFile [root, formatPID pid, ''cgroup''] of
          None \<Rightarrow> ([], False)
        | Some raw \<Rightarrow> ParsePodUID uni raw)"

section \<open>Canonical UIDs and their three encodings\<close>

definition lower_hex :: "char \<Rightarrow> bool" where
  "lower_hex c \<longleftrightarrow> is_hex c \<and> lower_char c = c"

definition canonical_classes :: "(char \<Rightarrow> bool) list" where
  "canonical_classes =
     replicate 8 lower_hex @ [\<lambda>c. c = CHR ''-''] @ replicate 4 lower_hex @ [\<lambda>c. c = CHR ''-'']
     @ replicate 4 lower_hex @ [\<lambda>c. c = CHR ''-''] @ replicate 4 lower_hex
     @ [\<lambda>c. c = CHR ''-''] @ replicate 12 lower_hex"

definition canonical_uid :: "string \<Rightarrow> bool" where
  "canonical_uid u \<longleftrightarrow> length u = 36 \<and> starts_with canonical_classes u"

datatype cgroup_driver = Systemd | Cgroupfs | Compact

fun encode_uid :: "cgroup_driver \<Rightarrow> string \<Rightarrow> string" where
  \<comment> \<open>how the kubelet and the runtimes write a UID into the path\<close>
  "encode_uid Systemd u = replace_char (CHR ''-'') (CHR ''_'') u"
| "encode_uid Cgroupfs u = u"
| "encode_uid Compact u = filter (\<lambda>c. c \<noteq> CHR ''-'') u"

section \<open>Facts\<close>

lemma is_hex_lower: "is_hex c \<Longrightarrow> lower_hex (lower_char c) \<and> (of_char c :: nat) < 128 \<and> c \<noteq> CHR ''-'' \<and> c \<noteq> CHR ''_''"
  by (auto simp: is_hex_def lower_hex_def lower_char_def Let_def of_char_of)

lemma lower_hexD: "lower_hex c \<Longrightarrow> is_hex c \<and> lower_char c = c \<and> (of_char c :: nat) < 128 \<and> c \<noteq> CHR ''-'' \<and> c \<noteq> CHR ''_''"
  using is_hex_lower by (auto simp: lower_hex_def)

lemma dash_lower [simp]: "lower_char (CHR ''-'') = CHR ''-''"
  by (simp add: lower_char_def)

lemma starts_with_append:
  "length ps = length a \<Longrightarrow> starts_with (ps @ qs) (a @ b) \<longleftrightarrow> starts_with ps a \<and> starts_with qs b"
  by (induction ps a rule: starts_with.induct) auto

lemma starts_with_length: "starts_with ps s \<Longrightarrow> length ps \<le> length s"
  by (induction ps s rule: starts_with.induct) auto

lemma starts_with_iff:
  "starts_with ps s \<longleftrightarrow> length ps \<le> length s \<and> (\<forall>i < length ps. (ps ! i) (s ! i))"
  by (induction ps s rule: starts_with.induct) (auto simp: nth_Cons less_Suc_eq_0_disj split: nat.split)

lemma starts_with_take: "starts_with ps s \<Longrightarrow> length ps \<le> n \<Longrightarrow> starts_with ps (take n s)"
  by (auto simp: starts_with_iff)

lemma podUIDPattern_skip:
  "\<lbrakk>\<forall>i < length pre. pod_here (drop i (pre @ s)) = None\<rbrakk> \<Longrightarrow> podUIDPattern (pre @ s) = podUIDPattern s"
proof (induction pre)
  case Nil
  show ?case by simp
next
  case (Cons c pre)
  have "pod_here ((c # pre) @ s) = None" using Cons.prems by (metis drop0 length_greater_0_conv list.distinct(1))
  moreover have "\<forall>i < length pre. pod_here (drop i (pre @ s)) = None"
    using Cons.prems by (metis Suc_less_eq append_Cons drop_Suc_Cons length_Cons)
  ultimately show ?case using Cons.IH by simp
qed

lemma podUIDPattern_here: "pod_here s = Some m \<Longrightarrow> podUIDPattern s = Some m"
  by (cases s) auto

lemma podUIDPattern_SomeD: "podUIDPattern s = Some m \<Longrightarrow> \<exists>pre post. s = pre @ post \<and> pod_here post = Some m"
proof (induction s)
  case Nil
  then show ?case by auto
next
  case (Cons c s)
  show ?case
  proof (cases "pod_here (c # s)")
    case None
    with Cons obtain pre post where "s = pre @ post" "pod_here post = Some m" by auto
    then have "c # s = (c # pre) @ post \<and> pod_here post = Some m" by simp
    then show ?thesis by blast
  next
    case (Some a)
    with Cons.prems show ?thesis by (metis append_Nil option.inject podUIDPattern_here)
  qed
qed

definition norm_char :: "char \<Rightarrow> char" where
  "norm_char c = lower_char (if c = CHR ''_'' then CHR ''-'' else c)"

lemma norm_char_simps:
  "is_hex c \<Longrightarrow> lower_hex (norm_char c)" "is_sep c \<Longrightarrow> norm_char c = CHR ''-''"
  "lower_hex c \<Longrightarrow> norm_char c = c" "norm_char (CHR ''-'') = CHR ''-''" "norm_char (CHR ''_'') = CHR ''-''"
  using is_hex_lower [of c] lower_hexD [of c] by (auto simp: norm_char_def is_sep_def)

lemma replaced_ascii:
  "is_hex c \<or> is_sep c \<Longrightarrow> (of_char (if c = CHR ''_'' then CHR ''-'' else c) :: nat) < 128"
  using is_hex_lower [of c] by (auto simp: is_sep_def)

lemma to_lower_norm:
  assumes "list_all (\<lambda>c. is_hex c \<or> is_sep c) m"
  shows "to_lower uni (replace_char (CHR ''_'') (CHR ''-'') m) = map norm_char m"
proof -
  have "list_all (\<lambda>c. (of_char c :: nat) < 128) (replace_char (CHR ''_'') (CHR ''-'') m)"
    using assms replaced_ascii unfolding replace_char_def list.pred_map comp_def
    by (metis (no_types, lifting) list.pred_mono_strong)
  then show ?thesis
    by (simp add: to_lower_def is_ascii_def replace_char_def norm_char_def comp_def)
qed

lemma starts_with_map:
  "\<lbrakk>list_all2 (\<lambda>p q. \<forall>c. p c \<longrightarrow> q (f c)) ps qs; starts_with ps s\<rbrakk> \<Longrightarrow> starts_with qs (map f s)"
proof (induction ps s arbitrary: qs rule: starts_with.induct)
  case (1 s)
  then show ?case by simp
next
  case (2 p ps)
  then show ?case by simp
next
  case (3 p ps c s)
  then show ?case by (auto simp: list_all2_Cons1)
qed

lemma starts_with_set:
  "\<lbrakk>starts_with ps s; length s = length ps; \<forall>p \<in> set ps. \<forall>c. p c \<longrightarrow> P c\<rbrakk> \<Longrightarrow> list_all P s"
  by (induction ps s rule: starts_with.induct) auto

lemma starts_with_replicate: "\<lbrakk>list_all p s; n \<le> length s\<rbrakk> \<Longrightarrow> starts_with (replicate n p) s"
  by (auto simp: starts_with_iff list_all_length)

lemma starts_with_split:
  "starts_with (ps @ qs) s \<longleftrightarrow>
     starts_with ps (take (length ps) s) \<and> starts_with qs (drop (length ps) s)"
proof (cases "length ps \<le> length s")
  case True
  then show ?thesis
    using starts_with_append [of ps "take (length ps) s" qs "drop (length ps) s"] by simp
next
  case False
  then show ?thesis
    using starts_with_length [of "ps @ qs" s] starts_with_length [of ps "take (length ps) s"] by auto
qed

lemma uuid_classes_length [simp]: "length (uuid_classes h) = 36"
  by (simp add: uuid_classes_def)

lemma canonical_classes_length [simp]: "length canonical_classes = 36"
  by (simp add: canonical_classes_def)

lemma uuid_to_canonical:
  "list_all2 (\<lambda>p q. \<forall>c. p c \<longrightarrow> q (norm_char c)) (uuid_classes is_hex) canonical_classes"
  unfolding uuid_classes_def canonical_classes_def
  by (intro list_all2_appendI) (auto simp: list_all2_conv_all_nth norm_char_simps)

lemma canonical_to_uuid:
  "list_all2 (\<lambda>p q. \<forall>c. p c \<longrightarrow> q c) canonical_classes (uuid_classes is_hex)"
  "list_all2 (\<lambda>p q. \<forall>c. p c \<longrightarrow> q (if c = CHR ''-'' then CHR ''_'' else c)) canonical_classes (uuid_classes is_hex)"
  unfolding uuid_classes_def canonical_classes_def
  by (intro list_all2_appendI; force simp: list_all2_conv_all_nth is_sep_def dest: lower_hexD)+

lemma pod_here_SomeD:
  assumes "pod_here s = Some m"
  obtains (uuid) "starts_with (uuid_classes is_hex) m" "length m = 36"
  | (compact) "list_all is_hex m" "length m = 32"
proof (cases "starts_with (uuid_classes is_hex) (drop 3 s)")
  case True
  with assms have m: "m = take 36 (drop 3 s)" by (auto simp: pod_here_def Let_def split: if_splits)
  show thesis
  proof (rule uuid)
    show "starts_with (uuid_classes is_hex) m" unfolding m using True by (rule starts_with_take) simp
    show "length m = 36" unfolding m using starts_with_length [OF True] by simp
  qed
next
  case False
  with assms have st: "starts_with (replicate 32 is_hex) (drop 3 s)" and m: "m = take 32 (drop 3 s)"
    by (auto simp: pod_here_def Let_def split: if_splits)
  show thesis
  proof (rule compact)
    show len: "length m = 32" unfolding m using starts_with_length [OF st] by simp
    have "starts_with (replicate 32 is_hex) m" unfolding m using st by (rule starts_with_take) simp
    then show "list_all is_hex m" by (rule starts_with_set) (simp_all add: len)
  qed
qed

definition dashed :: "string \<Rightarrow> string" where
  "dashed s = go_slice 0 8 s @ ''-'' @ go_slice 8 12 s @ ''-'' @ go_slice 12 16 s @ ''-''
                @ go_slice 16 20 s @ ''-'' @ go_slice 20 32 s"

lemma normalise_uuid:
  assumes "starts_with (uuid_classes is_hex) m" and "length m = 36"
  shows "normalisePodUID uni m = map norm_char m"
proof -
  have "list_all (\<lambda>c. is_hex c \<or> is_sep c) m"
    by (rule starts_with_set [OF assms(1)]) (auto simp: assms(2) uuid_classes_def)
  from to_lower_norm [OF this] show ?thesis by (simp add: normalisePodUID_def Let_def assms(2))
qed

lemma normalise_compact:
  assumes "list_all is_hex m" and "length m = 32"
  shows "normalisePodUID uni m = dashed (map norm_char m)"
proof -
  have "list_all (\<lambda>c. is_hex c \<or> is_sep c) m" using assms(1) by (auto simp: list_all_iff)
  note low = to_lower_norm [OF this, of uni]
  have "CHR ''-'' \<notin> set (map norm_char m)"
  proof
    assume "CHR ''-'' \<in> set (map norm_char m)"
    then obtain c where "c \<in> set m" "norm_char c = CHR ''-''" by auto
    with assms(1) show False using norm_char_simps(1) [of c] lower_hexD [of "norm_char c"]
      by (auto simp: list_all_iff)
  qed
  then show ?thesis using assms(2) unfolding normalisePodUID_def low dashed_def by (simp add: Let_def)
qed

lemma starts_with_slice:
  "\<lbrakk>list_all p s; hi \<le> length s; n = hi - lo\<rbrakk> \<Longrightarrow> starts_with (replicate n p) (go_slice lo hi s)"
  by (rule starts_with_replicate) (auto simp: go_slice_def list_all_iff dest: in_set_takeD in_set_dropD)

lemma dashed_canonical:
  assumes "list_all lower_hex s" and "length s = 32"
  shows "canonical_uid (dashed s)"
proof -
  have dash: "starts_with [\<lambda>c. c = CHR ''-''] ''-''" by simp
  have "starts_with canonical_classes (dashed s)"
    unfolding canonical_classes_def dashed_def
    using assms by (subst starts_with_append; simp add: starts_with_slice del: append_Cons append_Nil)+
  moreover have "length (dashed s) = 36" using assms(2) by (simp add: dashed_def)
  ultimately show ?thesis by (simp add: canonical_uid_def)
qed

lemma normalise_canonical: "pod_here s = Some m \<Longrightarrow> canonical_uid (normalisePodUID uni m)"
proof (erule pod_here_SomeD)
  assume m: "starts_with (uuid_classes is_hex) m" "length m = 36"
  from starts_with_map [OF uuid_to_canonical m(1)] m(2)
  show "canonical_uid (normalisePodUID uni m)" by (simp add: normalise_uuid [OF m] canonical_uid_def)
next
  assume m: "list_all is_hex m" "length m = 32"
  have "list_all lower_hex (map norm_char m)"
    using m(1) by (auto simp: list_all_iff norm_char_simps)
  then show "canonical_uid (normalisePodUID uni m)"
    unfolding normalise_compact [OF m] by (rule dashed_canonical) (simp add: m(2))
qed

lemma dash_piece: "\<lbrakk>starts_with [\<lambda>c. c = CHR ''-''] a; length a = 1\<rbrakk> \<Longrightarrow> a = ''-''"
  by (cases a) auto

lemma hex_piece: "\<lbrakk>starts_with (replicate n lower_hex) a; length a = n\<rbrakk> \<Longrightarrow> list_all lower_hex a"
  by (rule starts_with_set) auto

lemma hex_no_dash: "list_all lower_hex a \<Longrightarrow> filter (\<lambda>c. c \<noteq> CHR ''-'') a = a"
  by (auto simp: list_all_iff filter_id_conv dest: lower_hexD)

lemma canonical_uid_parts:
  assumes "canonical_uid u"
  obtains s where "list_all lower_hex s" "length s = 32" "u = dashed s" "filter (\<lambda>c. c \<noteq> CHR ''-'') u = s"
proof -
  define a b c d e where "a = take 8 u" and "b = take 4 (drop 9 u)" and "c = take 4 (drop 14 u)"
    and "d = take 4 (drop 19 u)" and "e = take 12 (drop 24 u)"
  note parts = a_def b_def c_def d_def e_def
  have len: "length u = 36" and st: "starts_with canonical_classes u"
    using assms by (simp_all add: canonical_uid_def)
  have st': "starts_with (replicate 8 lower_hex) a" "starts_with (replicate 4 lower_hex) b"
    "starts_with (replicate 4 lower_hex) c" "starts_with (replicate 4 lower_hex) d"
    "starts_with (replicate 12 lower_hex) e"
    and ds: "starts_with [\<lambda>c. c = CHR ''-''] (take 1 (drop 8 u))"
    "starts_with [\<lambda>c. c = CHR ''-''] (take 1 (drop 13 u))"
    "starts_with [\<lambda>c. c = CHR ''-''] (take 1 (drop 18 u))"
    "starts_with [\<lambda>c. c = CHR ''-''] (take 1 (drop 23 u))"
    using st len unfolding canonical_classes_def starts_with_split parts by simp_all
  have l: "length a = 8" "length b = 4" "length c = 4" "length d = 4" "length e = 12"
    using len by (simp_all add: parts)
  have dashes: "take 1 (drop 8 u) = ''-''" "take 1 (drop 13 u) = ''-''" "take 1 (drop 18 u) = ''-''"
    "take 1 (drop 23 u) = ''-''"
    by (rule dash_piece [OF ds(1)] dash_piece [OF ds(2)] dash_piece [OF ds(3)] dash_piece [OF ds(4)],
        use len in simp)+
  have hex: "list_all lower_hex a" "list_all lower_hex b" "list_all lower_hex c" "list_all lower_hex d"
    "list_all lower_hex e"
    using hex_piece [OF st'(1) l(1)] hex_piece [OF st'(2) l(2)] hex_piece [OF st'(3) l(3)]
      hex_piece [OF st'(4) l(4)] hex_piece [OF st'(5) l(5)] by simp_all
  have step: "drop n u = take m (drop n u) @ drop (m + n) u" for m n
    by (metis append_take_drop_id drop_drop)
  have "u = a @ take 1 (drop 8 u) @ b @ take 1 (drop 13 u) @ c @ take 1 (drop 18 u) @ d
      @ take 1 (drop 23 u) @ e"
    unfolding parts using step [of 0 8] step [of 8 1] step [of 9 4] step [of 13 1] step [of 14 4]
      step [of 18 1] step [of 19 4] step [of 23 1] step [of 24 12] len by simp
  then have u: "u = a @ ''-'' @ b @ ''-'' @ c @ ''-'' @ d @ ''-'' @ e"
    unfolding dashes .
  show thesis
  proof (rule that [of "a @ b @ c @ d @ e"])
    show "list_all lower_hex (a @ b @ c @ d @ e)" using hex by simp
    show "length (a @ b @ c @ d @ e) = 32" using l by simp
    show "u = dashed (a @ b @ c @ d @ e)"
      using l by (simp add: u dashed_def go_slice_def)
    show "filter (\<lambda>c. c \<noteq> CHR ''-'') u = a @ b @ c @ d @ e"
      using hex by (simp add: u hex_no_dash)
  qed
qed

lemma norm_lower_hex: "list_all lower_hex s \<Longrightarrow> map norm_char s = s"
  by (induction s) (auto simp: norm_char_simps)

lemma pod_here_uuid:
  "\<lbrakk>starts_with (uuid_classes is_hex) m; length m = 36\<rbrakk> \<Longrightarrow> pod_here (''pod'' @ m @ rest) = Some m"
  using starts_with_append [of "uuid_classes is_hex" m "[]" rest] by (simp add: pod_here_def)

lemma hex_not_uuid:
  assumes "list_all is_hex m" and "length m = 32"
  shows "\<not> starts_with (uuid_classes is_hex) (m @ rest)"
proof
  assume "starts_with (uuid_classes is_hex) (m @ rest)"
  then have "(uuid_classes is_hex ! 8) ((m @ rest) ! 8)"
    unfolding starts_with_iff by simp
  then have "is_sep (m ! 8)" by (simp add: uuid_classes_def nth_append assms(2))
  moreover have "is_hex (m ! 8)" using assms by (simp add: list_all_length)
  ultimately show False using is_hex_lower [of "m ! 8"] by (auto simp: is_sep_def)
qed

lemma pod_here_compact:
  assumes "list_all is_hex m" and "length m = 32"
  shows "pod_here (''pod'' @ m @ rest) = Some m"
proof -
  have "starts_with (replicate 32 is_hex) (m @ rest)"
    using starts_with_append [of "replicate 32 is_hex" m "[]" rest]
      starts_with_replicate [OF assms(1), of 32] assms(2) by simp
  then show ?thesis using hex_not_uuid [OF assms, of rest] assms(2) by (simp add: pod_here_def)
qed

lemma encode_uid_parses:
  assumes "canonical_uid u"
  shows "\<exists>m. pod_here (''pod'' @ encode_uid d u @ rest) = Some m \<and> normalisePodUID uni m = u"
proof -
  from assms obtain s where s: "list_all lower_hex s" "length s = 32" "u = dashed s"
    "filter (\<lambda>c. c \<noteq> CHR ''-'') u = s" by (rule canonical_uid_parts)
  have u: "starts_with canonical_classes u" "length u = 36" using assms by (auto simp: canonical_uid_def)
  have chars: "list_all (\<lambda>c. lower_hex c \<or> c = CHR ''-'') u"
    by (rule starts_with_set [OF u(1)]) (auto simp: u(2) canonical_classes_def)
  have norm: "map norm_char u = u" "map norm_char (replace_char (CHR ''-'') (CHR ''_'') u) = u"
    using chars by (induction u) (auto simp: norm_char_simps replace_char_def dest: lower_hexD)
  show ?thesis
  proof (cases d)
    case Systemd
    let ?m = "replace_char (CHR ''-'') (CHR ''_'') u"
    have m: "starts_with (uuid_classes is_hex) ?m" "length ?m = 36"
      using starts_with_map [OF canonical_to_uuid(2) u(1)] u(2) by (simp_all add: replace_char_def)
    show ?thesis using Systemd norm(2) pod_here_uuid [OF m, of rest] normalise_uuid [OF m] by simp
  next
    case Cgroupfs
    have m: "starts_with (uuid_classes is_hex) u"
      using starts_with_map [where f = "\<lambda>c. c", OF canonical_to_uuid(1) u(1)] by simp
    show ?thesis using Cgroupfs norm(1) pod_here_uuid [OF m u(2), of rest] normalise_uuid [OF m u(2)] by simp
  next
    case Compact
    have hex: "list_all is_hex s" using s(1) by (auto simp: list_all_iff dest: lower_hexD)
    show ?thesis
      using Compact pod_here_compact [OF hex s(2)] normalise_compact [OF hex s(2)] norm_lower_hex [OF s(1)] s(3,4)
      by simp
  qed
qed

section \<open>Properties\<close>

text \<open>Whatever a cgroup file holds, a pod UID read from it is canonical: 36 characters,
  dashes after 8, 12, 16 and 20 digits, every other character a lower-case hexadecimal
  digit; and PID 0, a missing file or a file without a pod segment yield no UID.\<close>

lemma pod_uid_canonical:
  "(snd (PodUIDForPID uni fs root pid) \<longrightarrow> canonical_uid (fst (PodUIDForPID uni fs root pid)))
   \<and> (\<not> snd (PodUIDForPID uni fs root pid) \<longleftrightarrow>
        pid = 0 \<or> (case fs [root, show_dec (unat pid), ''cgroup''] of None \<Rightarrow> True
                    | Some raw \<Rightarrow> podUIDPattern raw = None))"
  by (auto simp: PodUIDForPID_def ParsePodUID_def formatPID_def split: option.split
      dest!: podUIDPattern_SomeD intro: normalise_canonical)

text \<open>C32. A UID survives every way it is written into a cgroup path: for the systemd and the
  cgroupfs driver and for the compact form, a path with a canonical UID after \<open>pod\<close>
  and no earlier match gives back exactly that UID.\<close>

theorem pod_uid_roundtrip:
  assumes "canonical_uid u"
    and "\<forall>i < length pre. pod_here (drop i (pre @ ''pod'' @ encode_uid d u @ rest)) = None"
  shows "ParsePodUID uni (pre @ ''pod'' @ encode_uid d u @ rest) = (u, True)"
proof -
  obtain m where m: "pod_here (''pod'' @ encode_uid d u @ rest) = Some m" "normalisePodUID uni m = u"
    using encode_uid_parses [OF assms(1)] by blast
  have "podUIDPattern (pre @ ''pod'' @ encode_uid d u @ rest) = Some m"
    using podUIDPattern_skip [OF assms(2)] podUIDPattern_here [OF m(1)] by simp
  with m(2) show ?thesis by (simp add: ParsePodUID_def)
qed

definition sample_uid :: string where "sample_uid = ''3f8e3c4d-1a2b-4c5d-8e9f-0a1b2c3d4e5f''"

theorem pod_uid_roundtrip_witness:
  "ParsePodUID (\<lambda>s. s) (''/kubepods-'' @ ''pod'' @ encode_uid Systemd sample_uid @ ''.slice'') = (sample_uid, True)"
proof (rule pod_uid_roundtrip)
  show "canonical_uid sample_uid" by code_simp
  show "\<forall>i < length ''/kubepods-''. pod_here (drop i (''/kubepods-'' @ ''pod'' @ encode_uid Systemd sample_uid @ ''.slice'')) = None"
    by code_simp
qed

end
