(* ===== verification/Collector.thy ===== *)
theory Collector
  imports Aggregate Sender Dns_Cache Dns_Decode Pod_Identity
begin

text \<open>
  \<open>internal/collector/collector.go\<close> and \<open>metrics.go\<close>: the node-local pipeline, from
  raw records to batches in the sender's queue, the PID cache and the hostname
  cache. A function of result \<open>option\<close> is \<open>None\<close> when the call does not return: it
  panics or runs forever. The iteration order \<open>ks\<close> of a drained map is an argument.
  \<open>Run\<close>, \<open>RunDNS\<close>, \<open>flushLoop\<close> and the delivery goroutine interleave as the steps
  of \<open>collector_step\<close>, each an iteration; \<open>Collector_Concurrent\<close> interleaves their accesses.
\<close>

section \<open>State\<close>

definition pidCacheTTL :: duration where "pidCacheTTL = 10 * second"

definition resultAccepted :: string where "resultAccepted = ''accepted''"
definition resultFiltered :: string where "resultFiltered = ''filtered''"
definition resultDecodeError :: string where "resultDecodeError = ''decode_error''"
definition resultReadError :: string where "resultReadError = ''read_error''"
definition resultCached :: string where "resultCached = ''cached''"
definition resultCacheFull :: string where "resultCacheFull = ''cache_full''"
definition resultNotAnswer :: string where "resultNotAnswer = ''not_answer''"

lemmas result_defs =
  resultAccepted_def resultFiltered_def resultDecodeError_def resultReadError_def
  resultCached_def resultCacheFull_def resultNotAnswer_def

record Config =
  ProcRoot :: string
  FlushInterval :: duration
  MaxBatch :: int

record Collector =
  col_cfg :: Config
  col_agg :: Aggregator
  col_sender :: "FlowRecord Sender"
  col_dns :: "Cache option"
  pidUIDs :: "(32 word, string) fmap"
  pidUIDsSince :: gotime
  m_Events :: "string \<Rightarrow> nat"
  m_DNSAnswers :: "string \<Rightarrow> nat"
  m_DNSCacheEntries :: nat

definition Collector_New :: "Config \<Rightarrow> Cache option \<Rightarrow> FlowRecord Sender \<Rightarrow> Collector" where
  "Collector_New cfg dns sender =
     \<lparr>col_cfg = cfg, col_agg = NewAggregator, col_sender = sender, col_dns = dns,
      pidUIDs = fmempty, pidUIDsSince = zero_time, m_Events = (\<lambda>_. 0), m_DNSAnswers = (\<lambda>_. 0),
      m_DNSCacheEntries = 0\<rparr>"

definition count_event :: "string \<Rightarrow> Collector \<Rightarrow> Collector" where
  "count_event r c = c\<lparr>m_Events := (m_Events c)(r := m_Events c r + 1)\<rparr>"

definition count_dns :: "string \<Rightarrow> Collector \<Rightarrow> Collector" where
  "count_dns r c = c\<lparr>m_DNSAnswers := (m_DNSAnswers c)(r := m_DNSAnswers c r + 1)\<rparr>"

section \<open>Events\<close>

type_synonym procfs = "string list \<Rightarrow> string option"

definition podUID :: "unicode_lower \<Rightarrow> procfs \<Rightarrow> 32 word \<Rightarrow> gotime \<Rightarrow> Collector \<Rightarrow> string \<times> Collector" where
  "podUID uni fs pid now c =
     (if pid = 0 then ([], c)
      else
        let c = (if pidCacheTTL \<le> time_sub now (pidUIDsSince c)
                 then c\<lparr>pidUIDs := fmempty, pidUIDsSince := now\<rparr> else c)
        in case fmlookup (pidUIDs c) pid of
             Some uid \<Rightarrow> (uid, c)
           | None \<Rightarrow>
               let uid = fst (PodUIDForPID uni fs (ProcRoot (col_cfg c)) pid)
               in (uid, c\<lparr>pidUIDs := fmupd pid uid (pidUIDs c)\<rparr>))"

definition attribute_source ::
  "unicode_lower \<Rightarrow> procfs \<Rightarrow> ConnectionEvent \<Rightarrow> gotime \<Rightarrow> Collector \<Rightarrow> ConnectionEvent \<times> Collector" where
  \<comment> \<open>the block under \<open>if ev.Outbound\<close>\<close>
  "attribute_source uni fs ev now c =
     (if \<not> Outbound ev then (ev, c)
      else case podUID uni fs (PID ev) now c of (uid, c) \<Rightarrow>
        let ev = ev\<lparr>SrcPodUID := uid\<rparr>
        in (case col_dns c of
              None \<Rightarrow> ev
            | Some d \<Rightarrow> ev\<lparr>DstHostname := (case Cache_Lookup (DstIP ev) now d of None \<Rightarrow> [] | Some n \<Rightarrow> n)\<rparr>, c))"

definition observe_raw ::
  "unicode_lower \<Rightarrow> procfs \<Rightarrow> byte list \<Rightarrow> gotime \<Rightarrow> Collector \<Rightarrow> bool \<times> Collector" where
  \<comment> \<open>\<open>handle\<close> up to the comparison with \<open>MaxBatch\<close>: is a flush due?\<close>
  "observe_raw uni fs raw now c =
     (case Decode raw of
        Inl err \<Rightarrow> (False, count_event resultDecodeError c)
      | Inr ev \<Rightarrow>
          let ev = Canonical ev in
          if IsLoopback ev \<or> IsSelfEdge ev \<or> IsAWSReserved ev \<or> IsLinkLocal ev
          then (False, count_event resultFiltered c)
          else case attribute_source uni fs ev now c of (ev, c) \<Rightarrow>
            let c = count_event resultAccepted c in
            case Aggregator_Add ev now (col_agg c) of (n, agg) \<Rightarrow>
              (MaxBatch (col_cfg c) \<le> int n, c\<lparr>col_agg := agg\<rparr>))"

partial_function (option) flush_loop ::
  "int \<Rightarrow> FlowRecord list \<Rightarrow> FlowRecord Sender \<Rightarrow> FlowRecord Sender option" where
  "flush_loop maxBatch records s =
     (if records = [] then Some s
      else
        let n = min (int (length records)) maxBatch in
        if n < 0 then None \<comment> \<open>slice bounds out of range\<close>
        else case Enqueue (take (nat n) records) s of
            None \<Rightarrow> None
          | Some s' \<Rightarrow> flush_loop maxBatch (drop (nat n) records) s')"

definition flush :: "flowKey list \<Rightarrow> Collector \<Rightarrow> Collector option" where
  "flush ks c =
     (case Aggregator_Drain ks (col_agg c) of (records, agg) \<Rightarrow>
        case flush_loop (MaxBatch (col_cfg c)) records (col_sender c) of
          None \<Rightarrow> None
        | Some s \<Rightarrow> Some (c\<lparr>col_agg := agg, col_sender := s\<rparr>))"

definition handle ::
  "unicode_lower \<Rightarrow> procfs \<Rightarrow> flowKey list \<Rightarrow> byte list \<Rightarrow> gotime \<Rightarrow> Collector \<Rightarrow> Collector option" where
  "handle uni fs ks raw now c =
     (case observe_raw uni fs raw now c of (full, c) \<Rightarrow> if full then flush ks c else Some c)"

section \<open>DNS records and the flush loop\<close>

fun cache_answers :: "DNSAnswer list \<Rightarrow> gotime \<Rightarrow> Cache \<Rightarrow> Collector \<Rightarrow> Cache \<times> Collector" where
  "cache_answers [] now d c = (d, c)"
| "cache_answers (a # as) now d c =
     (case Cache_Put (a_IP a) (a_Name a) (int (unat (a_TTL a)) * second) now d of (stored, d) \<Rightarrow>
        cache_answers as now d (count_dns (if stored then resultCached else resultCacheFull) c))"

definition handleDNS ::
  "unicode_lower \<Rightarrow> 'p dns_parser \<Rightarrow> byte list \<Rightarrow> gotime \<Rightarrow> Collector \<Rightarrow> Collector option" where
  "handleDNS uni P raw now c =
     (case DecodeDNS uni P raw of
        None \<Rightarrow> None
      | Some (Inl err) \<Rightarrow>
          Some (count_dns (if err = ErrNotDNSAnswer then resultNotAnswer else resultDecodeError) c)
      | Some (Inr answers) \<Rightarrow>
          (case col_dns c of
             None \<Rightarrow> if answers = [] then Some c else None \<comment> \<open>method call on a nil cache\<close>
           | Some d \<Rightarrow> (case cache_answers answers now d c of (d, c) \<Rightarrow> Some (c\<lparr>col_dns := Some d\<rparr>))))"

definition RunDNS_record ::
  "unicode_lower \<Rightarrow> 'p dns_parser \<Rightarrow> byte list option \<Rightarrow> gotime \<Rightarrow> Collector \<Rightarrow> Collector option" where
  \<comment> \<open>one iteration of \<open>RunDNS\<close>; \<open>None\<close> is a read error\<close>
  "RunDNS_record uni P rd now c =
     (case col_dns c of
        None \<Rightarrow> Some c
      | Some _ \<Rightarrow>
          (case rd of
             None \<Rightarrow> Some (count_dns resultReadError c)
           | Some raw \<Rightarrow> handleDNS uni P raw now c))"

definition flush_tick :: "flowKey list \<Rightarrow> gotime \<Rightarrow> Collector \<Rightarrow> Collector option" where
  "flush_tick ks now c =
     (case flush ks c of
        None \<Rightarrow> None
      | Some c \<Rightarrow>
          (case col_dns c of
             None \<Rightarrow> Some c
           | Some d \<Rightarrow>
               (case Cache_Sweep now d of (n, d) \<Rightarrow>
                  Some (c\<lparr>col_dns := Some d, m_DNSCacheEntries := n\<rparr>))))"

definition Run_event ::
  "unicode_lower \<Rightarrow> procfs \<Rightarrow> flowKey list \<Rightarrow> byte list option \<Rightarrow> gotime \<Rightarrow> Collector \<Rightarrow> Collector option" where
  \<comment> \<open>one iteration of \<open>Run\<close>\<close>
  "Run_event uni fs ks rd now c =
     (case rd of
        None \<Rightarrow> Some (count_event resultReadError c)
      | Some raw \<Rightarrow> handle uni fs ks raw now c)"

definition raw_order :: "unicode_lower \<Rightarrow> procfs \<Rightarrow> byte list option \<Rightarrow> gotime \<Rightarrow> Collector \<Rightarrow> flowKey list \<Rightarrow> bool" where
  \<comment> \<open>\<open>ks\<close> is an iteration order of the flows held after the event is folded in\<close>
  "raw_order uni fs rd now c ks =
     (case rd of None \<Rightarrow> True
      | Some raw \<Rightarrow> key_order (a_flows (col_agg (snd (observe_raw uni fs raw now c)))) ks)"

inductive collector_step ::
  "unicode_lower \<Rightarrow> 'p dns_parser \<Rightarrow> Collector \<Rightarrow> Collector \<Rightarrow> bool" for uni P where
  run: "\<lbrakk>raw_order uni fs rd now c ks; Run_event uni fs ks rd now c = Some c'\<rbrakk>
    \<Longrightarrow> collector_step uni P c c'"
| run_dns: "RunDNS_record uni P rd now c = Some c' \<Longrightarrow> collector_step uni P c c'"
| tick: "\<lbrakk>key_order (a_flows (col_agg c)) ks; flush_tick ks now c = Some c'\<rbrakk>
    \<Longrightarrow> collector_step uni P c c'"
| deliver: "\<lbrakk>sender_step (col_sender c) s; s_producers s = s_producers (col_sender c);
     g_pushed s = g_pushed (col_sender c)\<rbrakk> \<Longrightarrow> collector_step uni P c (c\<lparr>col_sender := s\<rparr>)"

inductive_cases collector_stepE: "collector_step uni P c c'"

section \<open>Invariant\<close>

definition pushed_total :: "FlowRecord Sender \<Rightarrow> 32 word" where
  "pushed_total s = records_total (concat (g_pushed s))"

definition batch_sizes :: "int \<Rightarrow> FlowRecord list list \<Rightarrow> bool" where
  "batch_sizes maxBatch bs \<longleftrightarrow> (\<forall>b \<in> set bs. 0 < length b \<and> int (length b) \<le> maxBatch)"

definition all_offered :: "FlowRecord Sender \<Rightarrow> bool" where
  \<comment> \<open>no \<open>Enqueue\<close> is under way, and what was offered has been queued\<close>
  "all_offered s \<longleftrightarrow> s_producers s = {#} \<and> g_offered s = length (concat (g_pushed s))"

definition collector_inv :: "Collector \<Rightarrow> bool" where
  "collector_inv c \<longleftrightarrow>
     0 < MaxBatch (col_cfg c) \<and> 0 < s_cap (col_sender c) \<and> sender_inv (col_sender c)
     \<and> all_offered (col_sender c)
     \<and> int (agg_len (col_agg c)) < MaxBatch (col_cfg c)
     \<and> batch_sizes (MaxBatch (col_cfg c)) (g_pushed (col_sender c))
     \<and> of_nat (m_Events c resultAccepted) = agg_total (col_agg c) + pushed_total (col_sender c)
     \<and> (\<forall>d. col_dns c = Some d \<longrightarrow> cache_ok d)"

section \<open>Facts\<close>

lemma count_event_simps [simp]:
  "col_cfg (count_event r c) = col_cfg c" "col_agg (count_event r c) = col_agg c"
  "col_sender (count_event r c) = col_sender c" "col_dns (count_event r c) = col_dns c"
  "m_Events (count_event r c) = (m_Events c)(r := m_Events c r + 1)"
  "m_DNSAnswers (count_event r c) = m_DNSAnswers c"
  by (simp_all add: count_event_def)

lemma count_dns_simps [simp]:
  "col_cfg (count_dns r c) = col_cfg c" "col_agg (count_dns r c) = col_agg c"
  "col_sender (count_dns r c) = col_sender c" "col_dns (count_dns r c) = col_dns c"
  "m_Events (count_dns r c) = m_Events c"
  "m_DNSAnswers (count_dns r c) = (m_DNSAnswers c)(r := m_DNSAnswers c r + 1)"
  by (simp_all add: count_dns_def)

lemma podUID_simps [simp]:
  "col_cfg (snd (podUID uni fs pid now c)) = col_cfg c"
  "col_agg (snd (podUID uni fs pid now c)) = col_agg c"
  "col_sender (snd (podUID uni fs pid now c)) = col_sender c"
  "col_dns (snd (podUID uni fs pid now c)) = col_dns c"
  "m_Events (snd (podUID uni fs pid now c)) = m_Events c"
  by (simp_all add: podUID_def Let_def split: option.split)

lemma attribute_source_simps [simp]:
  "col_cfg (snd (attribute_source uni fs ev now c)) = col_cfg c"
  "col_agg (snd (attribute_source uni fs ev now c)) = col_agg c"
  "col_sender (snd (attribute_source uni fs ev now c)) = col_sender c"
  "col_dns (snd (attribute_source uni fs ev now c)) = col_dns c"
  "m_Events (snd (attribute_source uni fs ev now c)) = m_Events c"
  by (simp_all add: attribute_source_def Let_def split: prod.split)
    (metis podUID_simps snd_conv)+

lemma batch_sizes_simps [simp]:
  "batch_sizes mb []" "batch_sizes mb (b # bs) \<longleftrightarrow> 0 < length b \<and> int (length b) \<le> mb \<and> batch_sizes mb bs"
  "batch_sizes mb (as @ bs) \<longleftrightarrow> batch_sizes mb as \<and> batch_sizes mb bs"
  by (auto simp: batch_sizes_def)

lemma records_total_append [simp]: "records_total (rs @ rs') = records_total rs + records_total rs'"
  by (simp add: records_total_def)

lemma all_offered_enqueued: "\<lbrakk>all_offered s; enqueued bs s t\<rbrakk> \<Longrightarrow> all_offered t"
  by (simp add: all_offered_def enqueued_def)

lemma flush_loop_result:
  assumes "0 < mb" and "0 < s_cap s" and "sender_inv s"
  shows "\<exists>t bs. flush_loop mb rs s = Some t \<and> enqueued bs s t \<and> concat bs = rs \<and> batch_sizes mb bs"
  using assms(2,3)
proof (induction rs arbitrary: s rule: length_induct)
  case (1 rs)
  show ?case
  proof (cases "rs = []")
    case True
    with 1 show ?thesis
      by (intro exI [of _ s] exI [of _ "[]"]) (simp add: flush_loop.simps enqueued_refl)
  next
    case False
    define n where "n = nat (min (int (length rs)) mb)"
    have n: "0 < n" "n \<le> length rs" "int n \<le> mb" "\<not> min (int (length rs)) mb < 0"
      using assms(1) False unfolding n_def by auto
    obtain u where u: "Enqueue (take n rs) s = Some u" "enqueued [take n rs] s u"
      using Enqueue_inv [OF 1(2,3), of "take n rs"] n(1) False by auto
    have "length (drop n rs) < length rs" using n(1) False by simp
    with 1(1) enqueuedD(1,2) [OF u(2)] 1(2) obtain t bs where t: "flush_loop mb (drop n rs) u = Some t"
      "enqueued bs u t" "concat bs = drop n rs" "batch_sizes mb bs" by metis
    have "flush_loop mb rs s = Some t"
      using False n(4) u(1) t(1) by (subst flush_loop.simps) (simp add: Let_def n_def)
    with t n enqueued_trans [OF u(2) t(2)] show ?thesis
      by (intro exI [of _ t] exI [of _ "take n rs # bs"]) simp
  qed
qed

text \<open>A batch size below one never leaves the loop: it spins at zero and panics below.\<close>

lemmas flush_loop_returned = flush_loop.raw_induct [where P = "\<lambda>mb rs s t. mb \<le> 0 \<longrightarrow> rs = []"]

lemma flush_loop_stuck: "flush_loop mb rs s = Some t \<Longrightarrow> mb \<le> 0 \<longrightarrow> rs = []"
  apply (erule flush_loop_returned [rotated])
  subgoal for loop mb rs s t
    by (cases "mb < 0"; cases "rs = []"; force simp: Let_def Enqueue_empty)
  done

definition event_result :: "Collector \<Rightarrow> Collector \<Rightarrow> string \<Rightarrow> bool" where
  "event_result c c' r \<longleftrightarrow> m_Events c' = (m_Events c)(r := m_Events c r + 1)"

lemma flush_result:
  assumes "0 < MaxBatch (col_cfg c)" and "0 < s_cap (col_sender c)" and "sender_inv (col_sender c)"
  shows "\<exists>t bs. flush ks c = Some (c\<lparr>col_agg := NewAggregator, col_sender := t\<rparr>) \<and> enqueued bs (col_sender c) t
     \<and> concat bs = fst (Aggregator_Drain ks (col_agg c)) \<and> batch_sizes (MaxBatch (col_cfg c)) bs"
proof -
  obtain rs agg where d: "Aggregator_Drain ks (col_agg c) = (rs, agg)" by (metis surj_pair)
  then have "agg = NewAggregator" by (metis Aggregator_Drain_empties snd_conv)
  with flush_loop_result [OF assms, of rs] d show ?thesis by (auto simp: flush_def)
qed

lemma observe_raw_cases:
  obtains (bad) err where "Decode raw = Inl err"
      "observe_raw uni fs raw now c = (False, count_event resultDecodeError c)"
  | (filtered) ev where "Decode raw = Inr ev" "node_local (Canonical ev)"
      "observe_raw uni fs raw now c = (False, count_event resultFiltered c)"
  | (accepted) ev ev' c' where "Decode raw = Inr ev" "\<not> node_local (Canonical ev)"
      "attribute_source uni fs (Canonical ev) now c = (ev', c')"
      "observe_raw uni fs raw now c =
         (MaxBatch (col_cfg c) \<le> int (agg_len (snd (Aggregator_Add ev' now (col_agg c)))),
          (count_event resultAccepted c')\<lparr>col_agg := snd (Aggregator_Add ev' now (col_agg c))\<rparr>)"
proof (cases "Decode raw")
  case (Inl err)
  then show thesis by (intro bad) (simp_all add: observe_raw_def)
next
  case (Inr ev)
  show thesis
  proof (cases "node_local (Canonical ev)")
    case True
    with Inr show thesis
      by (intro filtered [of ev]) (auto simp: observe_raw_def node_local_def Let_def)
  next
    case False
    obtain ev' c' where a: "attribute_source uni fs (Canonical ev) now c = (ev', c')" by (metis surj_pair)
    then have same: "col_agg c' = col_agg c" "col_cfg c' = col_cfg c"
      using attribute_source_simps(1,2) [of uni fs "Canonical ev" now c] by simp_all
    obtain n agg where n: "Aggregator_Add ev' now (col_agg c) = (n, agg)" by (metis surj_pair)
    then have "n = agg_len agg" using Aggregator_Add_len [of ev' now "col_agg c"] by simp
    with Inr False a same n show thesis
      by (intro accepted [of ev ev' c']) (auto simp: observe_raw_def node_local_def Let_def)
  qed
qed

text \<open>Every event handled is counted under exactly one result, and a handler always returns.\<close>

lemma collector_inv_New:
  "\<lbrakk>0 < MaxBatch cfg; 0 < cap; \<forall>d. dns = Some d \<longrightarrow> cache_ok d\<rbrakk> \<Longrightarrow>
     collector_inv (Collector_New cfg dns (NewSender cap))"
  using sender_inv_New [of cap, where 'a = FlowRecord]
  by (auto simp: collector_inv_def Collector_New_def pushed_total_def records_total_def all_offered_def)
    (simp_all add: NewSender_def)

lemma observe_raw_inv:
  fixes uni fs raw now c
  assumes "collector_inv c"
  defines "c' \<equiv> snd (observe_raw uni fs raw now c)"
  shows "col_cfg c' = col_cfg c" and "col_sender c' = col_sender c" and "col_dns c' = col_dns c"
    and "of_nat (m_Events c' resultAccepted) = agg_total (col_agg c') + pushed_total (col_sender c')"
    and "\<not> fst (observe_raw uni fs raw now c) \<Longrightarrow> int (agg_len (col_agg c')) < MaxBatch (col_cfg c')"
    and "\<exists>r \<in> {resultAccepted, resultFiltered, resultDecodeError}. event_result c c' r"
proof -
  have "(col_cfg c' = col_cfg c \<and> col_sender c' = col_sender c \<and> col_dns c' = col_dns c) \<and>
    (of_nat (m_Events c' resultAccepted) = agg_total (col_agg c') + pushed_total (col_sender c')) \<and>
    (\<not> fst (observe_raw uni fs raw now c) \<longrightarrow> int (agg_len (col_agg c')) < MaxBatch (col_cfg c')) \<and>
    (\<exists>r \<in> {resultAccepted, resultFiltered, resultDecodeError}. event_result c c' r)"
  proof (cases rule: observe_raw_cases [of raw uni fs now c])
    case (bad err)
    with assms show ?thesis by (simp add: collector_inv_def result_defs event_result_def)
  next
    case (filtered ev)
    with assms show ?thesis by (simp add: collector_inv_def result_defs event_result_def)
  next
    case (accepted ev ev' d)
    have d: "col_cfg d = col_cfg c" "col_sender d = col_sender c" "col_dns d = col_dns c" "m_Events d = m_Events c"
      using attribute_source_simps [of uni fs "Canonical ev" now c] accepted(3) by simp_all
    from accepted(4) assms d show ?thesis
      by (simp add: collector_inv_def event_result_def agg_total_Add)
  qed
  then show "col_cfg c' = col_cfg c" "col_sender c' = col_sender c" "col_dns c' = col_dns c"
    "of_nat (m_Events c' resultAccepted) = agg_total (col_agg c') + pushed_total (col_sender c')"
    "\<not> fst (observe_raw uni fs raw now c) \<Longrightarrow> int (agg_len (col_agg c')) < MaxBatch (col_cfg c')"
    "\<exists>r \<in> {resultAccepted, resultFiltered, resultDecodeError}. event_result c c' r"
    by blast+
qed

definition same_service :: "Collector \<Rightarrow> Collector \<Rightarrow> bool" where
  \<comment> \<open>nothing but batches has reached the sender; configuration and DNS naming are as before\<close>
  "same_service c c' \<longleftrightarrow> col_cfg c' = col_cfg c \<and> (col_dns c' = None \<longleftrightarrow> col_dns c = None)
     \<and> (\<exists>bs. enqueued bs (col_sender c) (col_sender c'))"

lemma flush_inv:
  assumes "0 < MaxBatch (col_cfg c)" and "0 < s_cap (col_sender c)" and "sender_inv (col_sender c)"
    and "all_offered (col_sender c)" and "batch_sizes (MaxBatch (col_cfg c)) (g_pushed (col_sender c))"
    and "of_nat (m_Events c resultAccepted) = agg_total (col_agg c) + pushed_total (col_sender c)"
    and "\<forall>d. col_dns c = Some d \<longrightarrow> cache_ok d" and "key_order (a_flows (col_agg c)) ks"
  shows "\<exists>c'. flush ks c = Some c' \<and> collector_inv c' \<and> m_Events c' = m_Events c
    \<and> col_agg c' = NewAggregator \<and> col_dns c' = col_dns c \<and> same_service c c'"
proof -
  obtain t bs where t: "flush ks c = Some (c\<lparr>col_agg := NewAggregator, col_sender := t\<rparr>)"
    "enqueued bs (col_sender c) t"
    "concat bs = fst (Aggregator_Drain ks (col_agg c))" "batch_sizes (MaxBatch (col_cfg c)) bs"
    using flush_result [OF assms(1-3), of ks] by blast
  note e = enqueuedD [OF t(2)]
  have "pushed_total t = agg_total (col_agg c) + pushed_total (col_sender c)"
    using e(6) t(3) Aggregator_Drain_total [OF assms(8)] by (simp add: pushed_total_def)
  with t(1,2,4) e(1,2,6) assms show ?thesis
    by (auto simp: collector_inv_def same_service_def intro: all_offered_enqueued)
qed

lemma handle_inv:
  assumes "collector_inv c"
    and "key_order (a_flows (col_agg (snd (observe_raw uni fs raw now c)))) ks"
  shows "\<exists>c' r. handle uni fs ks raw now c = Some c' \<and> collector_inv c' \<and> event_result c c' r
     \<and> r \<in> {resultAccepted, resultFiltered, resultDecodeError} \<and> same_service c c'"
proof -
  obtain full d where o: "observe_raw uni fs raw now c = (full, d)" by (metis surj_pair)
  note d = observe_raw_inv [OF assms(1), of uni fs raw now, unfolded o snd_conv fst_conv]
  obtain r where r: "event_result c d r" "r \<in> {resultAccepted, resultFiltered, resultDecodeError}"
    using d(6) by blast
  show ?thesis
  proof (cases full)
    case True
    have "\<exists>c'. flush ks d = Some c' \<and> collector_inv c' \<and> m_Events c' = m_Events d
        \<and> col_agg c' = NewAggregator \<and> col_dns c' = col_dns d \<and> same_service d c'"
      using assms d(1-4) o by (intro flush_inv) (simp_all add: collector_inv_def)
    then obtain c' where "flush ks d = Some c'" "collector_inv c'" "m_Events c' = m_Events d" "same_service d c'"
      by blast
    with True o r d(1-3) show ?thesis
      by (intro exI [of _ c'] exI [of _ r]) (simp add: handle_def event_result_def same_service_def)
  next
    case False
    with d assms(1) have "collector_inv d" by (simp add: collector_inv_def)
    moreover have "same_service c d"
      using d(1-3) assms(1) by (auto simp: same_service_def collector_inv_def intro: enqueued_refl)
    ultimately show ?thesis using False o r
      by (intro exI [of _ d] exI [of _ r]) (simp add: handle_def)
  qed
qed

lemma cache_answers_inv:
  assumes "cache_ok d"
  shows "cache_ok (fst (cache_answers as now d c)) \<and> (\<exists>f. snd (cache_answers as now d c) = c\<lparr>m_DNSAnswers := f\<rparr>)"
  using assms
proof (induction as now d c rule: cache_answers.induct)
  case (1 now d c)
  then show ?case by (auto intro: exI [of _ "m_DNSAnswers c"])
next
  case (2 a as now d c)
  obtain stored d' where p: "Cache_Put (a_IP a) (a_Name a) (int (unat (a_TTL a)) * second) now d = (stored, d')"
    by (metis surj_pair)
  have "cache_ok d'" using cache_ok_Put [OF 2(2)] p by (metis snd_conv)
  from 2(1) [OF p [symmetric] this] p show ?case by (auto simp: count_dns_def)
qed

lemma collector_inv_dns:
  "\<lbrakk>collector_inv c; \<forall>d. dns = Some d \<longrightarrow> cache_ok d\<rbrakk> \<Longrightarrow>
     collector_inv (c\<lparr>m_DNSAnswers := f, col_dns := dns, m_DNSCacheEntries := n\<rparr>)
     \<and> collector_inv (c\<lparr>m_DNSAnswers := f, col_dns := dns\<rparr>) \<and> collector_inv (c\<lparr>m_DNSAnswers := f\<rparr>)
     \<and> collector_inv (c\<lparr>col_dns := dns, m_DNSCacheEntries := n\<rparr>)"
  by (simp add: collector_inv_def)

lemma handleDNS_inv:
  assumes "collector_inv c" and "handleDNS uni P raw now c = Some c'"
  shows "collector_inv c'"
proof (cases "DecodeDNS uni P raw")
  case None
  with assms show ?thesis by (simp add: handleDNS_def)
next
  case (Some res)
  show ?thesis
  proof (cases res)
    case (Inl err)
    with Some assms show ?thesis
      using collector_inv_dns [OF assms(1), of None] by (auto simp: handleDNS_def count_dns_def)
  next
    case (Inr answers)
    show ?thesis
    proof (cases "col_dns c")
      case None
      with Some Inr assms show ?thesis by (auto simp: handleDNS_def split: if_splits)
    next
      case d: (Some d)
      then have "cache_ok d" using assms(1) by (simp add: collector_inv_def)
      from cache_answers_inv [OF this, of answers now c]
      have "cache_ok (fst (cache_answers answers now d c))"
        and "\<exists>f. snd (cache_answers answers now d c) = c\<lparr>m_DNSAnswers := f\<rparr>" by simp_all
      with Some Inr d assms(2) show ?thesis
        using collector_inv_dns [OF assms(1), of "Some (fst (cache_answers answers now d c))"]
        by (auto simp: handleDNS_def split: prod.splits)
    qed
  qed
qed

lemma flush_tick_inv:
  assumes "collector_inv c" and "key_order (a_flows (col_agg c)) ks"
  shows "\<exists>c'. flush_tick ks now c = Some c' \<and> collector_inv c' \<and> col_agg c' = NewAggregator \<and> same_service c c'"
proof -
  have "\<exists>c'. flush ks c = Some c' \<and> collector_inv c' \<and> m_Events c' = m_Events c
      \<and> col_agg c' = NewAggregator \<and> col_dns c' = col_dns c \<and> same_service c c'"
    using assms by (intro flush_inv) (simp_all add: collector_inv_def)
  then obtain c1 where c1: "flush ks c = Some c1" "collector_inv c1" "col_agg c1 = NewAggregator" "same_service c c1"
    by blast
  show ?thesis
  proof (cases "col_dns c1")
    case None
    with c1 show ?thesis by (simp add: flush_tick_def)
  next
    case (Some d)
    with c1(2) have "cache_ok (sweepLocked now d)" by (simp add: collector_inv_def cache_ok_sweep)
    with c1 Some show ?thesis
      using collector_inv_dns [OF c1(2), of "Some (sweepLocked now d)" "Cache_Len (sweepLocked now d)"]
      by (simp add: flush_tick_def Cache_Sweep_def Let_def Cache_Len_def same_service_def)
  qed
qed

text \<open>One iteration of each loop returns and keeps the invariant and the sender's goroutines.\<close>

lemma raw_order_exists: "\<exists>ks. raw_order uni fs rd now c ks"
  using key_order_exists by (cases rd) (auto simp: raw_order_def)

lemma Run_event_inv:
  assumes "collector_inv c" and "raw_order uni fs rd now c ks"
  shows "\<exists>c'. Run_event uni fs ks rd now c = Some c' \<and> collector_inv c' \<and> same_service c c'"
proof (cases rd)
  case None
  have "sender_inv (col_sender c)" using assms(1) by (simp add: collector_inv_def)
  from enqueued_refl [OF this] have "same_service c (count_event resultReadError c)"
    by (auto simp: same_service_def)
  moreover have "collector_inv (count_event resultReadError c)"
    using assms(1) by (simp add: collector_inv_def result_defs)
  ultimately show ?thesis using None by (simp add: Run_event_def)
next
  case (Some raw)
  with assms handle_inv [OF assms(1), of uni fs raw now ks] show ?thesis
    by (auto simp: raw_order_def Run_event_def)
qed

lemma cache_answers_same:
  "cache_answers as now d c = (d', c') \<Longrightarrow>
     col_agg c' = col_agg c \<and> col_sender c' = col_sender c \<and> col_cfg c' = col_cfg c"
  by (induction as now d c arbitrary: d' c' rule: cache_answers.induct) (auto split: prod.splits)

definition same_but_dns :: "Collector \<Rightarrow> Collector \<Rightarrow> bool" where
  "same_but_dns c c' \<longleftrightarrow> col_agg c' = col_agg c \<and> col_sender c' = col_sender c \<and> col_cfg c' = col_cfg c
     \<and> (col_dns c' = None \<longleftrightarrow> col_dns c = None)"

lemma handleDNS_same:
  assumes "handleDNS uni P raw now c = Some c'"
  shows "same_but_dns c c'"
proof -
  consider "c' = c" | r where "c' = count_dns r c"
    | d as d' c1 where "col_dns c = Some d" "cache_answers as now d c = (d', c1)" "c' = c1\<lparr>col_dns := Some d'\<rparr>"
    using assms by (auto simp only: handleDNS_def split: option.splits sum.splits prod.splits if_splits)
  then show ?thesis
  proof cases
    case (3 d as d' c1)
    with cache_answers_same [OF 3(2)] show ?thesis by (simp add: same_but_dns_def)
  qed (simp_all add: same_but_dns_def)
qed

lemma RunDNS_record_same:
  assumes "RunDNS_record uni P rd now c = Some c'"
  shows "same_but_dns c c'"
proof -
  consider "c' = c" | "c' = count_dns resultReadError c" | raw where "handleDNS uni P raw now c = Some c'"
    using assms unfolding RunDNS_record_def by (cases "col_dns c"; cases rd) simp_all
  then show ?thesis
  proof cases
    case (3 raw)
    then show ?thesis by (rule handleDNS_same)
  qed (simp_all add: same_but_dns_def)
qed

lemma RunDNS_record_inv:
  assumes "collector_inv c" and "RunDNS_record uni P rd now c = Some c'"
  shows "collector_inv c' \<and> same_service c c'"
proof
  show "collector_inv c'"
    using assms by (auto simp: RunDNS_record_def split: option.splits intro: handleDNS_inv)
      (simp add: collector_inv_def)
  have "sender_inv (col_sender c)" using assms(1) by (simp add: collector_inv_def)
  with RunDNS_record_same [OF assms(2)] show "same_service c c'"
    by (auto simp: same_service_def same_but_dns_def intro: enqueued_refl)
qed

lemma deliver_inv:
  assumes "collector_inv c" and "sender_step (col_sender c) s"
    and "s_producers s = s_producers (col_sender c)" and "g_pushed s = g_pushed (col_sender c)"
  shows "collector_inv (c\<lparr>col_sender := s\<rparr>)"
proof -
  have "g_offered s = g_offered (col_sender c)" using assms(2,3) by (auto elim!: sender_stepE)
  with assms show ?thesis
    by (auto simp: collector_inv_def pushed_total_def all_offered_def sender_step_cap intro: sender_step_inv)
qed

lemma collector_step_inv: "\<lbrakk>collector_step uni P c c'; collector_inv c\<rbrakk> \<Longrightarrow> collector_inv c'"
proof (erule collector_stepE)
  fix fs rd now ks
  assume "collector_inv c" "raw_order uni fs rd now c ks" "Run_event uni fs ks rd now c = Some c'"
  then show "collector_inv c'" using Run_event_inv [of c uni fs rd now ks] by auto
next
  fix ks now
  assume "collector_inv c" "key_order (a_flows (col_agg c)) ks" "flush_tick ks now c = Some c'"
  then show "collector_inv c'" using flush_tick_inv [of c ks now] by auto
qed (auto dest: RunDNS_record_inv intro: deliver_inv)

section \<open>How old a cached pod UID can be\<close>

fun uid_run :: "unicode_lower \<Rightarrow> (gotime \<times> 32 word \<times> procfs) list \<Rightarrow> Collector \<Rightarrow> string list" where
  \<comment> \<open>the results of successive calls of \<open>podUID\<close>, each with the procfs of its time\<close>
  "uid_run uni [] c = []"
| "uid_run uni ((t, pid, fs) # es) c =
     (case podUID uni fs pid t c of (uid, c) \<Rightarrow> uid # uid_run uni es c)"

definition read_recently ::
  "unicode_lower \<Rightarrow> string \<Rightarrow> (gotime \<times> 32 word \<times> procfs) list \<Rightarrow> gotime \<Rightarrow> 32 word \<Rightarrow> string \<Rightarrow> bool" where
  \<comment> \<open>a call of \<open>h\<close> for this pid at or after \<open>t\<close> would have read this UID\<close>
  "read_recently uni root h t pid uid \<longleftrightarrow>
     (\<exists>u fs. (u, pid, fs) \<in> set h \<and> t \<le> u \<and> uid = fst (PodUIDForPID uni fs root pid))"

definition pid_cache_from :: "unicode_lower \<Rightarrow> (gotime \<times> 32 word \<times> procfs) list \<Rightarrow> Collector \<Rightarrow> bool" where
  "pid_cache_from uni h c \<longleftrightarrow>
     (\<forall>pid uid. fmlookup (pidUIDs c) pid = Some uid \<longrightarrow>
        read_recently uni (ProcRoot (col_cfg c)) h (pidUIDsSince c) pid uid)"

lemma read_recently_mono:
  assumes "read_recently uni root h t pid uid" and "set h \<subseteq> set h'" and "t' \<le> t"
  shows "read_recently uni root h' t' pid uid"
proof -
  from assms(1) obtain u fs where "(u, pid, fs) \<in> set h" "t \<le> u" "uid = fst (PodUIDForPID uni fs root pid)"
    by (auto simp: read_recently_def)
  then have "(u, pid, fs) \<in> set h' \<and> t' \<le> u \<and> uid = fst (PodUIDForPID uni fs root pid)"
    using assms(2,3) by auto
  then show ?thesis unfolding read_recently_def by blast
qed

lemma pid_cache_from_append: "pid_cache_from uni h c \<Longrightarrow> pid_cache_from uni (h @ k) c"
  unfolding pid_cache_from_def
proof (intro allI impI)
  fix pid uid
  assume "\<forall>pid uid. fmlookup (pidUIDs c) pid = Some uid \<longrightarrow>
      read_recently uni (ProcRoot (col_cfg c)) h (pidUIDsSince c) pid uid"
    and "fmlookup (pidUIDs c) pid = Some uid"
  then have "read_recently uni (ProcRoot (col_cfg c)) h (pidUIDsSince c) pid uid" by blast
  then show "read_recently uni (ProcRoot (col_cfg c)) (h @ k) (pidUIDsSince c) pid uid"
    by (rule read_recently_mono) auto
qed

lemma pidCacheTTL_range: "min_duration < pidCacheTTL" "pidCacheTTL \<le> max_duration"
  by (simp_all add: pidCacheTTL_def go_defs)

lemma podUID_step:
  fixes fs :: procfs
  assumes c: "pid_cache_from uni h c" and pid: "pid \<noteq> 0" and t: "pidUIDsSince c \<le> now"
  defines "root \<equiv> ProcRoot (col_cfg c)" and "h' \<equiv> h @ [(now, pid, fs)]" and "r \<equiv> podUID uni fs pid now c"
  shows "read_recently uni root h' (now - pidCacheTTL + 1) pid (fst r)"
    and "pid_cache_from uni h' (snd r)" and "pidUIDsSince (snd r) \<le> now"
proof -
  have here: "read_recently uni root h' u pid (fst (PodUIDForPID uni fs root pid))" if "u \<le> now" for u
    using that by (auto simp: read_recently_def h'_def)
  have pos: "now - pidCacheTTL + 1 \<le> now" by (simp add: pidCacheTTL_def second_def)
  have "read_recently uni root h' (now - pidCacheTTL + 1) pid (fst r) \<and> pid_cache_from uni h' (snd r)
      \<and> pidUIDsSince (snd r) \<le> now"
  proof (cases "pidCacheTTL \<le> time_sub now (pidUIDsSince c)")
    case True
    with pid here [OF pos] here [of now] show ?thesis
      by (simp add: r_def podUID_def pid_cache_from_def Let_def root_def)
  next
    case False
    then have since: "now - pidCacheTTL + 1 \<le> pidUIDsSince c"
      using time_sub_less_iff [OF pidCacheTTL_range, of now "pidUIDsSince c"] by simp
    have old: "read_recently uni root h' (pidUIDsSince c) p uid" if "fmlookup (pidUIDs c) p = Some uid" for p uid
      using pid_cache_from_append [OF c, of "[(now, pid, fs)]"] that
      unfolding pid_cache_from_def root_def h'_def by blast
    show ?thesis
    proof (cases "fmlookup (pidUIDs c) pid")
      case (Some uid)
      have "read_recently uni root h' (now - pidCacheTTL + 1) pid uid"
        by (rule read_recently_mono [OF old [OF Some] subset_refl since])
      with Some False pid old t show ?thesis by (simp add: r_def podUID_def pid_cache_from_def Let_def root_def)
    next
      case None
      with False pid old t here [OF pos] here [OF t] show ?thesis
        by (simp add: r_def podUID_def pid_cache_from_def Let_def root_def)
    qed
  qed
  then show "read_recently uni root h' (now - pidCacheTTL + 1) pid (fst r)"
    "pid_cache_from uni h' (snd r)" "pidUIDsSince (snd r) \<le> now" by simp_all
qed

lemma uid_run_recent:
  assumes "pid_cache_from uni h c" and "sorted (map fst es)" and "\<forall>e \<in> set es. pidUIDsSince c \<le> fst e"
    and "i < length es" and "es ! i = (t, pid, fs)" and "pid \<noteq> 0"
  shows "read_recently uni (ProcRoot (col_cfg c)) (h @ take (Suc i) es) (t - pidCacheTTL + 1) pid
           (uid_run uni es c ! i)"
  using assms
proof (induction es arbitrary: h c i)
  case Nil
  then show ?case by simp
next
  case (Cons e es)
  obtain now p fs' where e: "e = (now, p, fs')" by (metis prod_cases3)
  obtain uid d where r: "podUID uni fs' p now c = (uid, d)" by (metis surj_pair)
  have cfg: "col_cfg d = col_cfg c" using podUID_simps(1) [of uni fs' p now c] r by simp
  have now: "pidUIDsSince c \<le> now" using Cons.prems(3) e by simp
  have step: "pid_cache_from uni (h @ [e]) d \<and> pidUIDsSince d \<le> now"
  proof (cases "p = 0")
    case True
    with r have "d = c" by (simp add: podUID_def)
    with Cons.prems(1) now show ?thesis by (simp add: pid_cache_from_append)
  next
    case False
    from podUID_step(2,3) [OF Cons.prems(1) this now, of fs'] r e show ?thesis by simp
  qed
  show ?case
  proof (cases i)
    case 0
    with Cons.prems(5) e have same: "now = t" "p = pid" "fs' = fs" by auto
    from podUID_step(1) [OF Cons.prems(1,6) now [unfolded same], of fs] r 0 e same show ?thesis by simp
  next
    case (Suc j)
    have "\<forall>e \<in> set es. pidUIDsSince d \<le> fst e" using Cons.prems(2) e step by force
    with Cons.IH [of "h @ [e]" d j] Cons.prems step e r cfg Suc show ?thesis by simp
  qed
qed

section \<open>Properties\<close>

text \<open>Handling a raw record always returns, keeps the collector's invariant, and counts
  the record under exactly one of the results accepted, filtered and decode error: short
  or unknown records are decode errors, node-local traffic is filtered, the rest is accepted.\<close>

lemma handle_counts_once:
  assumes "collector_inv c"
    and "key_order (a_flows (col_agg (snd (observe_raw uni fs raw now c)))) ks"
  shows "\<exists>c'. handle uni fs ks raw now c = Some c' \<and> collector_inv c'
    \<and> event_result c c'
        (case Decode raw of Inl err \<Rightarrow> resultDecodeError
         | Inr ev \<Rightarrow> if node_local ev then resultFiltered else resultAccepted)"
proof -
  obtain c' r where c': "handle uni fs ks raw now c = Some c'" "collector_inv c'" "event_result c c' r"
    using handle_inv [OF assms] by blast
  obtain full d where o: "observe_raw uni fs raw now c = (full, d)" by (metis surj_pair)
  have "m_Events c' = m_Events d"
    using c'(1) o by (auto simp: handle_def flush_def split: if_splits prod.splits option.splits)
  moreover have "event_result c d (case Decode raw of Inl err \<Rightarrow> resultDecodeError
      | Inr ev \<Rightarrow> if node_local ev then resultFiltered else resultAccepted)"
  proof (cases rule: observe_raw_cases [of raw uni fs now c])
    case (bad err)
    then have "d = count_event resultDecodeError c" using o by simp
    with bad(1) show ?thesis by (simp add: event_result_def)
  next
    case (filtered ev)
    then have "d = count_event resultFiltered c" using o by simp
    with filtered(1,2) show ?thesis by (simp add: event_result_def)
  next
    case (accepted ev ev' e)
    have "m_Events e = m_Events c"
      using attribute_source_simps(5) [of uni fs "Canonical ev" now c] accepted(3) by simp
    with accepted o show ?thesis by (auto simp: event_result_def)
  qed
  ultimately show ?thesis using c' by (auto simp: event_result_def)
qed

definition sample_collector :: Collector where
  "sample_collector = Collector_New \<lparr>ProcRoot = ''/proc'', FlushInterval = second, MaxBatch = 10\<rparr> None (NewSender 4)"

lemma sample_collector_inv: "collector_inv sample_collector"
  unfolding sample_collector_def by (rule collector_inv_New) simp_all

text \<open>A flush cuts what it drained into consecutive batches of at least one and at most
  \<open>MaxBatch\<close> records, queues them in order, and returns; with a batch size that is not
  positive the loop never returns unless there is nothing to send, which is why the
  command refuses such a flag.\<close>

lemma flush_batches:
  "(0 < mb \<and> 0 < s_cap s \<and> sender_inv s \<longrightarrow>
      (\<exists>t bs. flush_loop mb rs s = Some t \<and> g_pushed t = g_pushed s @ bs \<and> concat bs = rs
         \<and> (\<forall>b \<in> set bs. 0 < length b \<and> int (length b) \<le> mb) \<and> sender_inv t))
   \<and> (mb \<le> 0 \<and> rs \<noteq> [] \<longrightarrow> flush_loop mb rs s = None)"
proof (intro conjI impI)
  assume "0 < mb \<and> 0 < s_cap s \<and> sender_inv s"
  then show "\<exists>t bs. flush_loop mb rs s = Some t \<and> g_pushed t = g_pushed s @ bs \<and> concat bs = rs
      \<and> (\<forall>b \<in> set bs. 0 < length b \<and> int (length b) \<le> mb) \<and> sender_inv t"
    using flush_loop_result [of mb s rs] unfolding batch_sizes_def by (metis enqueuedD(1,6))
next
  assume mb: "mb \<le> 0 \<and> rs \<noteq> []"
  show "flush_loop mb rs s = None"
  proof (cases "flush_loop mb rs s")
    case (Some t)
    with flush_loop_stuck [OF Some] mb show ?thesis by simp
  qed simp
qed

text \<open>C27. A cached pod UID is never stale by ten seconds: with times that do not go back, the
  UID a call returns for a process is what reading the procfs of a call at most ten
  seconds earlier for the same PID gives (its own, on a miss).\<close>

theorem podUID_recent:
  assumes "sorted (map fst es)" and "\<forall>e \<in> set es. zero_time \<le> fst e"
    and "i < length es" and "es ! i = (t, pid, fs)" and "pid \<noteq> 0"
  shows "\<exists>u fs'. (u, pid, fs') \<in> set (take (Suc i) es) \<and> t - u < 10 * second
    \<and> uid_run uni es (Collector_New cfg dns s) ! i = fst (PodUIDForPID uni fs' (ProcRoot cfg) pid)"
proof -
  let ?c = "Collector_New cfg dns s"
  have "pid_cache_from uni [] ?c" by (simp add: pid_cache_from_def Collector_New_def)
  moreover have "\<forall>e \<in> set es. pidUIDsSince ?c \<le> fst e" using assms(2) by (simp add: Collector_New_def)
  ultimately have "read_recently uni (ProcRoot cfg) (take (Suc i) es) (t - pidCacheTTL + 1) pid (uid_run uni es ?c ! i)"
    using uid_run_recent [of uni "[]" ?c es i t pid fs] assms by (simp add: Collector_New_def)
  then show ?thesis by (fastforce simp: read_recently_def pidCacheTTL_def)
qed

theorem podUID_recent_witness:
  "\<exists>u fs'. (u, 7, fs') \<in> set [(0, 7, \<lambda>_ :: string list. None), (5, 7, \<lambda>_. Some ''x'')] \<and> 5 - u < 10 * second
     \<and> uid_run (\<lambda>s. s) [(0, 7, \<lambda>_. None), (5, 7, \<lambda>_. Some ''x'')] sample_collector ! 1
         = fst (PodUIDForPID (\<lambda>s. s) fs' ''/proc'' 7)"
  using podUID_recent [of "[(0, 7, \<lambda>_ :: string list. None), (5, 7, \<lambda>_. Some ''x'')]" 1 5 7 "\<lambda>_. Some ''x''"
      "\<lambda>s. s" "\<lparr>ProcRoot = ''/proc'', FlushInterval = second, MaxBatch = 10\<rparr>" None "NewSender 4"]
  by (simp add: sample_collector_def zero_time_def)

end
