(* ===== verification/Workload_Cache.thy ===== *)
theory Workload_Cache
  imports Model Interfaces
begin

text \<open>
  \<open>internal/resolver/resolver.go\<close>: the cache the informers feed and the pipeline
  reads, three maps behind one lock, so each method is one atomic function of the
  state; \<open>WorkloadForIP\<close>, the fallback to an external peer; \<open>ResolveTopOwner\<close>, the
  bounded walk up the ownership chain. A lookup returns \<open>Some\<close> for \<open>ok = true\<close>. The
  three indexes are interpreted as \<open>keyed_store\<close>s.
\<close>

section \<open>State and operations\<close>

record portKey =
  pk_ip :: addr
  pk_port :: "16 word"

record WCache =
  byIP :: "(addr, Workload) fmap"
  byUID :: "(string, Workload) fmap"
  byPort :: "(portKey, string) fmap"

definition NewCache :: WCache where
  "NewCache = \<lparr>byIP = fmempty, byUID = fmempty, byPort = fmempty\<rparr>"

definition port_key :: "addr \<Rightarrow> 16 word \<Rightarrow> portKey" where
  "port_key ip port = \<lparr>pk_ip = unmap ip, pk_port = port\<rparr>"

definition LookupIP :: "WCache \<Rightarrow> addr \<Rightarrow> Workload option" where
  "LookupIP c ip = fmlookup (byIP c) (unmap ip)"

definition Upsert :: "addr \<Rightarrow> Workload \<Rightarrow> WCache \<Rightarrow> WCache" where
  "Upsert ip w c = c\<lparr>byIP := fmupd (unmap ip) w (byIP c)\<rparr>"

definition Delete :: "addr \<Rightarrow> WCache \<Rightarrow> WCache" where
  "Delete ip c = c\<lparr>byIP := fmdrop (unmap ip) (byIP c)\<rparr>"

definition LookupUID :: "WCache \<Rightarrow> string \<Rightarrow> Workload option" where
  "LookupUID c uid = fmlookup (byUID c) uid"

definition UpsertUID :: "string \<Rightarrow> Workload \<Rightarrow> WCache \<Rightarrow> WCache" where
  "UpsertUID uid w c = c\<lparr>byUID := fmupd uid w (byUID c)\<rparr>"

definition DeleteUID :: "string \<Rightarrow> WCache \<Rightarrow> WCache" where
  "DeleteUID uid c = c\<lparr>byUID := fmdrop uid (byUID c)\<rparr>"

definition LookupPort :: "WCache \<Rightarrow> addr \<Rightarrow> 16 word \<Rightarrow> string option" where
  "LookupPort c ip port = fmlookup (byPort c) (port_key ip port)"

definition UpsertPort :: "addr \<Rightarrow> 16 word \<Rightarrow> string \<Rightarrow> WCache \<Rightarrow> WCache" where
  "UpsertPort ip port l7 c =
     (let k = port_key ip port
      in if l7 = [] then c\<lparr>byPort := fmdrop k (byPort c)\<rparr>
         else c\<lparr>byPort := fmupd k l7 (byPort c)\<rparr>)"

definition DeletePort :: "addr \<Rightarrow> 16 word \<Rightarrow> WCache \<Rightarrow> WCache" where
  "DeletePort ip port c = c\<lparr>byPort := fmdrop (port_key ip port) (byPort c)\<rparr>"

definition WCache_Len :: "WCache \<Rightarrow> nat" where
  "WCache_Len c = map_len (byIP c)"

definition WorkloadForIP :: "(addr \<Rightarrow> Workload option) \<Rightarrow> addr \<Rightarrow> Workload" where
  "WorkloadForIP store ip =
     (case store ip of
        Some w \<Rightarrow> w
      | None \<Rightarrow> \<lparr>w_Name = addr_string ip, w_Namespace = [], w_Kind = KindExternal\<rparr>)"

section \<open>The ownership walk\<close>

type_synonym owner_lookup = "string \<Rightarrow> string \<Rightarrow> string \<Rightarrow> (string \<times> string) option"

definition maxOwnerDepth :: nat where "maxOwnerDepth = 10"

fun owner_walk :: "nat \<Rightarrow> owner_lookup \<Rightarrow> string \<Rightarrow> string \<Rightarrow> string \<Rightarrow> string \<times> string" where
  \<comment> \<open>at most \<open>n\<close> more iterations\<close>
  "owner_walk 0 l kind namespace name = (kind, name)"
| "owner_walk (Suc n) l kind namespace name =
     (case l kind namespace name of
        None \<Rightarrow> (kind, name)
      | Some (ownerKind, ownerName) \<Rightarrow> owner_walk n l ownerKind namespace ownerName)"

definition ResolveTopOwner :: "string \<Rightarrow> string \<Rightarrow> string \<Rightarrow> owner_lookup \<Rightarrow> Workload" where
  "ResolveTopOwner kind namespace name l =
     (case owner_walk maxOwnerDepth l kind namespace name of
        (kind, name) \<Rightarrow> \<lparr>w_Name = name, w_Namespace = namespace, w_Kind = kind\<rparr>)"

text \<open>
  The specification: \<open>owns l ns n x y\<close> climbs \<open>n\<close> controller links from \<open>x\<close> to \<open>y\<close>.
\<close>

inductive owns ::
  "owner_lookup \<Rightarrow> string \<Rightarrow> nat \<Rightarrow> string \<times> string \<Rightarrow> string \<times> string \<Rightarrow> bool" for l ns where
  self: "owns l ns 0 x x"
| up: "\<lbrakk>l (fst x) ns (snd x) = Some y; owns l ns n y z\<rbrakk> \<Longrightarrow> owns l ns (Suc n) x z"

inductive_cases owns_SucE: "owns l ns (Suc n) x z"
inductive_cases owns_0E: "owns l ns 0 x z"

definition top_level :: "owner_lookup \<Rightarrow> string \<Rightarrow> string \<times> string \<Rightarrow> bool" where
  "top_level l ns x \<longleftrightarrow> l (fst x) ns (snd x) = None"

section \<open>Facts\<close>

lemma owner_walk_owns:
  "\<exists>k \<le> n. owns l ns k (kind, name) (owner_walk n l kind ns name)
     \<and> (k < n \<longrightarrow> top_level l ns (owner_walk n l kind ns name))"
proof (induction n l kind ns name rule: owner_walk.induct)
  case (1 l kind ns name)
  show ?case by (auto intro: owns.self)
next
  case (2 n l kind ns name)
  show ?case
  proof (cases "l kind ns name")
    case None
    then show ?thesis by (auto intro!: exI [of _ 0] owns.self simp: top_level_def)
  next
    case (Some y)
    obtain ok on where y: "y = (ok, on)" by (cases y)
    from 2 [OF Some, of ok on] y obtain k where k: "k \<le> n" "owns l ns k (ok, on) (owner_walk n l ok ns on)"
      "k < n \<longrightarrow> top_level l ns (owner_walk n l ok ns on)" by auto
    have "owns l ns (Suc k) (kind, name) (owner_walk n l ok ns on)"
      using Some y k(2) by (intro owns.up [where y = "(ok, on)"]) auto
    with Some y k show ?thesis by (intro exI [of _ "Suc k"]) simp
  qed
qed

lemma owner_walk_reaches:
  "\<lbrakk>owns l ns k (kind, name) z; top_level l ns z; k \<le> n\<rbrakk> \<Longrightarrow> owner_walk n l kind ns name = z"
proof (induction n arbitrary: k kind name)
  case 0
  then show ?case by (auto elim: owns_0E)
next
  case (Suc n)
  show ?case
  proof (cases k)
    case 0
    with Suc.prems show ?thesis by (auto elim!: owns_0E simp: top_level_def)
  next
    case (Suc j)
    with Suc.prems Suc.IH [of j] show ?thesis by (auto elim!: owns_SucE split: prod.split)
  qed
qed

lemmas cache_defs =
  LookupIP_def Upsert_def Delete_def LookupUID_def UpsertUID_def DeleteUID_def LookupPort_def
  UpsertPort_def DeletePort_def

lemma port_key_eq: "port_key ip p = port_key ip' p' \<longleftrightarrow> unmap ip = unmap ip' \<and> p = p'"
  by (simp add: port_key_def)

lemma other_index [simp]:
  "LookupUID (Upsert ip w c) uid = LookupUID c uid" "LookupUID (Delete ip c) uid = LookupUID c uid"
  "LookupPort (Upsert ip w c) ip' p = LookupPort c ip' p" "LookupPort (Delete ip c) ip' p = LookupPort c ip' p"
  "LookupIP (UpsertUID uid w c) ip = LookupIP c ip" "LookupIP (DeleteUID uid c) ip = LookupIP c ip"
  "LookupIP (UpsertPort ip' p l7 c) ip = LookupIP c ip" "LookupIP (DeletePort ip' p c) ip = LookupIP c ip"
  "LookupUID (UpsertPort ip' p l7 c) uid = LookupUID c uid" "LookupUID (DeletePort ip' p c) uid = LookupUID c uid"
  "LookupPort (UpsertUID uid w c) ip p = LookupPort c ip p" "LookupPort (DeleteUID uid c) ip p = LookupPort c ip p"
  by (simp_all add: cache_defs Let_def)

lemma LookupIP_unmap [simp]: "LookupIP c (unmap ip) = LookupIP c ip"
  by (simp add: LookupIP_def)

section \<open>The three indexes are keyed stores\<close>

text \<open>
  The port index is addressed by pairs, and writing an empty protocol clears.
\<close>

definition lookup_port :: "WCache \<Rightarrow> addr \<times> 16 word \<Rightarrow> string option" where
  "lookup_port c k = LookupPort c (fst k) (snd k)"

definition upsert_port :: "addr \<times> 16 word \<Rightarrow> string \<Rightarrow> WCache \<Rightarrow> WCache" where
  "upsert_port k l7 = UpsertPort (fst k) (snd k) l7"

definition delete_port :: "addr \<times> 16 word \<Rightarrow> WCache \<Rightarrow> WCache" where
  "delete_port k = DeletePort (fst k) (snd k)"

definition norm_port :: "addr \<times> 16 word \<Rightarrow> portKey" where
  "norm_port k = port_key (fst k) (snd k)"

definition l7_val :: "string \<Rightarrow> string option" where
  "l7_val l7 = (if l7 = [] then None else Some l7)"

lemmas port_store_defs = lookup_port_def upsert_port_def delete_port_def norm_port_def l7_val_def

interpretation ips: keyed_store unmap Some LookupIP Upsert Delete
  by unfold_locales (auto simp: cache_defs)

interpretation uids: keyed_store "\<lambda>u. u" Some LookupUID UpsertUID DeleteUID
  by unfold_locales (auto simp: cache_defs)

interpretation ports: keyed_store norm_port l7_val lookup_port upsert_port delete_port
  by unfold_locales (auto simp: cache_defs port_store_defs Let_def)

section \<open>Properties\<close>


definition sample_owners :: owner_lookup where
  "sample_owners kind ns name =
     (if kind = ''Pod'' then Some (''ReplicaSet'', ''web-7d'')
      else if kind = ''ReplicaSet'' then Some (''Deployment'', ''web'') else None)"


end
