(* ===== verification/Dedup.thy ===== *)
theory Dedup
  imports Model Interfaces
begin

text \<open>
  \<open>internal/dedup/dedup.go\<close>: the time-windowed suppression of identical edges.
  \<open>Allow\<close> and \<open>Sweep\<close> hold the mutex for their bodies, so each is one atomic
  function of the state; a run is a schedule of such calls (\<open>timed_run\<close>).
\<close>

section \<open>State and operations\<close>

record Deduper =
  d_window :: duration
  d_seen :: "(string, gotime) fmap"

definition Dedup_New :: "duration \<Rightarrow> Deduper" where
  "Dedup_New window = \<lparr>d_window = window, d_seen = fmempty\<rparr>"

definition dedup_key :: "ServiceCall \<Rightarrow> string" where
  "dedup_key sc =
     w_Namespace (sc_Source sc) @ ''/'' @ w_Name (sc_Source sc) @ ''|''
     @ w_Namespace (sc_Dest sc) @ ''/'' @ w_Name (sc_Dest sc) @ ''|''
     @ show_dec (unat (sc_DestPort sc)) @ ''|'' @ show_dec (unat (sc_DestProtocol sc))"

definition Allow :: "ServiceCall \<Rightarrow> gotime \<Rightarrow> Deduper \<Rightarrow> bool \<times> Deduper" where
  "Allow sc now d =
     (if d_window d \<le> 0 then (True, d)
      else
        let k = dedup_key sc in
        case fmlookup (d_seen d) k of
          Some prev \<Rightarrow>
            if time_sub now prev < d_window d then (False, d)
            else (True, d\<lparr>d_seen := fmupd k now (d_seen d)\<rparr>)
        | None \<Rightarrow> (True, d\<lparr>d_seen := fmupd k now (d_seen d)\<rparr>))"

definition Dedup_Sweep :: "gotime \<Rightarrow> Deduper \<Rightarrow> nat \<times> Deduper" where
  "Dedup_Sweep now d =
     (if d_window d \<le> 0 then (0, d)
      else
        let seen' = keep_where (\<lambda>prev. \<not> d_window d \<le> time_sub now prev) (d_seen d)
        in (map_len (d_seen d) - map_len seen', d\<lparr>d_seen := seen'\<rparr>))"

text \<open>What later calls can learn from the state: is the key suppressed at time \<open>t\<close>?\<close>

definition suppressed :: "Deduper \<Rightarrow> string \<Rightarrow> gotime \<Rightarrow> unit option" where
  "suppressed d k t =
     (case fmlookup (d_seen d) k of
        None \<Rightarrow> None
      | Some prev \<Rightarrow> if time_sub t prev < d_window d then Some () else None)"

definition dedup_ok :: "Deduper \<Rightarrow> bool" where
  \<comment> \<open>the window is a 64-bit \<open>Duration\<close>\<close>
  "dedup_ok d \<longleftrightarrow> d_window d \<le> max_duration"

definition dedup_sweep :: "gotime \<Rightarrow> Deduper \<Rightarrow> Deduper" where
  "dedup_sweep now d = snd (Dedup_Sweep now d)"

definition edge_id :: "ServiceCall \<Rightarrow> string \<times> string \<times> string \<times> string \<times> 16 word \<times> protocol" where
  "edge_id sc = (w_Namespace (sc_Source sc), w_Name (sc_Source sc),
     w_Namespace (sc_Dest sc), w_Name (sc_Dest sc), sc_DestPort sc, sc_DestProtocol sc)"

definition plain_names :: "ServiceCall \<Rightarrow> bool" where
  \<comment> \<open>no namespace has a slash, no name a bar (Kubernetes names have neither)\<close>
  "plain_names sc \<longleftrightarrow>
     CHR ''/'' \<notin> set (w_Namespace (sc_Source sc)) \<and> CHR ''|'' \<notin> set (w_Name (sc_Source sc)) \<and>
     CHR ''/'' \<notin> set (w_Namespace (sc_Dest sc)) \<and> CHR ''|'' \<notin> set (w_Name (sc_Dest sc))"

section \<open>Facts\<close>

lemma d_window_Allow [simp]: "d_window (snd (Allow sc now d)) = d_window d"
  by (simp add: Allow_def Let_def split: option.split)

lemma d_window_sweep [simp]: "d_window (dedup_sweep now d) = d_window d"
  by (simp add: dedup_sweep_def Dedup_Sweep_def Let_def)

lemma window_passed:
  assumes "0 < w" and "w \<le> max_duration"
  shows "time_sub t u < w \<longleftrightarrow> t < u + w"
  using assms by (intro time_sub_less_iff) (auto simp: min_duration_def)

lemma suppressed_iff:
  assumes "dedup_ok d" and "0 < d_window d"
  shows "suppressed d k t \<noteq> None \<longleftrightarrow> (\<exists>prev. fmlookup (d_seen d) k = Some prev \<and> t < prev + d_window d)"
  using assms by (auto simp: suppressed_def dedup_ok_def window_passed split: option.splits)

lemma Allow_result:
  "0 < d_window d \<Longrightarrow> fst (Allow sc now d) \<longleftrightarrow> suppressed d (dedup_key sc) now = None"
  by (simp add: Allow_def suppressed_def Let_def split: option.split)

lemma suppressed_Allow:
  assumes "dedup_ok d" and "0 < d_window d" and "now \<le> t"
  shows "suppressed (snd (Allow sc now d)) k t =
     (if k = dedup_key sc \<and> fst (Allow sc now d)
      then if t < now + d_window d then Some () else None
      else suppressed d k t)"
  using assms by (auto simp: Allow_def suppressed_def Let_def dedup_ok_def window_passed split: option.split)

lemma Allow_disabled: "d_window d \<le> 0 \<Longrightarrow> Allow sc now d = (True, d)"
  by (simp add: Allow_def)

lemma suppressed_sweep:
  assumes "dedup_ok d" and "now \<le> t"
  shows "suppressed (dedup_sweep now d) k t = suppressed d k t"
proof (cases "d_window d \<le> 0")
  case True
  then show ?thesis by (simp add: dedup_sweep_def Dedup_Sweep_def)
next
  case False
  have mono: "d_window d \<le> time_sub now prev \<Longrightarrow> d_window d \<le> time_sub t prev" for prev
    using assms False time_sub_ge_iff [of "d_window d" now prev]
      time_sub_ge_iff [of "d_window d" t prev]
    by (simp add: dedup_ok_def min_duration_def)
  show ?thesis
  proof (cases "fmlookup (d_seen d) k")
    case None
    then show ?thesis by (simp add: dedup_sweep_def Dedup_Sweep_def suppressed_def Let_def)
  next
    case (Some prev)
    with False mono [of prev] show ?thesis
      by (auto simp: dedup_sweep_def Dedup_Sweep_def suppressed_def Let_def not_less)
  qed
qed

lemma Dedup_Sweep_any_order:
  "key_order (d_seen d) ks \<Longrightarrow> 0 < d_window d \<Longrightarrow>
     dedup_sweep now d = d\<lparr>d_seen := delete_where (\<lambda>prev. d_window d \<le> time_sub now prev) ks (d_seen d)\<rparr>"
  by (simp add: dedup_sweep_def Dedup_Sweep_def Let_def delete_where_any_order)

lemma dedup_key_edge_id: "edge_id sc = edge_id sc' \<Longrightarrow> dedup_key sc = dedup_key sc'"
  by (simp add: edge_id_def dedup_key_def)

lemma split_at_char:
  assumes "(c :: char) \<notin> set a" and "c \<notin> set b" and "a @ c # x = b @ c # y"
  shows "a = b \<and> x = y"
proof -
  have "str_cut c (a @ c # x) = (a, x, True)" by (rule str_cut_hit) (rule assms(1))
  moreover have "str_cut c (b @ c # y) = (b, y, True)" by (rule str_cut_hit) (rule assms(2))
  ultimately have "(a, x, True) = (b, y, True)" using assms(3) by metis
  then show ?thesis by simp
qed

lemma bar_not_digit: "CHR ''|'' \<notin> set (show_dec n)"
  using show_dec_digits [of "CHR ''|''" n] by auto

lemma dedup_key_plain:
  assumes "plain_names sc" and "plain_names sc'" and eq: "dedup_key sc = dedup_key sc'"
  shows "edge_id sc = edge_id sc'"
proof -
  have p: "CHR ''/'' \<notin> set (w_Namespace (sc_Source x))" "CHR ''|'' \<notin> set (w_Name (sc_Source x))"
    "CHR ''/'' \<notin> set (w_Namespace (sc_Dest x))" "CHR ''|'' \<notin> set (w_Name (sc_Dest x))"
    if "plain_names x" for x
    using that by (simp_all add: plain_names_def)
  note e1 = eq [unfolded dedup_key_def append_Cons append_Nil]
  note s1 = split_at_char [OF p(1) [OF assms(1)] p(1) [OF assms(2)] e1]
  note s2 = split_at_char [OF p(2) [OF assms(1)] p(2) [OF assms(2)] conjunct2 [OF s1]]
  note s3 = split_at_char [OF p(3) [OF assms(1)] p(3) [OF assms(2)] conjunct2 [OF s2]]
  note s4 = split_at_char [OF p(4) [OF assms(1)] p(4) [OF assms(2)] conjunct2 [OF s3]]
  note s5 = split_at_char [OF bar_not_digit bar_not_digit conjunct2 [OF s4]]
  have "sc_DestPort sc = sc_DestPort sc'" "sc_DestProtocol sc = sc_DestProtocol sc'"
    by (rule unsigned_word_eqI [OF show_dec_inj [OF conjunct1 [OF s5]]])
      (rule unsigned_word_eqI [OF show_dec_inj [OF conjunct2 [OF s5]]])
  with s1 s2 s3 s4 show ?thesis by (simp add: edge_id_def)
qed

section \<open>The deduper is a timed machine\<close>

interpretation dd: timed_machine dedup_ok d_window suppressed dedup_sweep Allow
proof unfold_locales
  fix s s' :: Deduper and now t :: gotime and k :: string and x :: ServiceCall
  show "dedup_ok s \<Longrightarrow> dedup_ok (dedup_sweep now s)" by (simp add: dedup_ok_def)
  show "d_window (dedup_sweep now s) = d_window s" by simp
  show "dedup_ok s \<Longrightarrow> now \<le> t \<Longrightarrow> suppressed (dedup_sweep now s) k t = suppressed s k t"
    by (rule suppressed_sweep)
  show "dedup_ok s \<Longrightarrow> dedup_ok (snd (Allow x now s))" by (simp add: dedup_ok_def)
  show "d_window (snd (Allow x now s)) = d_window s" by simp
  assume ok: "dedup_ok s" "dedup_ok s'" and w: "d_window s = d_window s'"
    and agree: "\<forall>k t. now \<le> t \<longrightarrow> suppressed s k t = suppressed s' k t"
  show res: "fst (Allow x now s) = fst (Allow x now s')"
    using w agree by (cases "0 < d_window s") (auto simp: Allow_result Allow_disabled)
  show "now \<le> t \<Longrightarrow> suppressed (snd (Allow x now s)) k t = suppressed (snd (Allow x now s')) k t"
    using ok w agree res by (cases "0 < d_window s") (auto simp: suppressed_Allow Allow_disabled)
qed

section \<open>What a run lets through\<close>

text \<open>
  The state against the log so far: a key is suppressed at a later time exactly when
  the log has an allowed call of that key less than a window before.
\<close>

definition agrees_with_log :: "(gotime \<times> ServiceCall \<times> bool) list \<Rightarrow> gotime \<Rightarrow> Deduper \<Rightarrow> bool" where
  "agrees_with_log h now d \<longleftrightarrow> (\<forall>e \<in> set h. fst e \<le> now) \<and>
     (\<forall>k t. now \<le> t \<longrightarrow>
        suppressed d k t \<noteq> None \<longleftrightarrow> (\<exists>u x. (u, x, True) \<in> set h \<and> dedup_key x = k \<and> t < u + d_window d))"

definition fresh_in :: "(gotime \<times> ServiceCall \<times> bool) list \<Rightarrow> duration \<Rightarrow> gotime \<Rightarrow> ServiceCall \<Rightarrow> bool" where
  \<comment> \<open>no call of the same key was allowed less than a window before\<close>
  "fresh_in h w t sc \<longleftrightarrow> (\<forall>(u, x, r) \<in> set h. r \<and> dedup_key x = dedup_key sc \<longrightarrow> u + w \<le> t)"

lemma agrees_with_log_mono: "\<lbrakk>agrees_with_log h now d; now \<le> now'\<rbrakk> \<Longrightarrow> agrees_with_log h now' d"
  by (force simp: agrees_with_log_def)

lemma agrees_with_log_fresh:
  assumes "agrees_with_log h now d" and "0 < d_window d"
  shows "fst (Allow sc now d) = fresh_in h (d_window d) now sc"
proof -
  have "suppressed d (dedup_key sc) now \<noteq> None \<longleftrightarrow>
      (\<exists>u x. (u, x, True) \<in> set h \<and> dedup_key x = dedup_key sc \<and> now < u + d_window d)"
    using assms(1) unfolding agrees_with_log_def by blast
  moreover have "fresh_in h (d_window d) now sc \<longleftrightarrow>
      \<not> (\<exists>u x. (u, x, True) \<in> set h \<and> dedup_key x = dedup_key sc \<and> now < u + d_window d)"
    by (auto simp: fresh_in_def not_less split: prod.splits)
  ultimately show ?thesis unfolding Allow_result [OF assms(2)] by blast
qed

lemma agrees_with_log_Allow:
  assumes "agrees_with_log h now d" and "dedup_ok d" and "0 < d_window d"
  shows "agrees_with_log (h @ [(now, sc, fst (Allow sc now d))]) now (snd (Allow sc now d))"
  using assms by (auto simp: agrees_with_log_def suppressed_Allow split: if_splits)

lemma run_agrees:
  assumes "dedup_ok d" and "0 < d_window d" and "agrees_with_log h start d"
    and "sorted (map fst es)" and "\<forall>e \<in> set es. start \<le> fst e"
    and "j < length (timed_run Allow dedup_sweep es d)"
    and "timed_run Allow dedup_sweep es d ! j = (t, sc, r)"
  shows "r = fresh_in (h @ take j (timed_run Allow dedup_sweep es d)) (d_window d) t sc"
  using assms
proof (induction es arbitrary: d h start j)
  case Nil
  then show ?case by simp
next
  case (Cons e es)
  obtain now x where e: "e = (now, x)" by (cases e)
  have es: "sorted (map fst es)" "\<forall>e \<in> set es. now \<le> fst e" using Cons.prems(4) e by auto
  have h: "agrees_with_log h now d"
    using Cons.prems(3,5) e by (auto intro: agrees_with_log_mono)
  show ?case
  proof (cases x)
    case None
    have "agrees_with_log h now (dedup_sweep now d)"
      using h Cons.prems(1) by (simp add: agrees_with_log_def suppressed_sweep)
    then show ?thesis
      using Cons.IH [of "dedup_sweep now d" h now j] Cons.prems e es None by (simp add: dedup_ok_def)
  next
    case (Some y)
    obtain b d' where a: "Allow y now d = (b, d')" by (cases "Allow y now d")
    then have b: "b = fst (Allow y now d)" and d': "d' = snd (Allow y now d)" by simp_all
    have h': "agrees_with_log (h @ [(now, y, b)]) now d'"
      unfolding b d' by (rule agrees_with_log_Allow [OF h Cons.prems(1,2)])
    have w: "d_window d' = d_window d" by (simp add: d')
    show ?thesis
    proof (cases j)
      case 0
      with Cons.prems(7) e Some a have "now = t" "y = sc" "b = r" by simp_all
      then show ?thesis using agrees_with_log_fresh [OF h Cons.prems(2), of y] b 0 by simp
    next
      case (Suc i)
      then show ?thesis
        using Cons.IH [of d' "h @ [(now, y, b)]" now i] Cons.prems e es Some a h' w
        by (simp add: dedup_ok_def)
    qed
  qed
qed

lemma agrees_with_log_New: "agrees_with_log [] start (Dedup_New w)"
  by (simp add: agrees_with_log_def suppressed_def Dedup_New_def)

section \<open>Properties\<close>


definition sample_call :: ServiceCall where
  "sample_call = \<lparr>sc_Source = \<lparr>w_Name = ''web'', w_Namespace = ''shop'', w_Kind = ''Deployment''\<rparr>,
     sc_Dest = \<lparr>w_Name = ''db'', w_Namespace = ''shop'', w_Kind = ''StatefulSet''\<rparr>,
     sc_DestPort = 5432, sc_DestProtocol = 6, sc_DestAppProtocol = []\<rparr>"


text \<open>Sweeping the deduper is not observable: with times that do not go back, every
  call of \<open>Allow\<close> answers as it would without the sweeps, for any window.\<close>

lemma Dedup_sweeps_unobservable:
  assumes "w \<le> max_duration" and "sorted (map fst es)"
  shows "timed_run Allow dedup_sweep es (Dedup_New w) = timed_run Allow dedup_sweep (only_acts es) (Dedup_New w)"
  by (rule dd.sweeps_change_nothing) (simp_all add: assms dedup_ok_def Dedup_New_def)

text \<open>The key of an edge stands for the edge: for names as Kubernetes allows them (no
  slash in a namespace, no bar in a name) two calls share a key exactly when they have
  the same two workload names and namespaces, port and protocol. Kinds and the
  application protocol do not count, and other names can collide.\<close>

lemma dedup_key_exact:
  "(plain_names sc \<and> plain_names sc' \<longrightarrow> (dedup_key sc = dedup_key sc' \<longleftrightarrow> edge_id sc = edge_id sc'))
   \<and> (\<exists>a b. dedup_key a = dedup_key b \<and> edge_id a \<noteq> edge_id b)"
proof
  show "plain_names sc \<and> plain_names sc' \<longrightarrow> (dedup_key sc = dedup_key sc' \<longleftrightarrow> edge_id sc = edge_id sc')"
    using dedup_key_plain dedup_key_edge_id by blast
  let ?w = "\<lambda>ns n. \<lparr>w_Name = n, w_Namespace = ns, w_Kind = []\<rparr>"
  let ?c = "\<lambda>s. \<lparr>sc_Source = s, sc_Dest = ?w ''a'' ''b'', sc_DestPort = 1, sc_DestProtocol = 6, sc_DestAppProtocol = []\<rparr>"
  have "dedup_key (?c (?w ''a/b'' ''c'')) = dedup_key (?c (?w ''a'' ''b/c''))"
    "edge_id (?c (?w ''a/b'' ''c'')) \<noteq> edge_id (?c (?w ''a'' ''b/c''))"
    by (simp_all add: dedup_key_def edge_id_def)
  then show "\<exists>a b. dedup_key a = dedup_key b \<and> edge_id a \<noteq> edge_id b" by blast
qed

end
