(* ===== verification/Ignore_List.thy ===== *)
theory Ignore_List
  imports Model
begin

text \<open>
  \<open>internal/ignore/ignore.go\<close>: ignore patterns. A glob segment is printed as a
  regular expression, compiled and matched, as the code does it: \<open>glob_pattern\<close> is
  the string \<open>globToRegexp\<close> builds, \<open>regexp_Compile\<close> and \<open>MatchString\<close> are Go's
  \<open>regexp\<close> restricted to what such strings can hold (anchors, literals, escaped
  punctuation and \<open>.*\<close>; \<open>.\<close> does not match a newline). Patterns and names are
  UTF-8 strings, on which matching bytes and matching runes agree.
\<close>

section \<open>Regular expressions of the fragment\<close>

datatype rx = RxBegin | RxEnd | RxLit char | RxAnyStar

type_synonym regexp = "rx list"

definition meta_chars :: "char list" where
  \<comment> \<open>the characters \<open>regexp.QuoteMeta\<close> escapes\<close>
  "meta_chars = CHR 0x5C # ''.+*?()|[]{}^$''"

definition QuoteMeta :: "char \<Rightarrow> string" where
  "QuoteMeta c = (if c \<in> set meta_chars then [CHR 0x5C, c] else [c])"

definition cons_opt :: "rx \<Rightarrow> regexp option \<Rightarrow> regexp option" where
  "cons_opt x r = map_option (\<lambda>xs. x # xs) r"

fun regexp_Compile :: "string \<Rightarrow> regexp option" where
  \<comment> \<open>\<open>None\<close>: a syntax error, or syntax outside the fragment\<close>
  "regexp_Compile [] = Some []"
| "regexp_Compile (c # s) =
     (if c = CHR 0x5C then
        (case s of [] \<Rightarrow> None
         | d # s' \<Rightarrow> if d \<in> set meta_chars then cons_opt (RxLit d) (regexp_Compile s') else None)
      else if c = CHR ''^'' then cons_opt RxBegin (regexp_Compile s)
      else if c = CHR ''$'' then cons_opt RxEnd (regexp_Compile s)
      else if c = CHR ''.'' then
        (case s of [] \<Rightarrow> None
         | d # s' \<Rightarrow> if d = CHR ''*'' then cons_opt RxAnyStar (regexp_Compile s') else None)
      else if c \<in> set meta_chars then None
      else cons_opt (RxLit c) (regexp_Compile s))"

fun any_star :: "(string \<Rightarrow> bool) \<Rightarrow> string \<Rightarrow> bool" where
  \<comment> \<open>\<open>.*\<close> followed by \<open>k\<close>\<close>
  "any_star k [] = k []"
| "any_star k (x # xs) = (k (x # xs) \<or> (x \<noteq> CHR 0x0A \<and> any_star k xs))"

fun match_here :: "regexp \<Rightarrow> nat \<Rightarrow> string \<Rightarrow> bool" where
  \<comment> \<open>\<open>n\<close>: length of the text, so the position is the start when \<open>length s = n\<close>\<close>
  "match_here [] n s = True"
| "match_here (RxBegin # r) n s = (length s = n \<and> match_here r n s)"
| "match_here (RxEnd # r) n s = (s = [] \<and> match_here r n s)"
| "match_here (RxLit c # r) n s = (case s of [] \<Rightarrow> False | x # xs \<Rightarrow> x = c \<and> match_here r n xs)"
| "match_here (RxAnyStar # r) n s = any_star (match_here r n) s"

fun match_from :: "regexp \<Rightarrow> nat \<Rightarrow> string \<Rightarrow> bool" where
  "match_from r n [] = match_here r n []"
| "match_from r n (x # xs) = (match_here r n (x # xs) \<or> match_from r n xs)"

definition MatchString :: "regexp \<Rightarrow> string \<Rightarrow> bool" where
  "MatchString r s = match_from r (length s) s"

section \<open>The matcher\<close>

definition glob_pattern :: "string \<Rightarrow> string" where
  "glob_pattern glob =
     ''^'' @ concat (map (\<lambda>r. if r = CHR ''*'' then ''.*'' else QuoteMeta r) glob) @ ''$''"

definition globToRegexp :: "string \<Rightarrow> regexp option" where
  "globToRegexp glob = regexp_Compile (glob_pattern glob)"

record rule =
  r_ns :: regexp
  r_name :: regexp
  r_raw :: string

record Matcher =
  m_rules :: "rule list"

datatype ignore_error =
    MissingSeparator string
  | MatchesEverything string
  | BadNamespaceGlob string
  | BadWorkloadGlob string

fun Compile_from :: "rule list \<Rightarrow> string list \<Rightarrow> ignore_error + Matcher" where
  "Compile_from rs [] = Inr \<lparr>m_rules = rs\<rparr>"
| "Compile_from rs (p # ps) =
     (case str_cut (CHR ''/'') p of (ns, name, ok) \<Rightarrow>
        if \<not> ok then Inl (MissingSeparator p)
        else if ns = ''*'' \<and> name = ''*'' then Inl (MatchesEverything p)
        else case globToRegexp ns of
            None \<Rightarrow> Inl (BadNamespaceGlob p)
          | Some nsRe \<Rightarrow>
              (case globToRegexp name of
                 None \<Rightarrow> Inl (BadWorkloadGlob p)
               | Some nameRe \<Rightarrow>
                   Compile_from (rs @ [\<lparr>r_ns = nsRe, r_name = nameRe, r_raw = p\<rparr>]) ps))"

definition Ignore_Compile :: "string list \<Rightarrow> ignore_error + Matcher" where
  "Ignore_Compile patterns = Compile_from [] patterns"

definition ShouldIgnore :: "Matcher option \<Rightarrow> string \<Rightarrow> string \<Rightarrow> bool" where
  \<comment> \<open>\<open>None\<close> is the nil matcher\<close>
  "ShouldIgnore m namespace name =
     (case m of
        None \<Rightarrow> False
      | Some m \<Rightarrow> list_ex (\<lambda>r. MatchString (r_ns r) namespace \<and> MatchString (r_name r) name) (m_rules m))"

definition ShouldIgnoreCall :: "Matcher option \<Rightarrow> ServiceCall \<Rightarrow> bool" where
  "ShouldIgnoreCall m sc \<longleftrightarrow>
     ShouldIgnore m (w_Namespace (sc_Source sc)) (w_Name (sc_Source sc)) \<or>
     ShouldIgnore m (w_Namespace (sc_Dest sc)) (w_Name (sc_Dest sc))"

section \<open>What a glob means\<close>

text \<open>
  The specification: a star stands for any text without a newline, every other
  character for itself.
\<close>

inductive glob_matches :: "string \<Rightarrow> string \<Rightarrow> bool" where
  empty: "glob_matches [] []"
| literal: "\<lbrakk>c \<noteq> CHR ''*''; glob_matches g s\<rbrakk> \<Longrightarrow> glob_matches (c # g) (c # s)"
| star: "\<lbrakk>CHR 0x0A \<notin> set x; glob_matches g s\<rbrakk> \<Longrightarrow> glob_matches (CHR ''*'' # g) (x @ s)"

inductive_simps glob_matches_Nil [simp]: "glob_matches [] s"
inductive_simps glob_matches_Cons: "glob_matches (c # g) s"

fun glob_rx :: "string \<Rightarrow> regexp" where
  "glob_rx [] = [RxEnd]"
| "glob_rx (c # g) = (if c = CHR ''*'' then RxAnyStar else RxLit c) # glob_rx g"

definition pattern_matches :: "string \<Rightarrow> string \<Rightarrow> string \<Rightarrow> bool" where
  \<comment> \<open>a whole pattern, split at its first slash\<close>
  "pattern_matches p namespace name \<longleftrightarrow>
     (\<exists>g h. p = g @ CHR ''/'' # h \<and> CHR ''/'' \<notin> set g \<and> glob_matches g namespace \<and> glob_matches h name)"

section \<open>Facts\<close>

lemma regexp_Compile_QuoteMeta:
  "c \<noteq> CHR ''*'' \<Longrightarrow> regexp_Compile (QuoteMeta c @ s) = cons_opt (RxLit c) (regexp_Compile s)"
  by (cases "c \<in> set meta_chars") (auto simp: QuoteMeta_def meta_chars_def)

lemma regexp_Compile_glob:
  "regexp_Compile (concat (map (\<lambda>r. if r = CHR ''*'' then ''.*'' else QuoteMeta r) g) @ ''$'')
     = Some (glob_rx g)"
  by (induction g) (auto simp: regexp_Compile_QuoteMeta cons_opt_def)

lemma globToRegexp_Some: "globToRegexp g = Some (RxBegin # glob_rx g)"
  using regexp_Compile_glob [of g] by (simp add: globToRegexp_def glob_pattern_def cons_opt_def)

lemma any_star_iff: "any_star k s \<longleftrightarrow> (\<exists>x t. s = x @ t \<and> CHR 0x0A \<notin> set x \<and> k t)"
proof (induction s)
  case Nil
  show ?case by simp
next
  case (Cons a s)
  show ?case (is "?l \<longleftrightarrow> ?r")
  proof
    assume ?l
    then show ?r
    proof (cases "k (a # s)")
      case True
      then have "a # s = [] @ (a # s) \<and> CHR 0x0A \<notin> set [] \<and> k (a # s)" by simp
      then show ?thesis by blast
    next
      case False
      with \<open>?l\<close> Cons.IH obtain x t where "s = x @ t" "CHR 0x0A \<notin> set x" "k t" "a \<noteq> CHR 0x0A"
        by auto
      then have "a # s = (a # x) @ t \<and> CHR 0x0A \<notin> set (a # x) \<and> k t" by simp
      then show ?thesis by blast
    qed
  next
    assume ?r
    then obtain x t where xt: "a # s = x @ t" "CHR 0x0A \<notin> set x" "k t" by blast
    show ?l
    proof (cases x)
      case Nil
      with xt have "t = a # s" by simp
      with xt show ?thesis by simp
    next
      case (Cons b y)
      with xt have "s = y @ t \<and> CHR 0x0A \<notin> set y \<and> k t" "a \<noteq> CHR 0x0A" by auto
      with Cons.IH show ?thesis by auto
    qed
  qed
qed

lemma match_here_glob_rx: "match_here (glob_rx g) n s = glob_matches g s"
proof (induction g arbitrary: s)
  case Nil
  show ?case by simp
next
  case (Cons c g)
  then show ?case
    by (auto simp: glob_matches_Cons any_star_iff fun_eq_iff split: list.split)
qed

lemma match_from_anchored:
  "length s < n \<Longrightarrow> \<not> match_from (RxBegin # r) n s"
  by (induction s) auto

lemma MatchString_glob: "MatchString (RxBegin # glob_rx g) s = glob_matches g s"
  by (cases s) (auto simp: MatchString_def match_here_glob_rx match_from_anchored)

lemma Compile_from_spec:
  "Compile_from rs ps =
     (case find (\<lambda>p. CHR ''/'' \<notin> set p \<or> p = ''*/*'') ps of
        Some p \<Rightarrow> Inl (if p = ''*/*'' then MatchesEverything p else MissingSeparator p)
      | None \<Rightarrow> Inr \<lparr>m_rules = rs @ map (\<lambda>p. case str_cut (CHR ''/'') p of (ns, name, ok) \<Rightarrow>
          \<lparr>r_ns = RxBegin # glob_rx ns, r_name = RxBegin # glob_rx name, r_raw = p\<rparr>) ps\<rparr>)"
proof (induction ps arbitrary: rs)
  case Nil
  show ?case by simp
next
  case (Cons p ps)
  obtain ns name ok where c: "str_cut (CHR ''/'') p = (ns, name, ok)" by (metis prod_cases3)
  show ?case
  proof (cases ok)
    case False
    then have "CHR ''/'' \<notin> set p" using str_cut_found_iff [of "CHR ''/''" p] c by simp
    with False c show ?thesis by auto
  next
    case True
    with c have p: "p = ns @ CHR ''/'' # name" "CHR ''/'' \<notin> set ns" by (auto dest: str_cut_SomeD)
    then have mem: "CHR ''/'' \<in> set p" by simp
    have whole: "p = ''*/*'' \<longleftrightarrow> ns = ''*'' \<and> name = ''*''"
    proof
      assume "p = ''*/*''"
      then have "str_cut (CHR ''/'') p = (''*'', ''*'', True)" by simp
      then show "ns = ''*'' \<and> name = ''*''" using c by simp
    next
      assume "ns = ''*'' \<and> name = ''*''"
      then show "p = ''*/*''" by (simp add: p(1))
    qed
    show ?thesis
    proof (cases "p = ''*/*''")
      case True
      with c \<open>ok\<close> whole show ?thesis by simp
    next
      case False
      with c \<open>ok\<close> whole mem show ?thesis
        by (auto simp: globToRegexp_Some Cons.IH split: option.split)
    qed
  qed
qed

section \<open>Properties\<close>

text \<open>C34. What the ignore list means: when the patterns compile, a call is ignored exactly
  when its source or its destination matches one of them, namespace against the glob
  before the first slash and name against the glob after it, where a star stands for
  any text without a newline, anywhere in the glob, and other characters for themselves.
  A nil matcher ignores nothing.\<close>

theorem ShouldIgnoreCall_exact:
  assumes "Ignore_Compile ps = Inr m"
  shows "(ShouldIgnoreCall (Some m) sc \<longleftrightarrow>
      (\<exists>p \<in> set ps. pattern_matches p (w_Namespace (sc_Source sc)) (w_Name (sc_Source sc))
                 \<or> pattern_matches p (w_Namespace (sc_Dest sc)) (w_Name (sc_Dest sc))))
    \<and> \<not> ShouldIgnoreCall None sc"
proof -
  have slash: "CHR ''/'' \<in> set p" if "p \<in> set ps" for p
    using assms that unfolding Ignore_Compile_def Compile_from_spec
    by (auto simp: find_None_iff split: option.splits)
  have rules: "m_rules m = map (\<lambda>p. case str_cut (CHR ''/'') p of (ns, name, ok) \<Rightarrow>
      \<lparr>r_ns = RxBegin # glob_rx ns, r_name = RxBegin # glob_rx name, r_raw = p\<rparr>) ps"
    using assms unfolding Ignore_Compile_def Compile_from_spec by (auto split: option.splits)
  have one: "(case str_cut (CHR ''/'') p of (ns, name, ok) \<Rightarrow> glob_matches ns n1 \<and> glob_matches name n2)
      \<longleftrightarrow> pattern_matches p n1 n2" if mem: "p \<in> set ps" for p n1 n2
  proof -
    obtain g h where gh: "p = g @ CHR ''/'' # h" "CHR ''/'' \<notin> set g"
      using slash [OF mem] by (metis split_list_first)
    then have cut: "str_cut (CHR ''/'') p = (g, h, True)" by (simp add: str_cut_hit)
    have "g' = g \<and> h' = h" if "p = g' @ CHR ''/'' # h'" "CHR ''/'' \<notin> set g'" for g' h'
      using str_cut_hit [OF that(2), of h'] cut that(1) by simp
    then have "pattern_matches p n1 n2 \<longleftrightarrow> glob_matches g n1 \<and> glob_matches h n2"
      unfolding pattern_matches_def using gh by blast
    then show ?thesis by (simp add: cut)
  qed
  have "ShouldIgnore (Some m) n1 n2 \<longleftrightarrow> (\<exists>p \<in> set ps. pattern_matches p n1 n2)" for n1 n2
  proof -
    have "ShouldIgnore (Some m) n1 n2 \<longleftrightarrow>
        (\<exists>p \<in> set ps. case str_cut (CHR ''/'') p of (ns, name, ok) \<Rightarrow> glob_matches ns n1 \<and> glob_matches name n2)"
      by (auto simp: ShouldIgnore_def rules list_ex_iff MatchString_glob split: prod.splits)
    with one show ?thesis by auto
  qed
  then show ?thesis by (auto simp: ShouldIgnoreCall_def ShouldIgnore_def [of None])
qed

theorem ShouldIgnoreCall_exact_witness:
  "\<exists>m. Ignore_Compile [''kube-*/*''] = Inr m
     \<and> (ShouldIgnoreCall (Some m) \<lparr>sc_Source = \<lparr>w_Name = ''a'', w_Namespace = ''b'', w_Kind = []\<rparr>,
           sc_Dest = \<lparr>w_Name = ''c'', w_Namespace = ''d'', w_Kind = []\<rparr>, sc_DestPort = 1, sc_DestProtocol = 6,
           sc_DestAppProtocol = []\<rparr>
         \<longleftrightarrow> pattern_matches ''kube-*/*'' ''b'' ''a'' \<or> pattern_matches ''kube-*/*'' ''d'' ''c'')"
proof -
  obtain m where m: "Ignore_Compile [''kube-*/*''] = Inr m"
    by (simp add: Ignore_Compile_def Compile_from_spec)
  from ShouldIgnoreCall_exact [OF m] m show ?thesis by auto
qed

text \<open>Compiling the list fails exactly on its first pattern that has no slash or is
  the pattern \<open>*/*\<close>, and says which of the two it is; no glob ever fails to compile as a
  regular expression. The guard against a list that ignores everything is not
  complete: \<open>**/*\<close> is accepted and matches every name.\<close>

lemma Ignore_Compile_outcome:
  "(\<exists>m. Ignore_Compile ps = Inr m) = (\<forall>p \<in> set ps. CHR ''/'' \<in> set p \<and> p \<noteq> ''*/*'')
   \<and> (Ignore_Compile ps = Inl err \<longleftrightarrow>
        (\<exists>p. find (\<lambda>p. CHR ''/'' \<notin> set p \<or> p = ''*/*'') ps = Some p
           \<and> err = (if p = ''*/*'' then MatchesEverything p else MissingSeparator p)))
   \<and> (\<exists>m. Ignore_Compile [''**/*''] = Inr m)
   \<and> (CHR 0x0A \<notin> set (ns @ n) \<longrightarrow> pattern_matches ''**/*'' ns n)"
proof (intro conjI impI)
  show "(\<exists>m. Ignore_Compile ps = Inr m) = (\<forall>p \<in> set ps. CHR ''/'' \<in> set p \<and> p \<noteq> ''*/*'')"
  proof -
    have "(\<exists>m. Ignore_Compile ps = Inr m) \<longleftrightarrow> find (\<lambda>p. CHR ''/'' \<notin> set p \<or> p = ''*/*'') ps = None"
      unfolding Ignore_Compile_def Compile_from_spec by (auto split: option.split)
    then show ?thesis by (auto simp: find_None_iff)
  qed
  show "Ignore_Compile ps = Inl err \<longleftrightarrow>
        (\<exists>p. find (\<lambda>p. CHR ''/'' \<notin> set p \<or> p = ''*/*'') ps = Some p
           \<and> err = (if p = ''*/*'' then MatchesEverything p else MissingSeparator p))"
    by (auto simp: Ignore_Compile_def Compile_from_spec split: option.splits)
  show "\<exists>m. Ignore_Compile [''**/*''] = Inr m"
    by (simp add: Ignore_Compile_def Compile_from_spec)
  assume nl: "CHR 0x0A \<notin> set (ns @ n)"
  have any: "glob_matches ''*'' s" if "CHR 0x0A \<notin> set s" for s
    using glob_matches.star [OF that glob_matches.empty] by simp
  have "glob_matches ''**'' ns" "glob_matches ''*'' n"
    using glob_matches.star [of "[]" "''*''" ns] any nl by simp_all
  then show "pattern_matches ''**/*'' ns n"
    unfolding pattern_matches_def by (intro exI [of _ "''**''"] exI [of _ "''*''"]) simp
qed

end
