(* ===== verification/Config.thy ===== *)
theory Config
  imports Sniffer_Prelude
begin

text \<open>
  \<open>internal/config/config.go\<close>: the parsed configuration, its validation and its
  loading. The file system, the YAML decoder (\<open>sigs.k8s.io/yaml\<close>) and the
  environment are arguments; \<open>None\<close> is an error, or an unset variable.
\<close>

section \<open>The configuration\<close>

record IstioConfig =
  ic_Enabled :: bool
  ic_APIVersion :: string

record StdoutConfig =
  st_Enabled :: "bool option"

record KafkaTLSConfig =
  tls_Enabled :: bool
  tls_CAFile :: string
  tls_InsecureSkipVerify :: bool

record KafkaSASLConfig =
  sasl_Mechanism :: string
  sasl_Username :: string
  sasl_Password :: string

record KafkaConfig =
  kc_Enabled :: bool
  kc_Brokers :: "string list"
  kc_Topic :: string
  kc_ClientID :: string
  kc_TLS :: KafkaTLSConfig
  kc_SASL :: KafkaSASLConfig

record EmitConfig =
  ec_Stdout :: StdoutConfig
  ec_Kafka :: KafkaConfig

record AppConfig =
  ac_Ignore :: "string list"
  ac_Istio :: IstioConfig
  ac_Emit :: EmitConfig

definition DefaultIstioAPIVersion :: string where "DefaultIstioAPIVersion = ''v1beta1''"
definition DefaultKafkaClientID :: string where "DefaultKafkaClientID = ''network-sniffer-processor''"
definition KafkaPasswordEnv :: string where "KafkaPasswordEnv = ''KAFKA_SASL_PASSWORD''"
definition SASLMechanismPlain :: string where "SASLMechanismPlain = ''PLAIN''"
definition SASLMechanismScramSHA256 :: string where "SASLMechanismScramSHA256 = ''SCRAM-SHA-256''"
definition SASLMechanismScramSHA512 :: string where "SASLMechanismScramSHA512 = ''SCRAM-SHA-512''"

lemmas mechanism_defs =
  SASLMechanismPlain_def SASLMechanismScramSHA256_def SASLMechanismScramSHA512_def

definition zero_config :: AppConfig where
  \<comment> \<open>\<open>Config{}\<close>\<close>
  "zero_config =
     \<lparr>ac_Ignore = [], ac_Istio = \<lparr>ic_Enabled = False, ic_APIVersion = []\<rparr>,
      ac_Emit = \<lparr>ec_Stdout = \<lparr>st_Enabled = None\<rparr>,
        ec_Kafka = \<lparr>kc_Enabled = False, kc_Brokers = [], kc_Topic = [], kc_ClientID = [],
          kc_TLS = \<lparr>tls_Enabled = False, tls_CAFile = [], tls_InsecureSkipVerify = False\<rparr>,
          kc_SASL = \<lparr>sasl_Mechanism = [], sasl_Username = [], sasl_Password = []\<rparr>\<rparr>\<rparr>\<rparr>"

section \<open>Operations\<close>

datatype config_error =
    NoSink | BrokersRequired | TopicRequired
  | CredentialsRequired string | UnsupportedMechanism string
  | ReadConfig string | ParseConfig string

definition StdoutEnabled :: "EmitConfig \<Rightarrow> bool" where
  "StdoutEnabled e = (case st_Enabled (ec_Stdout e) of None \<Rightarrow> True | Some b \<Rightarrow> b)"

definition Validate :: "EmitConfig \<Rightarrow> config_error option" where
  "Validate e =
     (if \<not> StdoutEnabled e \<and> \<not> kc_Enabled (ec_Kafka e) then Some NoSink
      else if \<not> kc_Enabled (ec_Kafka e) then None
      else
        let k = ec_Kafka e; m = sasl_Mechanism (kc_SASL k) in
        if kc_Brokers k = [] then Some BrokersRequired
        else if kc_Topic k = [] then Some TopicRequired
        else if m = [] then None
        else if m \<in> {SASLMechanismPlain, SASLMechanismScramSHA256, SASLMechanismScramSHA512} then
          (if sasl_Username (kc_SASL k) = [] \<or> sasl_Password (kc_SASL k) = []
           then Some (CredentialsRequired m) else None)
        else Some (UnsupportedMechanism m))"

definition override_password :: "string \<Rightarrow> AppConfig \<Rightarrow> AppConfig" where
  \<comment> \<open>\<open>cfg.Emit.Kafka.SASL.Password = pw\<close>\<close>
  "override_password pw cfg =
     cfg\<lparr>ac_Emit := (ac_Emit cfg)\<lparr>ec_Kafka := (ec_Kafka (ac_Emit cfg))\<lparr>
       kc_SASL := (kc_SASL (ec_Kafka (ac_Emit cfg)))\<lparr>sasl_Password := pw\<rparr>\<rparr>\<rparr>\<rparr>"

definition Load ::
  "(string \<Rightarrow> string option) \<Rightarrow> (string \<Rightarrow> AppConfig option) \<Rightarrow> (string \<Rightarrow> string option) \<Rightarrow>
   string \<Rightarrow> config_error + AppConfig" where
  "Load ReadFile Unmarshal LookupEnv path =
     (if path = [] then Inr zero_config
      else case ReadFile path of
          None \<Rightarrow> Inl (ReadConfig path)
        | Some raw \<Rightarrow>
            (case Unmarshal raw of
               None \<Rightarrow> Inl (ParseConfig path)
             | Some cfg \<Rightarrow>
                 let cfg = (case LookupEnv KafkaPasswordEnv of
                              Some pw \<Rightarrow> if pw \<noteq> [] then override_password pw cfg else cfg
                            | None \<Rightarrow> cfg)
                 in case Validate (ac_Emit cfg) of
                      Some err \<Rightarrow> Inl err
                    | None \<Rightarrow> Inr cfg))"

section \<open>Specification and facts\<close>

definition kafka_usable :: "KafkaConfig \<Rightarrow> bool" where
  "kafka_usable k \<longleftrightarrow> kc_Brokers k \<noteq> [] \<and> kc_Topic k \<noteq> [] \<and>
     (sasl_Mechanism (kc_SASL k) = [] \<or>
      sasl_Mechanism (kc_SASL k) \<in> {SASLMechanismPlain, SASLMechanismScramSHA256, SASLMechanismScramSHA512} \<and>
      sasl_Username (kc_SASL k) \<noteq> [] \<and> sasl_Password (kc_SASL k) \<noteq> [])"

lemma Validate_None_iff:
  "Validate e = None \<longleftrightarrow>
     (if kc_Enabled (ec_Kafka e) then kafka_usable (ec_Kafka e) else StdoutEnabled e)"
  by (auto simp: Validate_def kafka_usable_def Let_def)

lemma zero_config_valid: "Validate (ac_Emit zero_config) = None"
  by (simp add: Validate_None_iff zero_config_def StdoutEnabled_def)

lemma Load_valid: "Load ReadFile Unmarshal LookupEnv path = Inr cfg \<Longrightarrow> Validate (ac_Emit cfg) = None"
  by (auto simp: Load_def Let_def zero_config_valid split: if_splits option.splits)

lemma override_password_fields [simp]:
  "sasl_Password (kc_SASL (ec_Kafka (ac_Emit (override_password pw cfg)))) = pw"
  "ac_Ignore (override_password pw cfg) = ac_Ignore cfg"
  "ac_Istio (override_password pw cfg) = ac_Istio cfg"
  by (simp_all add: override_password_def)

section \<open>Properties\<close>



end
