(* ===== verification/Emit.thy ===== *)
theory Emit
  imports Model Config
begin

text \<open>
  \<open>internal/emit\<close> (\<open>emit.go\<close>, \<open>kafka.go\<close>, \<open>multi.go\<close>) and \<open>buildSinks\<close> of
  \<open>cmd/sniffer/processor_linux.go\<close>: the record an edge is written as, the sinks
  and their construction. \<open>render\<close> is the \<open>slog\<close> JSON handler (message and attributes
  to one line); the Kafka client (\<open>kgo\<close>) is a set of arguments: the outcome of
  \<open>TryProduce\<close>, of \<open>NewClient\<close> and of a metadata request.
\<close>

section \<open>Records\<close>

datatype attr_value = AString string | AInt int

type_synonym attr = "string \<times> attr_value"
type_synonym renderer = "string \<Rightarrow> attr list \<Rightarrow> string"

definition FieldSourceWorkload :: string where "FieldSourceWorkload = ''source_workload''"
definition FieldSourceNamespace :: string where "FieldSourceNamespace = ''source_namespace''"
definition FieldDestWorkload :: string where "FieldDestWorkload = ''dest_workload''"
definition FieldDestNamespace :: string where "FieldDestNamespace = ''dest_namespace''"
definition FieldDestPort :: string where "FieldDestPort = ''dest_port''"
definition FieldDestProtocol :: string where "FieldDestProtocol = ''dest_protocol''"
definition FieldDestAppProtocol :: string where "FieldDestAppProtocol = ''dest_app_protocol''"
definition Message :: string where "Message = ''service_call''"

lemmas field_defs =
  FieldSourceWorkload_def FieldSourceNamespace_def FieldDestWorkload_def FieldDestNamespace_def
  FieldDestPort_def FieldDestProtocol_def FieldDestAppProtocol_def

definition appProtocol :: "ServiceCall \<Rightarrow> string" where
  "appProtocol sc =
     (if sc_DestAppProtocol sc \<noteq> [] then sc_DestAppProtocol sc else Protocol_String (sc_DestProtocol sc))"

definition attrs :: "ServiceCall \<Rightarrow> attr list" where
  "attrs sc =
     [(FieldSourceWorkload, AString (w_Name (sc_Source sc))),
      (FieldSourceNamespace, AString (w_Namespace (sc_Source sc))),
      (FieldDestWorkload, AString (w_Name (sc_Dest sc))),
      (FieldDestNamespace, AString (w_Namespace (sc_Dest sc))),
      (FieldDestPort, AInt (int (unat (sc_DestPort sc)))),
      (FieldDestProtocol, AString (Protocol_String (sc_DestProtocol sc))),
      (FieldDestAppProtocol, AString (appProtocol sc))]"

definition log_line :: "renderer \<Rightarrow> ServiceCall \<Rightarrow> string" where
  \<comment> \<open>what \<open>Logger.Log\<close> writes\<close>
  "log_line render sc = render Message (attrs sc)"

definition Encode :: "renderer \<Rightarrow> ServiceCall \<Rightarrow> string" where
  "Encode render sc = trim_suffix_char (CHR 0x0A) (log_line render sc)"

section \<open>Sinks\<close>

datatype produce_result = Delivered | MaxBuffered | ProduceFailed

definition ReasonBufferFull :: string where "ReasonBufferFull = ''buffer_full''"
definition ReasonProduce :: string where "ReasonProduce = ''produce''"

record emit_env =
  env_render :: renderer
  env_TryProduce :: "string \<Rightarrow> string \<Rightarrow> produce_result"

record emitted =
  o_stdout :: string
  o_kafka :: "(string \<times> string) list"  \<comment> \<open>keys and values handed to the producer\<close>
  o_EmitErrors :: "string \<Rightarrow> nat"  \<comment> \<open>the counter of sink kafka by reason\<close>

definition no_output :: emitted where
  "no_output = \<lparr>o_stdout = [], o_kafka = [], o_EmitErrors = (\<lambda>_. 0)\<rparr>"

definition Logger_Emit :: "emit_env \<Rightarrow> ServiceCall \<Rightarrow> emitted \<Rightarrow> emitted" where
  "Logger_Emit env sc s = s\<lparr>o_stdout := o_stdout s @ log_line (env_render env) sc\<rparr>"

definition kafka_key :: "ServiceCall \<Rightarrow> string" where
  "kafka_key sc = w_Namespace (sc_Source sc) @ ''/'' @ w_Name (sc_Source sc)"

definition on_kafka_error :: "string \<Rightarrow> emitted \<Rightarrow> emitted" where
  \<comment> \<open>the callback \<open>buildSinks\<close> passes: count the reason\<close>
  "on_kafka_error reason s = s\<lparr>o_EmitErrors := (o_EmitErrors s)(reason := o_EmitErrors s reason + 1)\<rparr>"

definition Kafka_Emit :: "emit_env \<Rightarrow> ServiceCall \<Rightarrow> emitted \<Rightarrow> emitted" where
  "Kafka_Emit env sc s =
     (let key = kafka_key sc; value = Encode (env_render env) sc;
          s = s\<lparr>o_kafka := o_kafka s @ [(key, value)]\<rparr>
      in case env_TryProduce env key value of
           Delivered \<Rightarrow> s
         | MaxBuffered \<Rightarrow> on_kafka_error ReasonBufferFull s
         | ProduceFailed \<Rightarrow> on_kafka_error ReasonProduce s)"

datatype Sink = LoggerSink | KafkaSink | MultiSink "Sink list"

definition Multi :: "Sink list \<Rightarrow> Sink" where
  "Multi sinks = (if length sinks = 1 then sinks ! 0 else MultiSink sinks)"

fun Sink_Emit :: "emit_env \<Rightarrow> ServiceCall \<Rightarrow> Sink \<Rightarrow> emitted \<Rightarrow> emitted" where
  "Sink_Emit env sc LoggerSink s = Logger_Emit env sc s"
| "Sink_Emit env sc KafkaSink s = Kafka_Emit env sc s"
| "Sink_Emit env sc (MultiSink []) s = s"
| "Sink_Emit env sc (MultiSink (x # xs)) s = Sink_Emit env sc (MultiSink xs) (Sink_Emit env sc x s)"

section \<open>Building the Kafka client\<close>

record tls_config =
  tc_MinVersion :: nat
  tc_InsecureSkipVerify :: bool
  tc_RootCAs :: "string option"  \<comment> \<open>the PEM text of the pool\<close>

datatype sasl_mechanism =
    PlainAuth string string | ScramSha256 string string | ScramSha512 string string

datatype kgo_opt =
    SeedBrokers "string list" | DefaultProduceTopic string | ClientID string
  | MaxBufferedRecords nat | ProducerLinger duration | DialTLSConfig tls_config | SASL sasl_mechanism

datatype kafka_error =
    CAFileUnreadable | NoCertificates string | BadMechanism string | ClientError
  | MetadataError | TopicCount nat | TopicError string int

definition kafkaMaxBuffered :: nat where "kafkaMaxBuffered = 10000"

definition VersionTLS12 :: nat where "VersionTLS12 = 0x303"

definition tlsConfig ::
  "(string \<Rightarrow> string option) \<Rightarrow> (string \<Rightarrow> bool) \<Rightarrow> KafkaTLSConfig \<Rightarrow> kafka_error + tls_config" where
  "tlsConfig ReadFile AppendCertsFromPEM c =
     (let tc = \<lparr>tc_MinVersion = VersionTLS12, tc_InsecureSkipVerify = tls_InsecureSkipVerify c, tc_RootCAs = None\<rparr>
      in if tls_CAFile c \<noteq> [] then
           (case ReadFile (tls_CAFile c) of
              None \<Rightarrow> Inl CAFileUnreadable
            | Some pem \<Rightarrow>
                if \<not> AppendCertsFromPEM pem then Inl (NoCertificates (tls_CAFile c))
                else Inr (tc\<lparr>tc_RootCAs := Some pem\<rparr>))
         else Inr tc)"

definition saslMechanism :: "KafkaSASLConfig \<Rightarrow> kafka_error + sasl_mechanism" where
  "saslMechanism c =
     (if sasl_Mechanism c = SASLMechanismPlain then Inr (PlainAuth (sasl_Username c) (sasl_Password c))
      else if sasl_Mechanism c = SASLMechanismScramSHA256 then Inr (ScramSha256 (sasl_Username c) (sasl_Password c))
      else if sasl_Mechanism c = SASLMechanismScramSHA512 then Inr (ScramSha512 (sasl_Username c) (sasl_Password c))
      else Inl (BadMechanism (sasl_Mechanism c)))"

definition kafka_opts ::
  "(string \<Rightarrow> string option) \<Rightarrow> (string \<Rightarrow> bool) \<Rightarrow> KafkaConfig \<Rightarrow> kafka_error + kgo_opt list" where
  \<comment> \<open>\<open>NewKafka\<close> up to \<open>kgo.NewClient\<close>\<close>
  "kafka_opts ReadFile AppendCertsFromPEM cfg =
     (let clientID = (if kc_ClientID cfg = [] then DefaultKafkaClientID else kc_ClientID cfg);
          opts = [SeedBrokers (kc_Brokers cfg), DefaultProduceTopic (kc_Topic cfg), ClientID clientID,
                  MaxBufferedRecords kafkaMaxBuffered, ProducerLinger (50 * 10 ^ 6)];
          with_sasl = (\<lambda>opts. if sasl_Mechanism (kc_SASL cfg) \<noteq> []
             then (case saslMechanism (kc_SASL cfg) of Inl err \<Rightarrow> Inl err | Inr m \<Rightarrow> Inr (opts @ [SASL m]))
             else Inr opts)
      in if tls_Enabled (kc_TLS cfg)
         then (case tlsConfig ReadFile AppendCertsFromPEM (kc_TLS cfg) of
                 Inl err \<Rightarrow> Inl err | Inr tc \<Rightarrow> with_sasl (opts @ [DialTLSConfig tc]))
         else with_sasl opts)"

definition Kafka_Check :: "int list option \<Rightarrow> (int \<Rightarrow> bool) \<Rightarrow> string \<Rightarrow> kafka_error option" where
  \<comment> \<open>\<open>metadata\<close>: the error codes of the topics in the response; \<open>is_error\<close> is \<open>kerr.ErrorForCode\<close>\<close>
  "Kafka_Check metadata is_error topic =
     (case metadata of
        None \<Rightarrow> Some MetadataError
      | Some codes \<Rightarrow>
          if length codes \<noteq> 1 then Some (TopicCount (length codes))
          else if is_error (codes ! 0) then Some (TopicError topic (codes ! 0)) else None)"

record kafka_world =
  kw_ReadFile :: "string \<Rightarrow> string option"
  kw_AppendCerts :: "string \<Rightarrow> bool"
  kw_NewClient :: "kgo_opt list \<Rightarrow> bool"
  kw_metadata :: "string \<Rightarrow> int list option"
  kw_is_error :: "int \<Rightarrow> bool"

definition NewKafka :: "kafka_world \<Rightarrow> KafkaConfig \<Rightarrow> kafka_error + kgo_opt list" where
  \<comment> \<open>the options of the client built\<close>
  "NewKafka W cfg =
     (case kafka_opts (kw_ReadFile W) (kw_AppendCerts W) cfg of
        Inl err \<Rightarrow> Inl err
      | Inr opts \<Rightarrow> if kw_NewClient W opts then Inr opts else Inl ClientError)"

definition buildSinks :: "kafka_world \<Rightarrow> EmitConfig \<Rightarrow> kafka_error + (Sink \<times> bool)" where
  \<comment> \<open>the sink, and whether a Kafka sink is to be flushed on shutdown\<close>
  "buildSinks W ec =
     (let sinks = (if StdoutEnabled ec then [LoggerSink] else [])
      in if kc_Enabled (ec_Kafka ec) then
           (case NewKafka W (ec_Kafka ec) of
              Inl err \<Rightarrow> Inl err
            | Inr opts \<Rightarrow>
                (case Kafka_Check (kw_metadata W (kc_Topic (ec_Kafka ec))) (kw_is_error W) (kc_Topic (ec_Kafka ec)) of
                   Some err \<Rightarrow> Inl err
                 | None \<Rightarrow> Inr (Multi (sinks @ [KafkaSink]), True)))
         else Inr (Multi sinks, False))"

section \<open>Facts\<close>

lemma Sink_Emit_multi: "Sink_Emit env sc (MultiSink xs) s = fold (Sink_Emit env sc) xs s"
  by (induction xs arbitrary: s) simp_all

lemma Sink_Emit_Multi: "Sink_Emit env sc (Multi xs) s = fold (Sink_Emit env sc) xs s"
proof (cases "length xs = 1")
  case True
  then obtain x where "xs = [x]" by (metis length_0_conv length_Suc_conv One_nat_def)
  then show ?thesis by (simp add: Multi_def)
next
  case False
  then show ?thesis by (simp add: Multi_def Sink_Emit_multi)
qed

lemma appProtocol_nonempty: "appProtocol sc \<noteq> []"
  by (simp add: appProtocol_def Protocol_String_def)

lemma saslMechanism_usable:
  "kafka_usable k \<Longrightarrow> sasl_Mechanism (kc_SASL k) \<noteq> [] \<Longrightarrow> \<exists>m. saslMechanism (kc_SASL k) = Inr m"
  by (auto simp: kafka_usable_def saslMechanism_def)

lemma tlsConfig_errors: "tlsConfig R A c = Inl err \<Longrightarrow> err \<noteq> BadMechanism m"
  by (auto simp: tlsConfig_def Let_def split: if_splits option.splits)

lemma kafka_opts_mechanism:
  assumes "kafka_usable k"
  shows "kafka_opts R A k \<noteq> Inl (BadMechanism m)"
proof (cases "sasl_Mechanism (kc_SASL k) = []")
  case True
  then show ?thesis
    by (cases "tlsConfig R A (kc_TLS k)") (auto simp: kafka_opts_def Let_def dest: tlsConfig_errors)
next
  case False
  from saslMechanism_usable [OF assms this] obtain x where "saslMechanism (kc_SASL k) = Inr x" by blast
  then show ?thesis
    by (cases "tlsConfig R A (kc_TLS k)") (auto simp: kafka_opts_def Let_def dest: tlsConfig_errors)
qed

lemma buildSinks_mechanism:
  assumes "buildSinks W ec = Inl (BadMechanism m)"
  shows "kc_Enabled (ec_Kafka ec) \<and> kafka_opts (kw_ReadFile W) (kw_AppendCerts W) (ec_Kafka ec) = Inl (BadMechanism m)"
  using assms unfolding buildSinks_def NewKafka_def Kafka_Check_def Let_def
  by (simp split: if_splits sum.splits option.splits)

section \<open>Properties\<close>

text \<open>An edge reaches every configured sink once, in order: for a validated configuration
  the sinks build (or the error is the brokers', the files' or the topic's, never the
  mechanism), and emitting appends exactly one line to stdout if it is enabled and
  exactly one Kafka record if that is, keyed by the caller and holding the same line
  without its newline; an outcome other than delivery is counted under one reason.\<close>

lemma emit_every_sink:
  assumes "Validate ec = None"
  shows "(\<forall>m. buildSinks W ec \<noteq> Inl (BadMechanism m))
    \<and> (buildSinks W ec = Inr (sink, kf) \<longrightarrow>
         kf = kc_Enabled (ec_Kafka ec)
         \<and> o_stdout (Sink_Emit env sc sink s) =
             o_stdout s @ (if StdoutEnabled ec then log_line (env_render env) sc else [])
         \<and> o_kafka (Sink_Emit env sc sink s) =
             o_kafka s @ (if kf then [(kafka_key sc, Encode (env_render env) sc)] else [])
         \<and> o_EmitErrors (Sink_Emit env sc sink s) =
             (if \<not> kf then o_EmitErrors s
              else case env_TryProduce env (kafka_key sc) (Encode (env_render env) sc) of
                  Delivered \<Rightarrow> o_EmitErrors s
                | MaxBuffered \<Rightarrow> (o_EmitErrors s)(ReasonBufferFull := o_EmitErrors s ReasonBufferFull + 1)
                | ProduceFailed \<Rightarrow> (o_EmitErrors s)(ReasonProduce := o_EmitErrors s ReasonProduce + 1)))"
proof (intro conjI allI impI)
  fix m
  show "buildSinks W ec \<noteq> Inl (BadMechanism m)"
  proof
    assume "buildSinks W ec = Inl (BadMechanism m)"
    from buildSinks_mechanism [OF this] assms show False
      using kafka_opts_mechanism by (simp add: Validate_None_iff)
  qed
next
  assume b: "buildSinks W ec = Inr (sink, kf)"
  then have sink: "kf = kc_Enabled (ec_Kafka ec)"
    "sink = Multi ((if StdoutEnabled ec then [LoggerSink] else []) @ (if kf then [KafkaSink] else []))"
    by (auto simp: buildSinks_def Let_def split: if_splits sum.splits option.splits)
  show "kf = kc_Enabled (ec_Kafka ec)" by (rule sink(1))
  show "o_stdout (Sink_Emit env sc sink s) = o_stdout s @ (if StdoutEnabled ec then log_line (env_render env) sc else [])"
    "o_kafka (Sink_Emit env sc sink s) = o_kafka s @ (if kf then [(kafka_key sc, Encode (env_render env) sc)] else [])"
    "o_EmitErrors (Sink_Emit env sc sink s) =
       (if \<not> kf then o_EmitErrors s
        else case env_TryProduce env (kafka_key sc) (Encode (env_render env) sc) of
            Delivered \<Rightarrow> o_EmitErrors s
          | MaxBuffered \<Rightarrow> (o_EmitErrors s)(ReasonBufferFull := o_EmitErrors s ReasonBufferFull + 1)
          | ProduceFailed \<Rightarrow> (o_EmitErrors s)(ReasonProduce := o_EmitErrors s ReasonProduce + 1))"
    unfolding sink(2) Sink_Emit_Multi
    by (cases "env_TryProduce env (kafka_key sc) (Encode (env_render env) sc)";
        simp add: Logger_Emit_def Kafka_Emit_def on_kafka_error_def Let_def)+
qed

end
