(* ===== verification/Processor.thy ===== *)
theory Processor
  imports Workload_Cache Dedup Ignore_List Aggregate Emit
begin

text \<open>
  \<open>internal/enrich/enrich.go\<close> and \<open>internal/processor\<close> (\<open>server.go\<close>, \<open>pipeline.go\<close>,
  \<open>metrics.go\<close>): a wire record into an event, the event joined with the workload
  cache, and the three filters before an edge is emitted. \<open>Report\<close> calls run
  concurrently in the program; the functions here handle one record after the other, each
  with the time \<open>now\<close> returns while it is handled, and \<open>Report_Concurrent\<close> runs the same
  calls one shared access at a time and shows that nothing more can happen there.
\<close>

section \<open>Enrichment\<close>

definition Enrich ::
  "ConnectionEvent \<Rightarrow> (addr \<Rightarrow> Workload option) \<Rightarrow> (string \<Rightarrow> Workload option) option \<Rightarrow>
   (addr \<Rightarrow> 16 word \<Rightarrow> string option) option \<Rightarrow> ServiceCall" where
  \<comment> \<open>\<open>None\<close> is a nil store\<close>
  "Enrich ev store uids ports =
     (let source = WorkloadForIP store (SrcIP ev);
          source = (case uids of
              None \<Rightarrow> source
            | Some lookup \<Rightarrow>
                if SrcPodUID ev \<noteq> [] \<and> (w_Kind source = KindNode \<or> IsExternal source)
                then (case lookup (SrcPodUID ev) of Some w \<Rightarrow> w | None \<Rightarrow> source)
                else source);
          l7 = (case ports of
              None \<Rightarrow> []
            | Some lookup \<Rightarrow> (case lookup (DstIP ev) (DstPort ev) of None \<Rightarrow> [] | Some p \<Rightarrow> p));
          dest = WorkloadForIP store (DstIP ev);
          dest = (if IsExternal dest \<and> DstHostname ev \<noteq> [] then dest\<lparr>w_Name := DstHostname ev\<rparr> else dest)
      in \<lparr>sc_Source = source, sc_Dest = dest, sc_DestPort = DstPort ev,
          sc_DestProtocol = Protocol ev, sc_DestAppProtocol = l7\<rparr>)"

section \<open>The pipeline\<close>

definition resultInvalid :: string where "resultInvalid = ''invalid''"
definition resultReversedDuplicate :: string where "resultReversedDuplicate = ''reversed_duplicate''"
definition resultIgnored :: string where "resultIgnored = ''ignored''"
definition resultDuplicate :: string where "resultDuplicate = ''duplicate''"
definition resultEmitted :: string where "resultEmitted = ''emitted''"

lemmas record_result_defs =
  resultInvalid_def resultReversedDuplicate_def resultIgnored_def resultDuplicate_def resultEmitted_def

definition all_results :: "string list" where
  "all_results = [resultInvalid, resultReversedDuplicate, resultIgnored, resultDuplicate, resultEmitted]"

record Pipeline =
  pl_cache :: WCache
  pl_matcher :: "Matcher option"
  pl_deduper :: Deduper
  pl_sink :: Sink
  pl_out :: emitted
  m_Records :: "string \<Rightarrow> nat"
  m_Batches :: nat

definition NewPipeline :: "WCache \<Rightarrow> Matcher option \<Rightarrow> Deduper \<Rightarrow> Sink \<Rightarrow> Pipeline" where
  "NewPipeline cache matcher deduper sink =
     \<lparr>pl_cache = cache, pl_matcher = matcher, pl_deduper = deduper, pl_sink = sink,
      pl_out = no_output, m_Records = (\<lambda>_. 0), m_Batches = 0\<rparr>"

definition count_record :: "string \<Rightarrow> Pipeline \<Rightarrow> Pipeline" where
  "count_record r p = p\<lparr>m_Records := (m_Records p)(r := m_Records p r + 1)\<rparr>"

definition enriched :: "Pipeline \<Rightarrow> ConnectionEvent \<Rightarrow> ServiceCall" where
  "enriched p ev =
     Enrich ev (LookupIP (pl_cache p)) (Some (LookupUID (pl_cache p))) (Some (LookupPort (pl_cache p)))"

definition Pipeline_Handle :: "emit_env \<Rightarrow> ConnectionEvent \<Rightarrow> gotime \<Rightarrow> Pipeline \<Rightarrow> Pipeline" where
  "Pipeline_Handle env ev now p =
     (let sc = Enrich ev (LookupIP (pl_cache p)) (Some (LookupUID (pl_cache p))) (Some (LookupPort (pl_cache p)))
      in if IsReversedDuplicate ev (sc_Source sc) then count_record resultReversedDuplicate p
         else if ShouldIgnoreCall (pl_matcher p) sc then count_record resultIgnored p
         else case Allow sc now (pl_deduper p) of (allowed, d) \<Rightarrow>
           let p = p\<lparr>pl_deduper := d\<rparr> in
           if \<not> allowed then count_record resultDuplicate p
           else let p = count_record resultEmitted p
                in p\<lparr>pl_out := Sink_Emit env sc (pl_sink p) (pl_out p)\<rparr>)"

section \<open>The server\<close>

definition toEvent :: "FlowRecord \<Rightarrow> ConnectionEvent option" where
  "toEvent r =
     (case addr_from_slice (fr_SrcIp r) of
        None \<Rightarrow> None
      | Some src \<Rightarrow>
          (case addr_from_slice (fr_DstIp r) of
             None \<Rightarrow> None
           | Some dst \<Rightarrow>
               if 65535 < unat (fr_DstPort r) \<or> 255 < unat (fr_Protocol r) then None
               else Some
                 \<lparr>SrcIP = unmap src, DstIP = unmap dst, SrcPort = 0, DstPort = ucast (fr_DstPort r),
                  Protocol = ucast (fr_Protocol r), PID = 0, Comm = fr_Comm r,
                  Outbound = fr_Outbound r, SrcPodUID = fr_SrcPodUid r, DstHostname = fr_DstHostname r\<rparr>))"

fun report_loop :: "emit_env \<Rightarrow> (gotime \<times> FlowRecord) list \<Rightarrow> Pipeline \<Rightarrow> Pipeline" where
  "report_loop env [] p = p"
| "report_loop env ((now, r) # rs) p =
     (case toEvent r of
        None \<Rightarrow> report_loop env rs (count_record resultInvalid p)
      | Some ev \<Rightarrow> report_loop env rs (Pipeline_Handle env ev now p))"

definition Report :: "emit_env \<Rightarrow> (gotime \<times> FlowRecord) list \<Rightarrow> Pipeline \<Rightarrow> Pipeline" where
  "Report env rs p = report_loop env rs (p\<lparr>m_Batches := m_Batches p + 1\<rparr>)"

section \<open>Specification\<close>

definition verdict :: "Pipeline \<Rightarrow> ConnectionEvent \<Rightarrow> gotime \<Rightarrow> string" where
  "verdict p ev now =
     (let sc = enriched p ev in
      if \<not> Outbound ev \<and> \<not> IsExternal (sc_Source sc) then resultReversedDuplicate
      else if ShouldIgnoreCall (pl_matcher p) sc then resultIgnored
      else if \<not> fst (Allow sc now (pl_deduper p)) then resultDuplicate
      else resultEmitted)"

definition total_records :: "Pipeline \<Rightarrow> nat" where
  "total_records p = sum_list (map (m_Records p) all_results)"

section \<open>Facts: enrichment\<close>

lemma Enrich_simps [simp]:
  "sc_DestPort (Enrich ev store uids ports) = DstPort ev"
  "sc_DestProtocol (Enrich ev store uids ports) = Protocol ev"
  by (simp_all add: Enrich_def Let_def)

lemma Enrich_source:
  "sc_Source (Enrich ev store (Some lookup) ports) =
     (case store (SrcIP ev) of
        Some w \<Rightarrow>
          if w_Kind w = KindNode \<or> w_Kind w = KindExternal
          then (if SrcPodUID ev = [] then w else case lookup (SrcPodUID ev) of Some v \<Rightarrow> v | None \<Rightarrow> w)
          else w
      | None \<Rightarrow>
          (case (if SrcPodUID ev = [] then None else lookup (SrcPodUID ev)) of
             Some v \<Rightarrow> v
           | None \<Rightarrow> \<lparr>w_Name = addr_string (SrcIP ev), w_Namespace = [], w_Kind = KindExternal\<rparr>))"
  by (auto simp: Enrich_def WorkloadForIP_def IsExternal_def Let_def split: option.split)

lemma Enrich_dest:
  "sc_Dest (Enrich ev store uids ports) =
     (case store (DstIP ev) of
        Some w \<Rightarrow> if w_Kind w = KindExternal \<and> DstHostname ev \<noteq> [] then w\<lparr>w_Name := DstHostname ev\<rparr> else w
      | None \<Rightarrow> \<lparr>w_Name = (if DstHostname ev = [] then addr_string (DstIP ev) else DstHostname ev),
                 w_Namespace = [], w_Kind = KindExternal\<rparr>)"
  by (auto simp: Enrich_def WorkloadForIP_def IsExternal_def Let_def split: option.split)

section \<open>Facts: the pipeline\<close>

lemma count_record_simps [simp]:
  "pl_cache (count_record r p) = pl_cache p" "pl_matcher (count_record r p) = pl_matcher p"
  "pl_deduper (count_record r p) = pl_deduper p" "pl_sink (count_record r p) = pl_sink p"
  "pl_out (count_record r p) = pl_out p" "m_Batches (count_record r p) = m_Batches p"
  "m_Records (count_record r p) = (m_Records p)(r := m_Records p r + 1)"
  by (simp_all add: count_record_def)

lemma Pipeline_Handle_verdict:
  "m_Records (Pipeline_Handle env ev now p) = (m_Records p)(verdict p ev now := m_Records p (verdict p ev now) + 1)"
  "pl_out (Pipeline_Handle env ev now p) =
     (if verdict p ev now = resultEmitted then Sink_Emit env (enriched p ev) (pl_sink p) (pl_out p) else pl_out p)"
  "pl_deduper (Pipeline_Handle env ev now p) =
     (if verdict p ev now \<in> {resultReversedDuplicate, resultIgnored} then pl_deduper p
      else snd (Allow (enriched p ev) now (pl_deduper p)))"
  by (simp_all add: Pipeline_Handle_def verdict_def enriched_def IsReversedDuplicate_def Let_def
      record_result_defs split: prod.split)

lemma Pipeline_Handle_config [simp]:
  "pl_cache (Pipeline_Handle env ev now p) = pl_cache p"
  "pl_matcher (Pipeline_Handle env ev now p) = pl_matcher p"
  "pl_sink (Pipeline_Handle env ev now p) = pl_sink p"
  "m_Batches (Pipeline_Handle env ev now p) = m_Batches p"
  by (simp_all add: Pipeline_Handle_def Let_def split: prod.split)

lemma verdict_result: "verdict p ev now \<in> set all_results"
  by (auto simp: verdict_def all_results_def Let_def)

lemma total_records_bump:
  assumes "m_Records q = (m_Records p)(r := m_Records p r + 1)" and "r \<in> set all_results"
  shows "total_records q = total_records p + 1"
proof -
  have "distinct all_results" by code_simp
  with assms show ?thesis
    by (auto simp: total_records_def all_results_def)
qed

lemma total_records_report: "total_records (report_loop env rs p) = total_records p + length rs"
proof (induction env rs p rule: report_loop.induct)
  case (1 env p)
  show ?case by simp
next
  case (2 env now r rs p)
  have inv: "total_records (count_record resultInvalid p) = total_records p + 1"
    by (rule total_records_bump [where r = resultInvalid]) (simp_all add: all_results_def)
  show ?case
  proof (cases "toEvent r")
    case None
    with 2(1) inv show ?thesis by simp
  next
    case (Some ev)
    have "total_records (Pipeline_Handle env ev now p) = total_records p + 1"
      by (rule total_records_bump [OF Pipeline_Handle_verdict(1) verdict_result])
    with Some 2(2) show ?thesis by simp
  qed
qed

lemma report_loop_config:
  "pl_cache (report_loop env rs p) = pl_cache p \<and> pl_matcher (report_loop env rs p) = pl_matcher p
   \<and> pl_sink (report_loop env rs p) = pl_sink p \<and> m_Batches (report_loop env rs p) = m_Batches p"
  by (induction env rs p rule: report_loop.induct) (auto split: option.split)

section \<open>Facts: the wire\<close>

lemma ucast_port_bounds:
  "unat (ucast (p :: 16 word) :: 32 word) \<le> 65535" "unat (ucast (q :: 8 word) :: 32 word) \<le> 255"
  "(ucast (ucast (p :: 16 word) :: 32 word) :: 16 word) = p" "(ucast (ucast (q :: 8 word) :: 32 word) :: 8 word) = q"
proof -
  have "unat p < 2 ^ 16" "unat q < 2 ^ 8" using unsigned_less [of p, where ?'a = nat] unsigned_less [of q, where ?'a = nat] by simp_all
  then show "unat (ucast p :: 32 word) \<le> 65535" "unat (ucast q :: 32 word) \<le> 255"
    by (simp_all add: unsigned_ucast_eq take_bit_nat_eq_self)
  show "(ucast (ucast p :: 32 word) :: 16 word) = p" "(ucast (ucast q :: 32 word) :: 8 word) = q"
    by (simp_all add: ucast_up_ucast_id is_up)
qed

definition wire_addr :: "addr \<Rightarrow> bool" where
  \<comment> \<open>the addresses the decoder yields: set, without a zone\<close>
  "wire_addr a \<longleftrightarrow> a \<noteq> NoAddr \<and> addr_zone a = []"

lemma toEvent_flow_record:
  assumes "wire_addr (k_src k)" and "wire_addr (k_dst k)"
  shows "toEvent (flow_record k f) = Some
     \<lparr>SrcIP = unmap (k_src k), DstIP = unmap (k_dst k), SrcPort = 0, DstPort = k_dstPort k,
      Protocol = k_proto k, PID = 0, Comm = f_comm f, Outbound = k_outbound k,
      SrcPodUID = k_podUID k, DstHostname = f_hostname f\<rparr>"
  using assms ucast_port_bounds(1,3) [of "k_dstPort k"] ucast_port_bounds(2,4) [of "k_proto k"]
  by (simp add: toEvent_def flow_record_def wire_addr_def not_less)

section \<open>Facts: the edges of a run\<close>

definition passes :: "Pipeline \<Rightarrow> ConnectionEvent \<Rightarrow> bool" where
  \<comment> \<open>the event reaches the deduper\<close>
  "passes p ev \<longleftrightarrow> (Outbound ev \<or> IsExternal (sc_Source (enriched p ev)))
     \<and> \<not> ShouldIgnoreCall (pl_matcher p) (enriched p ev)"

fun emitted_calls :: "emit_env \<Rightarrow> (gotime \<times> ConnectionEvent) list \<Rightarrow> Pipeline \<Rightarrow> (gotime \<times> ServiceCall) list" where
  \<comment> \<open>the edges emitted while the events are handled one after the other\<close>
  "emitted_calls env [] p = []"
| "emitted_calls env ((t, ev) # es) p =
     (if verdict p ev t = resultEmitted then [(t, enriched p ev)] else [])
     @ emitted_calls env es (Pipeline_Handle env ev t p)"

definition deduper_calls :: "Pipeline \<Rightarrow> (gotime \<times> ConnectionEvent) list \<Rightarrow> (gotime \<times> ServiceCall option) list" where
  "deduper_calls p es = map (\<lambda>(t, ev). (t, Some (enriched p ev))) (filter (\<lambda>(t, ev). passes p ev) es)"

definition allowed_calls :: "(gotime \<times> ServiceCall \<times> bool) list \<Rightarrow> (gotime \<times> ServiceCall) list" where
  "allowed_calls h = map (\<lambda>e. (fst e, fst (snd e))) (filter (\<lambda>e. snd (snd e)) h)"

lemma enriched_cong: "pl_cache q = pl_cache p \<Longrightarrow> enriched q = enriched p"
  by (simp add: fun_eq_iff enriched_def)

lemma deduper_calls_Handle: "deduper_calls (Pipeline_Handle env ev t p) es = deduper_calls p es"
  by (simp add: deduper_calls_def passes_def enriched_cong [of "Pipeline_Handle env ev t p" p])

lemma verdict_passes:
  "verdict p ev t = resultEmitted \<longleftrightarrow> passes p ev \<and> fst (Allow (enriched p ev) t (pl_deduper p))"
  "verdict p ev t \<in> {resultReversedDuplicate, resultIgnored} \<longleftrightarrow> \<not> passes p ev"
  by (auto simp: verdict_def passes_def record_result_defs Let_def)

lemma emitted_calls_log:
  "emitted_calls env es p = allowed_calls (timed_run Allow dedup_sweep (deduper_calls p es) (pl_deduper p))"
proof (induction es arbitrary: p)
  case Nil
  show ?case by (simp add: deduper_calls_def allowed_calls_def)
next
  case (Cons e es)
  obtain t ev where e: "e = (t, ev)" by (cases e)
  let ?q = "Pipeline_Handle env ev t p"
  have IH: "emitted_calls env es ?q = allowed_calls (timed_run Allow dedup_sweep (deduper_calls p es) (pl_deduper ?q))"
    using Cons.IH [of ?q] by (simp add: deduper_calls_Handle)
  show ?case
  proof (cases "passes p ev")
    case False
    then have "pl_deduper ?q = pl_deduper p" "verdict p ev t \<noteq> resultEmitted"
      using verdict_passes(2) [of p ev t] by (auto simp: Pipeline_Handle_verdict(3) verdict_passes(1))
    with False IH e show ?thesis by (simp add: deduper_calls_def)
  next
    case True
    obtain b d where a: "Allow (enriched p ev) t (pl_deduper p) = (b, d)" by (metis surj_pair)
    with True have "pl_deduper ?q = d" "verdict p ev t = resultEmitted \<longleftrightarrow> b"
      using verdict_passes(2) [of p ev t] by (simp_all add: Pipeline_Handle_verdict(3) verdict_passes(1))
    with True IH e a show ?thesis by (simp add: deduper_calls_def allowed_calls_def)
  qed
qed

lemma sorted_deduper_calls: "sorted (map fst es) \<Longrightarrow> sorted (map fst (deduper_calls p es))"
proof -
  assume "sorted (map fst es)"
  then have "sorted (map fst (filter (\<lambda>(t, ev). passes p ev) es))" by (rule sorted_filter)
  then show ?thesis by (simp add: deduper_calls_def comp_def split_beta)
qed

lemma timed_run_times: "map fst (timed_run act sweep es s) = map fst (only_acts es)"
  by (induction act sweep es s rule: timed_run.induct) (auto simp: only_acts_def split: prod.split)

lemma timed_run_acts: "map (\<lambda>(t, x, r). (t, Some x)) (timed_run act sweep es s) = only_acts es"
  by (induction act sweep es s rule: timed_run.induct) (auto simp: only_acts_def split: prod.split)

definition spaced :: "duration \<Rightarrow> gotime \<times> ServiceCall \<Rightarrow> gotime \<times> ServiceCall \<Rightarrow> bool" where
  \<comment> \<open>of two edges of one key, the later is at least a window after the earlier\<close>
  "spaced w a b \<longleftrightarrow> dedup_key (snd a) = dedup_key (snd b) \<longrightarrow> fst a + w \<le> fst b"

text \<open>
  The clock is read before the deduper's lock is taken, so under concurrency the times
  given to \<open>Allow\<close> may go back; it is enough that none is older than a sweep before it.
\<close>

definition sweeps_behind :: "gotime \<times> 'a option \<Rightarrow> gotime \<times> 'b option \<Rightarrow> bool" where
  "sweeps_behind a b \<longleftrightarrow> (snd a = None \<and> snd b \<noteq> None \<longrightarrow> fst a \<le> fst b)"

lemma timed_run_allowed_mem:
  "(u, x) \<in> set (allowed_calls (timed_run Allow dedup_sweep es d)) \<Longrightarrow> (u, Some x) \<in> set es"
proof -
  assume "(u, x) \<in> set (allowed_calls (timed_run Allow dedup_sweep es d))"
  then have "(u, Some x) \<in> set (map (\<lambda>(t, x, r). (t, Some x)) (timed_run Allow dedup_sweep es d))"
    by (force simp: allowed_calls_def)
  then show ?thesis unfolding timed_run_acts by (simp add: only_acts_def)
qed

lemma late_clock_spaced:
  assumes "dedup_ok d" and "0 < d_window d" and "sorted_wrt sweeps_behind es"
  shows "sorted_wrt (spaced (d_window d)) (allowed_calls (timed_run Allow dedup_sweep es d))
    \<and> (\<forall>(u, x) \<in> set (allowed_calls (timed_run Allow dedup_sweep es d)).
         \<forall>prev. fmlookup (d_seen d) (dedup_key x) = Some prev \<longrightarrow> prev + d_window d \<le> u)"
  using assms
proof (induction es arbitrary: d)
  case Nil
  show ?case by (simp add: allowed_calls_def)
next
  case (Cons e es)
  obtain now a where e: "e = (now, a)" by (cases e)
  have later: "sorted_wrt sweeps_behind es" using Cons.prems(3) by simp
  have gone: "d_window d \<le> time_sub t prev \<Longrightarrow> prev + d_window d \<le> t" for t prev
    using Cons.prems(1,2) time_sub_ge_iff [of "d_window d" t prev] by (simp add: dedup_ok_def min_duration_def)
  show ?case
  proof (cases a)
    case None
    let ?d = "dedup_sweep now d"
    have IH: "sorted_wrt (spaced (d_window d)) (allowed_calls (timed_run Allow dedup_sweep es ?d))"
      "\<And>u x prev. \<lbrakk>(u, x) \<in> set (allowed_calls (timed_run Allow dedup_sweep es ?d));
         fmlookup (d_seen ?d) (dedup_key x) = Some prev\<rbrakk> \<Longrightarrow> prev + d_window d \<le> u"
      using Cons.IH [of ?d] Cons.prems later by (auto simp: dedup_ok_def)
    have "prev + d_window d \<le> u" if ux: "(u, x) \<in> set (allowed_calls (timed_run Allow dedup_sweep es ?d))"
      and prev: "fmlookup (d_seen d) (dedup_key x) = Some prev" for u x prev
    proof (cases "fmlookup (d_seen ?d) (dedup_key x)")
      case None
      then have "d_window d \<le> time_sub now prev"
        using prev Cons.prems(2) by (auto simp: dedup_sweep_def Dedup_Sweep_def Let_def split: if_splits)
      moreover have "now \<le> u"
        using timed_run_allowed_mem [OF ux] Cons.prems(3) e \<open>a = None\<close> by (fastforce simp: sweeps_behind_def)
      ultimately show ?thesis using gone by fastforce
    next
      case (Some prev')
      then have "prev' = prev"
        using prev Cons.prems(2) by (auto simp: dedup_sweep_def Dedup_Sweep_def Let_def split: if_splits)
      with Some IH(2) [OF ux] show ?thesis by simp
    qed
    with IH(1) e None show ?thesis by auto
  next
    case (Some x)
    obtain b d' where a': "Allow x now d = (b, d')" by (metis surj_pair)
    have d': "d_window d' = d_window d" using a' d_window_Allow [of x now d] by simp
    have IH: "sorted_wrt (spaced (d_window d)) (allowed_calls (timed_run Allow dedup_sweep es d'))"
      "\<And>u x prev. \<lbrakk>(u, x) \<in> set (allowed_calls (timed_run Allow dedup_sweep es d'));
         fmlookup (d_seen d') (dedup_key x) = Some prev\<rbrakk> \<Longrightarrow> prev + d_window d \<le> u"
      using Cons.IH [of d'] Cons.prems later d' by (auto simp: dedup_ok_def)
    show ?thesis
    proof (cases b)
      case False
      then have "d' = d" using a' Cons.prems(2) by (auto simp: Allow_def Let_def split: option.splits if_splits)
      moreover have "allowed_calls (timed_run Allow dedup_sweep (e # es) d) = allowed_calls (timed_run Allow dedup_sweep es d')"
        using False a' e Some by (simp add: allowed_calls_def)
      ultimately show ?thesis using IH by auto
    next
      case True
      have seen: "fmlookup (d_seen d') k = (if k = dedup_key x then Some now else fmlookup (d_seen d) k)" for k
        using a' True Cons.prems(2) by (auto simp: Allow_def Let_def split: option.splits if_splits)
      have old: "prev + d_window d \<le> now" if "fmlookup (d_seen d) (dedup_key x) = Some prev" for prev
        using a' True Cons.prems(2) that gone by (auto simp: Allow_def Let_def not_less split: if_splits)
      have all: "allowed_calls (timed_run Allow dedup_sweep (e # es) d)
          = (now, x) # allowed_calls (timed_run Allow dedup_sweep es d')"
        using a' True e Some by (simp add: allowed_calls_def)
      have rest: "now + d_window d \<le> u" if "(u, y) \<in> set (allowed_calls (timed_run Allow dedup_sweep es d'))"
        "dedup_key y = dedup_key x" for u y
        using IH(2) [OF that(1), of now] seen that(2) by simp
      have "prev + d_window d \<le> u" if uy: "(u, y) \<in> set (allowed_calls (timed_run Allow dedup_sweep es d'))"
        and prev: "fmlookup (d_seen d) (dedup_key y) = Some prev" for u y prev
      proof (cases "dedup_key y = dedup_key x")
        case True
        with old [of prev] prev rest [OF uy] Cons.prems(2) show ?thesis by simp
      next
        case False
        with IH(2) [OF uy, of prev] seen prev show ?thesis by simp
      qed
      moreover have "\<forall>y \<in> set (allowed_calls (timed_run Allow dedup_sweep es d')). spaced (d_window d) (now, x) y"
        using rest by (auto simp: spaced_def)
      ultimately show ?thesis using old IH(1) unfolding all by auto
    qed
  qed
qed

lemma allowed_spaced:
  assumes "0 < w" and "w \<le> max_duration" and "sorted (map fst es)"
  shows "sorted_wrt (spaced w) (allowed_calls (timed_run Allow dedup_sweep es (Dedup_New w)))"
proof -
  have "sorted_wrt sweeps_behind es"
    using assms(3) by (induction es) (auto simp: sweeps_behind_def)
  then show ?thesis
    using late_clock_spaced [of "Dedup_New w" es] assms(1,2) by (simp add: dedup_ok_def Dedup_New_def)
qed

lemma allowed_covers:
  assumes "0 < w" and "w \<le> max_duration" and "sorted (map fst es)" and "(t, Some sc) \<in> set es"
  shows "\<exists>(u, sc') \<in> set (allowed_calls (timed_run Allow dedup_sweep es (Dedup_New w))).
           dedup_key sc' = dedup_key sc \<and> u \<le> t \<and> t < u + w"
proof -
  define h where "h = timed_run Allow dedup_sweep es (Dedup_New w)"
  have "(t, Some sc) \<in> set (only_acts es)" using assms(4) by (simp add: only_acts_def)
  then have "(t, Some sc) \<in> set (map (\<lambda>(t, x, r). (t, Some x)) h)"
    by (simp only: h_def timed_run_acts)
  then obtain r where "(t, sc, r) \<in> set h" by auto
  then obtain j where j: "j < length h" "h ! j = (t, sc, r)" by (metis in_set_conv_nth)
  have sorted: "sorted (map fst h)"
    using assms(3) by (simp add: h_def timed_run_times only_acts_def sorted_filter)
  have spec: "r = fresh_in (take j h) w t sc"
  proof (cases es)
    case Nil
    with j show ?thesis by (simp add: h_def)
  next
    case (Cons e es')
    with assms(1-3) j show ?thesis
      using run_agrees [of "Dedup_New w" "[]" "fst e" es j t sc r] agrees_with_log_New [of "fst e" w]
      by (simp add: h_def dedup_ok_def Dedup_New_def)
  qed
  have allowed: "(u, x) \<in> set (allowed_calls h)" if "(u, x, True) \<in> set h" for u x
    using that by (force simp: allowed_calls_def)
  show ?thesis
  proof (cases r)
    case True
    with j have "(t, sc, True) \<in> set h" by (metis nth_mem)
    from allowed [OF this] assms(1) show ?thesis by (auto simp: h_def intro!: bexI [of _ "(t, sc)"])
  next
    case False
    with spec obtain u x where ux: "(u, x, True) \<in> set (take j h)" "dedup_key x = dedup_key sc" "t < u + w"
      unfolding fresh_in_def by (auto simp: not_le) (meson not_le)
    then obtain i where i: "i < j" "h ! i = (u, x, True)"
      using j(1) by (auto simp: in_set_conv_nth)
    then have "u \<le> t" using sorted_nth_mono [OF sorted, of i j] j by simp
    moreover have "(u, x, True) \<in> set h" using ux(1) by (rule in_set_takeD)
    ultimately show ?thesis using allowed [of u x] ux by (auto simp: h_def intro!: bexI [of _ "(u, x)"])
  qed
qed

section \<open>Properties\<close>

text \<open>One batch, every record counted once: \<open>Report\<close> counts one batch and each of its
  records under exactly one of the five results, so the five counters together grow by
  the number of records; the cache, the rules and the sink are as before.\<close>

lemma Report_counts:
  "m_Batches (Report env rs p) = m_Batches p + 1
   \<and> total_records (Report env rs p) = total_records p + length rs
   \<and> pl_cache (Report env rs p) = pl_cache p \<and> pl_matcher (Report env rs p) = pl_matcher p
   \<and> pl_sink (Report env rs p) = pl_sink p"
proof -
  let ?p = "p\<lparr>m_Batches := m_Batches p + 1\<rparr>"
  have "total_records ?p = total_records p" by (simp add: total_records_def all_results_def)
  then show ?thesis
    using total_records_report [of env rs ?p] report_loop_config [of env rs ?p] by (simp add: Report_def)
qed


text \<open>Repeated edges are spaced: while events are handled at times that do not go back,
  sweeps included or not, any two emitted edges with the same key are at least the
  deduplication window apart.\<close>

lemma emitted_edges_spaced:
  assumes "0 < w" and "w \<le> max_duration" and "sorted (map fst es)" and "pl_deduper p = Dedup_New w"
    and "i < j" and "j < length (emitted_calls env es p)"
    and "emitted_calls env es p ! i = (t, sc)" and "emitted_calls env es p ! j = (u, sc')"
    and "dedup_key sc = dedup_key sc'"
  shows "t + w \<le> u"
proof -
  have "sorted_wrt (spaced w) (emitted_calls env es p)"
    unfolding emitted_calls_log assms(4)
    by (rule allowed_spaced [OF assms(1,2) sorted_deduper_calls [OF assms(3)]])
  then have "spaced w (emitted_calls env es p ! i) (emitted_calls env es p ! j)"
    using assms(5,6) by (simp add: sorted_wrt_iff_nth_less)
  then show ?thesis using assms(7-9) by (simp add: spaced_def)
qed

definition sample_pipeline :: Pipeline where
  "sample_pipeline = NewPipeline NewCache None (Dedup_New 30) LoggerSink"

definition sample_env :: emit_env where
  "sample_env = \<lparr>env_render = (\<lambda>m _. m), env_TryProduce = (\<lambda>_ _. Delivered)\<rparr>"

text \<open>C11. No edge is lost to deduplication: whenever an event that passes the two other
  filters is handled, an edge with its key is emitted then or was emitted less than a
  window before.\<close>

theorem passing_edges_emitted:
  assumes "0 < w" and "w \<le> max_duration" and "sorted (map fst es)" and "pl_deduper p = Dedup_New w"
    and "(t, ev) \<in> set es" and "Outbound ev \<or> IsExternal (sc_Source (enriched p ev))"
    and "\<not> ShouldIgnoreCall (pl_matcher p) (enriched p ev)"
  shows "\<exists>u sc. (u, sc) \<in> set (emitted_calls env es p)
    \<and> dedup_key sc = dedup_key (enriched p ev) \<and> u \<le> t \<and> t < u + w"
proof -
  have "passes p ev" using assms(6,7) by (simp add: passes_def)
  with assms(5) have "(t, Some (enriched p ev)) \<in> set (deduper_calls p es)"
    by (force simp: deduper_calls_def)
  from allowed_covers [OF assms(1,2) sorted_deduper_calls [OF assms(3)] this]
  show ?thesis unfolding emitted_calls_log assms(4) by auto
qed

theorem passing_edges_emitted_witness:
  "\<exists>u sc. (u, sc) \<in> set (emitted_calls sample_env [(0, sample_event)] sample_pipeline)
     \<and> dedup_key sc = dedup_key (enriched sample_pipeline sample_event) \<and> u \<le> 0 \<and> 0 < u + 30"
proof -
  have "pl_deduper sample_pipeline = Dedup_New 30" "Outbound sample_event"
    "\<not> ShouldIgnoreCall (pl_matcher sample_pipeline) (enriched sample_pipeline sample_event)"
    by (simp_all add: sample_event_def sample_pipeline_def NewPipeline_def ShouldIgnoreCall_def ShouldIgnore_def)
  with passing_edges_emitted [of 30 "[(0, sample_event)]" sample_pipeline 0 sample_event sample_env]
  show ?thesis by (simp add: max_duration_def)
qed

text \<open>Whose call an edge names. The source is the workload of the source address, except
  that a node or an unknown address gives way to the workload of the connecting
  process's pod when its UID is known; the destination is the workload of the
  destination address, except that an external one takes the host name seen in DNS; an
  unknown address is an external peer named by its text. Port, protocol and the
  declared application protocol are the destination's.\<close>

lemma Enrich_names:
  fixes ev store lookup ports
  defines "sc \<equiv> Enrich ev store (Some lookup) (Some ports)"
    and "by_uid \<equiv> (if SrcPodUID ev = [] then None else lookup (SrcPodUID ev))"
  shows "sc_Source sc =
      (case store (SrcIP ev) of
         Some w \<Rightarrow> if w_Kind w \<in> {KindNode, KindExternal} then (case by_uid of Some v \<Rightarrow> v | None \<Rightarrow> w) else w
       | None \<Rightarrow> (case by_uid of Some v \<Rightarrow> v
           | None \<Rightarrow> \<lparr>w_Name = addr_string (SrcIP ev), w_Namespace = [], w_Kind = KindExternal\<rparr>))
    \<and> sc_Dest sc =
      (case store (DstIP ev) of
         Some w \<Rightarrow> if w_Kind w = KindExternal \<and> DstHostname ev \<noteq> [] then w\<lparr>w_Name := DstHostname ev\<rparr> else w
       | None \<Rightarrow> \<lparr>w_Name = (if DstHostname ev = [] then addr_string (DstIP ev) else DstHostname ev),
                  w_Namespace = [], w_Kind = KindExternal\<rparr>)
    \<and> sc_DestPort sc = DstPort ev \<and> sc_DestProtocol sc = Protocol ev
    \<and> sc_DestAppProtocol sc = (case ports (DstIP ev) (DstPort ev) of None \<Rightarrow> [] | Some l7 \<Rightarrow> l7)"
  unfolding sc_def by_uid_def Enrich_dest
  by (simp add: Enrich_source split: option.split) (simp add: Enrich_def Let_def split: option.split)

text \<open>What arrives is what was sent: the record a drain writes for a flow is accepted by
  the processor and gives back the flow's addresses, port, protocol, side, pod UID,
  command and host name, for every address the decoder can produce.\<close>

lemma wire_roundtrip:
  assumes "wire_addr (k_src k)" and "wire_addr (k_dst k)"
    and "unmap (k_src k) = k_src k" and "unmap (k_dst k) = k_dst k"
  shows "toEvent (flow_record k f) = Some
     \<lparr>SrcIP = k_src k, DstIP = k_dst k, SrcPort = 0, DstPort = k_dstPort k, Protocol = k_proto k, PID = 0,
      Comm = f_comm f, Outbound = k_outbound k, SrcPodUID = k_podUID k, DstHostname = f_hostname f\<rparr>"
  using toEvent_flow_record [OF assms(1,2)] assms(3,4) by simp

text \<open>The processor accepts a record exactly when both addresses have 4 or 16 bytes, the
  port fits 16 bits and the protocol 8; an accepted event has unmapped addresses, so
  an IPv4 peer is found in the cache whichever form it was sent in.\<close>

lemma toEvent_accepts:
  "(toEvent r \<noteq> None \<longleftrightarrow>
      length (fr_SrcIp r) \<in> {4, 16} \<and> length (fr_DstIp r) \<in> {4, 16}
      \<and> unat (fr_DstPort r) \<le> 65535 \<and> unat (fr_Protocol r) \<le> 255)
   \<and> (toEvent r = Some e \<longrightarrow> unmap (SrcIP e) = SrcIP e \<and> unmap (DstIP e) = DstIP e
        \<and> unat (DstPort e) = unat (fr_DstPort r))"
proof (intro conjI impI)
  show "toEvent r \<noteq> None \<longleftrightarrow> length (fr_SrcIp r) \<in> {4, 16} \<and> length (fr_DstIp r) \<in> {4, 16}
      \<and> unat (fr_DstPort r) \<le> 65535 \<and> unat (fr_Protocol r) \<le> 255"
    by (auto simp: toEvent_def addr_from_slice_def split: if_splits)
  assume e: "toEvent r = Some e"
  then show "unmap (SrcIP e) = SrcIP e" "unmap (DstIP e) = DstIP e"
    by (auto simp: toEvent_def split: option.splits if_splits)
  from e have "unat (fr_DstPort r) \<le> 65535" "DstPort e = ucast (fr_DstPort r)"
    by (auto simp: toEvent_def split: option.splits if_splits)
  then show "unat (DstPort e) = unat (fr_DstPort r)"
    by (simp add: unsigned_ucast_eq take_bit_nat_eq_self)
qed

end
