(* ===== verification/Endpoints.thy ===== *)
theory Endpoints
  imports Workload_Cache
begin

text \<open>
  \<open>internal/resolver/endpoints.go\<close>: the port entries and the ClusterIPs of Services
  and EndpointSlices, and the identity a ClusterIP stands for. The Kubernetes API
  objects are records of the fields the resolver reads; the rest of an object is
  the opaque field \<open>unread\<close>. A pointer that may be nil is an option.
\<close>

section \<open>API objects\<close>

record OwnerReference =
  or_Kind :: string
  or_Name :: string
  or_Controller :: "bool option"

record Pod =
  pod_Namespace :: string
  pod_Name :: string
  pod_UID :: string
  pod_OwnerReferences :: "OwnerReference list"
  pod_HostNetwork :: bool
  pod_PodIP :: string
  pod_PodIPs :: "string list"
  pod_unread :: string

record Owned =
  \<comment> \<open>a ReplicaSet or a Job\<close>
  own_Namespace :: string
  own_Name :: string
  own_OwnerReferences :: "OwnerReference list"
  own_unread :: string

record NodeAddress =
  na_Type :: string
  na_Address :: string

record Node =
  node_Name :: string
  node_Addresses :: "NodeAddress list"
  node_unread :: string

record ServicePort =
  sp_Name :: string
  sp_AppProtocol :: "string option"
  sp_Port :: "32 word"

record Service =
  svc_Namespace :: string
  svc_Name :: string
  svc_ClusterIP :: string
  svc_ClusterIPs :: "string list"
  svc_Ports :: "ServicePort list"
  svc_unread :: string

record EndpointPort =
  ep_Name :: "string option"
  ep_AppProtocol :: "string option"
  ep_Port :: "32 word option"

record Endpoint =
  ep_Addresses :: "string list"
  ep_unread :: string

record EndpointSlice =
  es_Namespace :: string
  es_Name :: string
  es_Labels :: "(string, string) fmap"
  es_Ports :: "EndpointPort list"
  es_Endpoints :: "Endpoint list"
  es_unread :: string

section \<open>Operations\<close>

record portEntry =
  pe_ip :: addr
  pe_port :: "16 word"
  pe_l7 :: string

definition ClusterIPNone :: string where "ClusterIPNone = ''None''"

fun derefString :: "string option \<Rightarrow> string" where
  "derefString None = []"
| "derefString (Some s) = s"

fun parseable :: "string list \<Rightarrow> addr list" where
  \<comment> \<open>the loop that appends the addresses \<open>ParseAddr\<close> accepts\<close>
  "parseable [] = []"
| "parseable (s # ss) = (case parse_addr s of None \<Rightarrow> parseable ss | Some a \<Rightarrow> a # parseable ss)"

definition clusterIPs :: "Service \<Rightarrow> addr list" where
  "clusterIPs svc =
     (let raw = (if svc_ClusterIPs svc = [] \<and> svc_ClusterIP svc \<noteq> [] then [svc_ClusterIP svc]
                 else svc_ClusterIPs svc)
      in parseable (filter (\<lambda>s. \<not> (s = [] \<or> s = ClusterIPNone)) raw))"

fun service_port_entries :: "unicode_lower \<Rightarrow> addr list \<Rightarrow> ServicePort list \<Rightarrow> portEntry list" where
  "service_port_entries uni ips [] = []"
| "service_port_entries uni ips (p # ps) =
     (let l7 = NormalizeL7 uni (derefString (sp_AppProtocol p)) (sp_Name p)
      in if l7 = [] then service_port_entries uni ips ps
         else map (\<lambda>ip. \<lparr>pe_ip = ip, pe_port = ucast (sp_Port p), pe_l7 = l7\<rparr>) ips
              @ service_port_entries uni ips ps)"

definition serviceEntries :: "unicode_lower \<Rightarrow> Service option \<Rightarrow> portEntry list" where
  "serviceEntries uni svc =
     (case svc of
        None \<Rightarrow> []
      | Some svc \<Rightarrow>
          let ips = clusterIPs svc
          in if ips = [] then [] else service_port_entries uni ips (svc_Ports svc))"

fun slice_port_entries :: "unicode_lower \<Rightarrow> Endpoint list \<Rightarrow> EndpointPort list \<Rightarrow> portEntry list" where
  "slice_port_entries uni eps [] = []"
| "slice_port_entries uni eps (p # ps) =
     (case ep_Port p of
        None \<Rightarrow> slice_port_entries uni eps ps
      | Some port \<Rightarrow>
          let l7 = NormalizeL7 uni (derefString (ep_AppProtocol p)) (derefString (ep_Name p))
          in if l7 = [] then slice_port_entries uni eps ps
             else map (\<lambda>a. \<lparr>pe_ip = a, pe_port = ucast port, pe_l7 = l7\<rparr>)
                      (concat (map (\<lambda>ep. parseable (ep_Addresses ep)) eps))
                  @ slice_port_entries uni eps ps)"

definition endpointSliceEntries :: "unicode_lower \<Rightarrow> EndpointSlice option \<Rightarrow> portEntry list" where
  "endpointSliceEntries uni es =
     (case es of None \<Rightarrow> [] | Some es \<Rightarrow> slice_port_entries uni (es_Endpoints es) (es_Ports es))"

definition isPodWorkload :: "Workload \<Rightarrow> bool" where
  "isPodWorkload w =
     (if w_Kind w \<in> {KindExternal, KindNode, KindService, KindServiceEntry} then False else True)"

record scan =
  sc_first :: "Workload option"  \<comment> \<open>\<open>first\<close> and \<open>found\<close>\<close>
  sc_multiple :: bool

definition scan_address :: "(addr \<Rightarrow> Workload option) \<Rightarrow> string \<Rightarrow> scan \<Rightarrow> scan" where
  \<comment> \<open>the body of the innermost loop of \<open>serviceWorkload\<close>\<close>
  "scan_address store address s =
     (case parse_addr address of
        None \<Rightarrow> s
      | Some ip \<Rightarrow>
          (case store ip of
             None \<Rightarrow> s
           | Some wl \<Rightarrow>
               if \<not> isPodWorkload wl then s
               else case sc_first s of
                   None \<Rightarrow> s\<lparr>sc_first := Some wl\<rparr>
                 | Some first \<Rightarrow> if wl \<noteq> first then s\<lparr>sc_multiple := True\<rparr> else s))"

definition scan_slice :: "(addr \<Rightarrow> Workload option) \<Rightarrow> EndpointSlice option \<Rightarrow> scan \<Rightarrow> scan" where
  "scan_slice store es s =
     (case es of
        None \<Rightarrow> s
      | Some es \<Rightarrow> fold (\<lambda>ep. fold (scan_address store) (ep_Addresses ep)) (es_Endpoints es) s)"

definition serviceWorkload ::
  "Service option \<Rightarrow> EndpointSlice option list \<Rightarrow> (addr \<Rightarrow> Workload option) \<Rightarrow> Workload option" where
  "serviceWorkload svc slices store =
     (case svc of
        None \<Rightarrow> None
      | Some svc \<Rightarrow>
          let s = fold (scan_slice store) slices \<lparr>sc_first = None, sc_multiple = False\<rparr>
          in case sc_first s of
               None \<Rightarrow> None
             | Some first \<Rightarrow>
                 if sc_multiple s
                 then Some \<lparr>w_Name = svc_Name svc, w_Namespace = svc_Namespace svc, w_Kind = KindService\<rparr>
                 else Some first)"

section \<open>Specification\<close>

definition slice_addresses :: "EndpointSlice option \<Rightarrow> string list" where
  "slice_addresses es = (case es of None \<Rightarrow> [] | Some es \<Rightarrow> concat (map ep_Addresses (es_Endpoints es)))"

definition backing :: "EndpointSlice option list \<Rightarrow> (addr \<Rightarrow> Workload option) \<Rightarrow> Workload list" where
  \<comment> \<open>the pod-owned workloads behind the slices, in order, repetitions kept\<close>
  "backing slices store =
     filter isPodWorkload (List.map_filter store (parseable (concat (map slice_addresses slices))))"

section \<open>Facts\<close>

lemma parseable_append [simp]: "parseable (xs @ ys) = parseable xs @ parseable ys"
  by (induction xs) (auto split: option.split)

lemma parseable_concat: "parseable (concat xss) = concat (map parseable xss)"
  by (induction xss) auto

lemma parseable_iff: "a \<in> set (parseable ss) \<longleftrightarrow> (\<exists>s \<in> set ss. parse_addr s = Some a)"
proof (induction ss)
  case Nil
  show ?case by simp
next
  case (Cons s ss)
  then show ?case by (cases "parse_addr s") auto
qed

lemma scan_slice_addresses: "scan_slice store es = fold (scan_address store) (slice_addresses es)"
  by (auto simp: scan_slice_def slice_addresses_def fun_eq_iff fold_map fold_nested comp_def
      split: option.split)

definition scanned :: "Workload list \<Rightarrow> scan" where
  "scanned ws = \<lparr>sc_first = (if ws = [] then None else Some (hd ws)), sc_multiple = (\<exists>w \<in> set ws. w \<noteq> hd ws)\<rparr>"

definition looked_up :: "(addr \<Rightarrow> Workload option) \<Rightarrow> string list \<Rightarrow> Workload list" where
  "looked_up store addresses = filter isPodWorkload (List.map_filter store (parseable addresses))"

lemma map_filter_append [simp]: "List.map_filter f (xs @ ys) = List.map_filter f xs @ List.map_filter f ys"
  by (simp add: List.map_filter_def)

lemma scan_addresses:
  "fold (scan_address store) addresses (scanned []) = scanned (looked_up store addresses)"
proof (induction addresses rule: rev_induct)
  case Nil
  show ?case by (simp add: looked_up_def List.map_filter_def)
next
  case (snoc a as)
  have "looked_up store (as @ [a]) = looked_up store as @
      (case parse_addr a of None \<Rightarrow> [] | Some ip \<Rightarrow>
         (case store ip of None \<Rightarrow> [] | Some wl \<Rightarrow> if isPodWorkload wl then [wl] else []))"
    by (auto simp: looked_up_def List.map_filter_def split: option.splits)
  with snoc show ?case
    by (auto simp: scan_address_def scanned_def split: option.splits)
qed

lemma serviceWorkload_backing:
  "serviceWorkload (Some svc) slices store =
     (if backing slices store = [] then None
      else if \<exists>w \<in> set (backing slices store). w \<noteq> hd (backing slices store)
      then Some \<lparr>w_Name = svc_Name svc, w_Namespace = svc_Namespace svc, w_Kind = KindService\<rparr>
      else Some (hd (backing slices store)))"
proof -
  have "fold (scan_slice store) slices (scanned []) = scanned (backing slices store)"
    using scan_addresses [of store "concat (map slice_addresses slices)"]
    unfolding fold_nested fold_map by (simp add: scan_slice_addresses [abs_def] comp_def looked_up_def backing_def)
  then show ?thesis by (simp add: serviceWorkload_def scanned_def Let_def)
qed

lemma serviceWorkload_store_cong:
  "\<lbrakk>\<forall>s \<in> set (concat (map slice_addresses slices)). \<forall>ip. parse_addr s = Some ip \<longrightarrow> store ip = store' ip\<rbrakk>
     \<Longrightarrow> serviceWorkload svc slices store = serviceWorkload svc slices store'"
proof -
  assume agree: "\<forall>s \<in> set (concat (map slice_addresses slices)). \<forall>ip. parse_addr s = Some ip \<longrightarrow> store ip = store' ip"
  have "\<forall>ip \<in> set (parseable (concat (map slice_addresses slices))). store ip = store' ip"
    using agree by (auto simp: parseable_iff)
  then have "List.map_filter store (parseable (concat (map slice_addresses slices)))
      = List.map_filter store' (parseable (concat (map slice_addresses slices)))"
    unfolding List.map_filter_def by (intro map_cong filter_cong) (auto intro: filter_cong)
  then have "backing slices store = backing slices store'" by (simp add: backing_def)
  then show ?thesis by (cases svc) (simp_all add: serviceWorkload_backing, simp add: serviceWorkload_def)
qed

lemma backing_pod: "w \<in> set (backing slices store) \<Longrightarrow> isPodWorkload w"
  by (simp add: backing_def)

end
