(* ===== verification/Transform.thy ===== *)
theory Transform
  imports Endpoints
begin

text \<open>
  \<open>internal/resolver/transform_linux.go\<close>: the informer transform that keeps of every
  object only what the resolver reads. A value of Go's type \<open>any\<close> is a
  \<open>kube_object\<close>; a \<open>Tombstone\<close> is \<open>cache.DeletedFinalStateUnknown\<close>.
\<close>

datatype kube_object =
    PodObj Pod
  | ReplicaSetObj Owned
  | JobObj Owned
  | NodeObj Node
  | ServiceObj Service
  | EndpointSliceObj EndpointSlice
  | Tombstone kube_object
  | OtherObj string

definition endpointSliceServiceNameLabel :: string where
  "endpointSliceServiceNameLabel = ''kubernetes.io/service-name''"

definition trimSliceLabels :: "(string, string) fmap \<Rightarrow> (string, string) fmap" where
  "trimSliceLabels labels =
     (case fmlookup labels endpointSliceServiceNameLabel of
        None \<Rightarrow> fmempty
      | Some name \<Rightarrow> fmupd endpointSliceServiceNameLabel name fmempty)"

definition trimEndpoints :: "Endpoint list \<Rightarrow> Endpoint list" where
  "trimEndpoints eps = map (\<lambda>ep. \<lparr>ep_Addresses = ep_Addresses ep, ep_unread = []\<rparr>) eps"

definition trim_pod :: "Pod \<Rightarrow> Pod" where
  "trim_pod p =
     \<lparr>pod_Namespace = pod_Namespace p, pod_Name = pod_Name p, pod_UID = pod_UID p,
      pod_OwnerReferences = pod_OwnerReferences p, pod_HostNetwork = pod_HostNetwork p,
      pod_PodIP = pod_PodIP p, pod_PodIPs = pod_PodIPs p, pod_unread = []\<rparr>"

definition trim_owned :: "Owned \<Rightarrow> Owned" where
  "trim_owned x =
     \<lparr>own_Namespace = own_Namespace x, own_Name = own_Name x,
      own_OwnerReferences = own_OwnerReferences x, own_unread = []\<rparr>"

definition trim_node :: "Node \<Rightarrow> Node" where
  "trim_node n = \<lparr>node_Name = node_Name n, node_Addresses = node_Addresses n, node_unread = []\<rparr>"

definition trim_service :: "Service \<Rightarrow> Service" where
  "trim_service s =
     \<lparr>svc_Namespace = svc_Namespace s, svc_Name = svc_Name s, svc_ClusterIP = svc_ClusterIP s,
      svc_ClusterIPs = svc_ClusterIPs s, svc_Ports = svc_Ports s, svc_unread = []\<rparr>"

definition trim_slice :: "EndpointSlice \<Rightarrow> EndpointSlice" where
  "trim_slice es =
     \<lparr>es_Namespace = es_Namespace es, es_Name = es_Name es, es_Labels = trimSliceLabels (es_Labels es),
      es_Ports = es_Ports es, es_Endpoints = trimEndpoints (es_Endpoints es), es_unread = []\<rparr>"

fun trimObject :: "kube_object \<Rightarrow> kube_object" where
  "trimObject (PodObj p) = PodObj (trim_pod p)"
| "trimObject (ReplicaSetObj x) = ReplicaSetObj (trim_owned x)"
| "trimObject (JobObj x) = JobObj (trim_owned x)"
| "trimObject (NodeObj n) = NodeObj (trim_node n)"
| "trimObject (ServiceObj s) = ServiceObj (trim_service s)"
| "trimObject (EndpointSliceObj es) = EndpointSliceObj (trim_slice es)"
| "trimObject (Tombstone x) = Tombstone x"
| "trimObject (OtherObj s) = OtherObj s"

lemmas trim_defs = trim_pod_def trim_owned_def trim_node_def trim_service_def trim_slice_def

section \<open>Facts\<close>

lemma trimSliceLabels_lookup:
  "fmlookup (trimSliceLabels m) endpointSliceServiceNameLabel = fmlookup m endpointSliceServiceNameLabel"
  by (simp add: trimSliceLabels_def split: option.split)

lemma trimSliceLabels_dom: "fmlookup (trimSliceLabels m) k \<noteq> None \<Longrightarrow> k = endpointSliceServiceNameLabel"
  by (auto simp: trimSliceLabels_def split: option.splits if_splits)

lemma trimSliceLabels_idem: "trimSliceLabels (trimSliceLabels m) = trimSliceLabels m"
  by (auto simp: trimSliceLabels_def split: option.split)

lemma trimEndpoints_addresses: "map ep_Addresses (trimEndpoints eps) = map ep_Addresses eps"
  by (simp add: trimEndpoints_def comp_def)

lemma trimObject_idem: "trimObject (trimObject obj) = trimObject obj"
  by (cases obj) (simp_all add: trim_defs trimSliceLabels_idem trimEndpoints_def comp_def)

text \<open>What the resolver computes from an object does not change.\<close>

lemma trim_fields:
  "pod_Namespace (trim_pod p) = pod_Namespace p" "pod_Name (trim_pod p) = pod_Name p"
  "pod_UID (trim_pod p) = pod_UID p" "pod_OwnerReferences (trim_pod p) = pod_OwnerReferences p"
  "pod_HostNetwork (trim_pod p) = pod_HostNetwork p" "pod_PodIP (trim_pod p) = pod_PodIP p"
  "pod_PodIPs (trim_pod p) = pod_PodIPs p"
  "own_OwnerReferences (trim_owned x) = own_OwnerReferences x"
  "node_Name (trim_node n) = node_Name n" "node_Addresses (trim_node n) = node_Addresses n"
  "svc_Namespace (trim_service s) = svc_Namespace s" "svc_Name (trim_service s) = svc_Name s"
  "svc_ClusterIP (trim_service s) = svc_ClusterIP s" "svc_ClusterIPs (trim_service s) = svc_ClusterIPs s"
  "svc_Ports (trim_service s) = svc_Ports s"
  "es_Namespace (trim_slice es) = es_Namespace es" "es_Ports (trim_slice es) = es_Ports es"
  "es_Labels (trim_slice es) = trimSliceLabels (es_Labels es)"
  "es_Endpoints (trim_slice es) = trimEndpoints (es_Endpoints es)"
  by (simp_all add: trim_defs)

lemma service_trim [simp]:
  "clusterIPs (trim_service s) = clusterIPs s"
  "serviceEntries uni (Some (trim_service s)) = serviceEntries uni (Some s)"
  by (simp_all only: clusterIPs_def serviceEntries_def trim_fields option.case)

lemma slice_port_entries_trim [simp]:
  "slice_port_entries uni (trimEndpoints eps) ps = slice_port_entries uni eps ps"
  by (induction uni eps ps rule: slice_port_entries.induct)
    (simp_all add: Let_def trimEndpoints_def comp_def split: option.split)

lemma slice_trim [simp]:
  "endpointSliceEntries uni (Some (trim_slice es)) = endpointSliceEntries uni (Some es)"
  "slice_addresses (Some (trim_slice es)) = slice_addresses (Some es)"
  by (simp_all add: endpointSliceEntries_def slice_addresses_def trim_fields trimEndpoints_addresses)

lemma backing_trim [simp]: "backing (map (Some \<circ> trim_slice) slices) store = backing (map Some slices) store"
  by (simp add: backing_def comp_def)

lemma serviceWorkload_trim [simp]:
  "serviceWorkload (Some (trim_service s)) (map (Some \<circ> trim_slice) slices) store =
   serviceWorkload (Some s) (map Some slices) store"
  by (simp add: serviceWorkload_backing trim_fields)

end
