(* ===== verification/Controller.thy ===== *)
theory Controller
  imports Transform
begin

text \<open>
  \<open>internal/resolver/k8s_linux.go\<close> and \<open>endpoints_linux.go\<close>: the informer handlers
  that keep the workload cache. The listers (the informers' own stores) belong to
  client-go and are the argument \<open>L\<close>; \<open>None\<close> is an error return. A handler is the
  sequence of its cache operations, run here without another handler in between
  (\<open>Handlers_Concurrent\<close> interleaves them); the informers' start-up order is in
  \<open>Startup\<close>, and log lines are left out.
\<close>

section \<open>Listers and owners\<close>

record listers =
  ls_Pod :: "string \<Rightarrow> string \<Rightarrow> Pod option"
  ls_ReplicaSet :: "string \<Rightarrow> string \<Rightarrow> Owned option"
  ls_Job :: "string \<Rightarrow> string \<Rightarrow> Owned option"
  ls_Service :: "string \<Rightarrow> string \<Rightarrow> Service option"
  ls_Services :: "Service list option"
  ls_Slices :: "string \<Rightarrow> string \<Rightarrow> EndpointSlice list option"
    \<comment> \<open>of a namespace, those labelled with a service name\<close>

fun controllerOf :: "OwnerReference list \<Rightarrow> (string \<times> string) option" where
  "controllerOf [] = None"
| "controllerOf (r # rs) =
     (if or_Controller r = Some True then Some (or_Kind r, or_Name r) else controllerOf rs)"

definition GetController :: "listers \<Rightarrow> owner_lookup" where
  "GetController L kind namespace name =
     (if kind = ''Pod'' then
        (case ls_Pod L namespace name of None \<Rightarrow> None | Some p \<Rightarrow> controllerOf (pod_OwnerReferences p))
      else if kind = ''ReplicaSet'' then
        (case ls_ReplicaSet L namespace name of None \<Rightarrow> None | Some x \<Rightarrow> controllerOf (own_OwnerReferences x))
      else if kind = ''Job'' then
        (case ls_Job L namespace name of None \<Rightarrow> None | Some x \<Rightarrow> controllerOf (own_OwnerReferences x))
      else None)"

section \<open>Pods and nodes\<close>

definition podIPs :: "Pod \<Rightarrow> addr list" where
  "podIPs pod =
     (let out = parseable (pod_PodIPs pod)
      in if out = [] \<and> pod_PodIP pod \<noteq> [] then parseable [pod_PodIP pod] else out)"

definition NodeInternalIP :: string where "NodeInternalIP = ''InternalIP''"

definition nodeInternalIPs :: "Node \<Rightarrow> addr list" where
  "nodeInternalIPs node =
     parseable (map na_Address (filter (\<lambda>a. na_Type a = NodeInternalIP) (node_Addresses node)))"

definition onPod :: "listers \<Rightarrow> kube_object \<Rightarrow> WCache \<Rightarrow> WCache" where
  "onPod L obj c =
     (case obj of
        PodObj pod \<Rightarrow>
          let wl = ResolveTopOwner ''Pod'' (pod_Namespace pod) (pod_Name pod) (GetController L);
              c = (if pod_UID pod \<noteq> [] then UpsertUID (pod_UID pod) wl c else c)
          in if pod_HostNetwork pod then c
             else let ips = podIPs pod in if ips = [] then c else fold (\<lambda>ip. Upsert ip wl) ips c
      | _ \<Rightarrow> c)"

fun as_pod :: "kube_object \<Rightarrow> Pod option" where
  \<comment> \<open>the object of a delete event, with its tombstone unwrapped\<close>
  "as_pod (PodObj p) = Some p"
| "as_pod (Tombstone (PodObj p)) = Some p"
| "as_pod _ = None"

definition onPodDelete :: "kube_object \<Rightarrow> WCache \<Rightarrow> WCache" where
  "onPodDelete obj c =
     (case as_pod obj of
        None \<Rightarrow> c
      | Some pod \<Rightarrow>
          let c = fold Delete (podIPs pod) c
          in if pod_UID pod \<noteq> [] then DeleteUID (pod_UID pod) c else c)"

definition onNode :: "kube_object \<Rightarrow> WCache \<Rightarrow> WCache" where
  "onNode obj c =
     (case obj of
        NodeObj node \<Rightarrow>
          let wl = \<lparr>w_Name = node_Name node, w_Namespace = [], w_Kind = KindNode\<rparr>
          in fold (\<lambda>ip. Upsert ip wl) (nodeInternalIPs node) c
      | _ \<Rightarrow> c)"

fun as_node :: "kube_object \<Rightarrow> Node option" where
  "as_node (NodeObj n) = Some n"
| "as_node (Tombstone (NodeObj n)) = Some n"
| "as_node _ = None"

definition onNodeDelete :: "kube_object \<Rightarrow> WCache \<Rightarrow> WCache" where
  "onNodeDelete obj c =
     (case as_node obj of None \<Rightarrow> c | Some node \<Rightarrow> fold Delete (nodeInternalIPs node) c)"

section \<open>Port index\<close>

definition indexPorts :: "portEntry list \<Rightarrow> WCache \<Rightarrow> WCache" where
  "indexPorts entries = fold (\<lambda>e. UpsertPort (pe_ip e) (pe_port e) (pe_l7 e)) entries"

definition deletePorts :: "portEntry list \<Rightarrow> WCache \<Rightarrow> WCache" where
  "deletePorts entries = fold (\<lambda>e. DeletePort (pe_ip e) (pe_port e)) entries"

definition entry_key :: "portEntry \<Rightarrow> portKey" where
  "entry_key e = port_key (pe_ip e) (pe_port e)"

definition reindexPorts :: "portEntry list \<Rightarrow> portEntry list \<Rightarrow> WCache \<Rightarrow> WCache" where
  "reindexPorts old updated c =
     (let c = indexPorts updated c; kept = entry_key ` set updated
      in fold (\<lambda>e c. if entry_key e \<notin> kept then DeletePort (pe_ip e) (pe_port e) c else c) old c)"

section \<open>ClusterIPs\<close>

definition syncServiceClusterIPs :: "listers \<Rightarrow> Service option \<Rightarrow> WCache \<Rightarrow> WCache" where
  "syncServiceClusterIPs L svc c =
     (case svc of
        None \<Rightarrow> c
      | Some s \<Rightarrow>
          let ips = clusterIPs s in
          if ips = [] then c
          else case ls_Slices L (svc_Namespace s) (svc_Name s) of
              None \<Rightarrow> c
            | Some slices \<Rightarrow>
                (case serviceWorkload svc (map Some slices) (LookupIP c) of
                   Some wl \<Rightarrow> fold (\<lambda>ip. Upsert ip wl) ips c
                 | None \<Rightarrow> fold Delete ips c))"

definition service_name_label :: "EndpointSlice \<Rightarrow> string" where
  \<comment> \<open>\<open>es.Labels[endpointSliceServiceNameLabel]\<close>\<close>
  "service_name_label es = fst (go_get [] (es_Labels es) endpointSliceServiceNameLabel)"

definition syncServiceForSlice :: "listers \<Rightarrow> EndpointSlice option \<Rightarrow> WCache \<Rightarrow> WCache" where
  "syncServiceForSlice L es c =
     (case es of
        None \<Rightarrow> c
      | Some es \<Rightarrow>
          let serviceName = service_name_label es in
          if serviceName = [] then c
          else case ls_Service L (es_Namespace es) serviceName of
              None \<Rightarrow> c
            | Some svc \<Rightarrow> syncServiceClusterIPs L (Some svc) c)"

definition reindexAllClusterIPs :: "listers \<Rightarrow> WCache \<Rightarrow> WCache" where
  "reindexAllClusterIPs L c =
     (case ls_Services L of
        None \<Rightarrow> c
      | Some services \<Rightarrow> fold (\<lambda>svc. syncServiceClusterIPs L (Some svc)) services c)"

section \<open>Services and EndpointSlices\<close>

fun only_service :: "kube_object \<Rightarrow> Service option" where
  \<comment> \<open>the type assertion \<open>obj.(*corev1.Service)\<close>\<close>
  "only_service (ServiceObj s) = Some s"
| "only_service _ = None"

fun only_slice :: "kube_object \<Rightarrow> EndpointSlice option" where
  "only_slice (EndpointSliceObj es) = Some es"
| "only_slice _ = None"

fun as_service :: "kube_object \<Rightarrow> Service option" where
  "as_service (Tombstone x) = only_service x"
| "as_service x = only_service x"

fun as_slice_obj :: "kube_object \<Rightarrow> EndpointSlice option" where
  "as_slice_obj (Tombstone x) = only_slice x"
| "as_slice_obj x = only_slice x"

definition onService :: "unicode_lower \<Rightarrow> listers \<Rightarrow> kube_object \<Rightarrow> WCache \<Rightarrow> WCache" where
  "onService uni L obj c =
     (case only_service obj of
        None \<Rightarrow> c
      | Some svc \<Rightarrow> syncServiceClusterIPs L (Some svc) (indexPorts (serviceEntries uni (Some svc)) c))"

definition evict_ips :: "addr list \<Rightarrow> addr list \<Rightarrow> WCache \<Rightarrow> WCache" where
  \<comment> \<open>delete every address of \<open>old\<close> that \<open>new\<close> does not keep\<close>
  "evict_ips old new c =
     (let kept = unmap ` set new
      in fold (\<lambda>ip c. if unmap ip \<notin> kept then Delete ip c else c) old c)"

definition onServiceUpdate :: "unicode_lower \<Rightarrow> listers \<Rightarrow> kube_object \<Rightarrow> kube_object \<Rightarrow> WCache \<Rightarrow> WCache" where
  "onServiceUpdate uni L old obj c =
     (let oldSvc = only_service old; newSvc = only_service obj;
          c = reindexPorts (serviceEntries uni oldSvc) (serviceEntries uni newSvc) c
      in case newSvc of
           None \<Rightarrow> c
         | Some new \<Rightarrow>
             let c = (case oldSvc of None \<Rightarrow> c | Some old \<Rightarrow> evict_ips (clusterIPs old) (clusterIPs new) c)
             in syncServiceClusterIPs L newSvc c)"

definition onServiceDelete :: "unicode_lower \<Rightarrow> kube_object \<Rightarrow> WCache \<Rightarrow> WCache" where
  "onServiceDelete uni obj c =
     (case as_service obj of
        None \<Rightarrow> c
      | Some svc \<Rightarrow> fold Delete (clusterIPs svc) (deletePorts (serviceEntries uni (Some svc)) c))"

definition onEndpointSlice :: "unicode_lower \<Rightarrow> listers \<Rightarrow> kube_object \<Rightarrow> WCache \<Rightarrow> WCache" where
  "onEndpointSlice uni L obj c =
     (case only_slice obj of
        None \<Rightarrow> c
      | Some es \<Rightarrow> syncServiceForSlice L (Some es) (indexPorts (endpointSliceEntries uni (Some es)) c))"

definition onEndpointSliceUpdate ::
  "unicode_lower \<Rightarrow> listers \<Rightarrow> kube_object \<Rightarrow> kube_object \<Rightarrow> WCache \<Rightarrow> WCache" where
  "onEndpointSliceUpdate uni L old obj c =
     (let oldES = only_slice old; newES = only_slice obj;
          c = reindexPorts (endpointSliceEntries uni oldES) (endpointSliceEntries uni newES) c;
          c = syncServiceForSlice L newES c
      in case (oldES, newES) of
           (Some o', Some n) \<Rightarrow>
             if service_name_label o' \<noteq> service_name_label n then syncServiceForSlice L oldES c else c
         | _ \<Rightarrow> c)"

definition onEndpointSliceDelete :: "unicode_lower \<Rightarrow> listers \<Rightarrow> kube_object \<Rightarrow> WCache \<Rightarrow> WCache" where
  "onEndpointSliceDelete uni L obj c =
     (case as_slice_obj obj of
        None \<Rightarrow> c
      | Some es \<Rightarrow> syncServiceForSlice L (Some es) (deletePorts (endpointSliceEntries uni (Some es)) c))"

section \<open>The registered handlers\<close>

datatype resource = Pods | Nodes | Services | EndpointSlices | Owners

datatype informer_event =
    Added resource kube_object
  | Updated resource kube_object kube_object
  | Deleted resource kube_object

fun dispatch :: "unicode_lower \<Rightarrow> listers \<Rightarrow> informer_event \<Rightarrow> WCache \<Rightarrow> WCache" where
  \<comment> \<open>the handlers \<open>Run\<close> registers\<close>
  "dispatch uni L (Added Pods obj) = onPod L obj"
| "dispatch uni L (Updated Pods old obj) = onPod L obj"
| "dispatch uni L (Deleted Pods obj) = onPodDelete obj"
| "dispatch uni L (Added Nodes obj) = onNode obj"
| "dispatch uni L (Updated Nodes old obj) = onNode obj"
| "dispatch uni L (Deleted Nodes obj) = onNodeDelete obj"
| "dispatch uni L (Added Services obj) = onService uni L obj"
| "dispatch uni L (Updated Services old obj) = onServiceUpdate uni L old obj"
| "dispatch uni L (Deleted Services obj) = onServiceDelete uni obj"
| "dispatch uni L (Added EndpointSlices obj) = onEndpointSlice uni L obj"
| "dispatch uni L (Updated EndpointSlices old obj) = onEndpointSliceUpdate uni L old obj"
| "dispatch uni L (Deleted EndpointSlices obj) = onEndpointSliceDelete uni L obj"
| "dispatch uni L (Added Owners obj) = (\<lambda>c. c)"
| "dispatch uni L (Updated Owners old obj) = (\<lambda>c. c)"
| "dispatch uni L (Deleted Owners obj) = (\<lambda>c. c)"

definition run_events :: "unicode_lower \<Rightarrow> (listers \<times> informer_event) list \<Rightarrow> WCache \<Rightarrow> WCache" where
  \<comment> \<open>events one after the other, each with the listers of its time\<close>
  "run_events uni evs = fold (\<lambda>(L, ev). dispatch uni L ev) evs"

section \<open>Trimmed stores\<close>

definition trim_listers :: "listers \<Rightarrow> listers" where
  \<comment> \<open>the listers over informer stores filled through \<open>trimObject\<close>\<close>
  "trim_listers L =
     \<lparr>ls_Pod = (\<lambda>ns n. map_option trim_pod (ls_Pod L ns n)),
      ls_ReplicaSet = (\<lambda>ns n. map_option trim_owned (ls_ReplicaSet L ns n)),
      ls_Job = (\<lambda>ns n. map_option trim_owned (ls_Job L ns n)),
      ls_Service = (\<lambda>ns n. map_option trim_service (ls_Service L ns n)),
      ls_Services = map_option (map trim_service) (ls_Services L),
      ls_Slices = (\<lambda>ns n. map_option (map trim_slice) (ls_Slices L ns n))\<rparr>"

fun trim_event :: "informer_event \<Rightarrow> informer_event" where
  "trim_event (Added r obj) = Added r (trimObject obj)"
| "trim_event (Updated r old obj) = Updated r (trimObject old) (trimObject obj)"
| "trim_event (Deleted r obj) = Deleted r (trimObject obj)"

section \<open>Facts: trimming\<close>

lemma trim_listers_simps [simp]:
  "ls_Service (trim_listers L) ns n = map_option trim_service (ls_Service L ns n)"
  "ls_Slices (trim_listers L) ns n = map_option (map trim_slice) (ls_Slices L ns n)"
  "ls_Services (trim_listers L) = map_option (map trim_service) (ls_Services L)"
  by (simp_all add: trim_listers_def)

lemma GetController_trim [simp]: "GetController (trim_listers L) = GetController L"
proof (intro ext)
  fix kind ns n
  show "GetController (trim_listers L) kind ns n = GetController L kind ns n"
    by (cases "ls_Pod L ns n"; cases "ls_ReplicaSet L ns n"; cases "ls_Job L ns n")
      (simp_all add: GetController_def trim_listers_def trim_fields)
qed

lemma object_ips_trim [simp]:
  "podIPs (trim_pod p) = podIPs p" "nodeInternalIPs (trim_node n) = nodeInternalIPs n"
  by (simp_all only: podIPs_def nodeInternalIPs_def trim_fields)

lemma as_object_trim [simp]:
  "as_pod (trimObject obj) = (case obj of PodObj p \<Rightarrow> Some (trim_pod p) | _ \<Rightarrow> as_pod obj)"
  "as_node (trimObject obj) = (case obj of NodeObj n \<Rightarrow> Some (trim_node n) | _ \<Rightarrow> as_node obj)"
  "as_service (trimObject obj) = (case obj of ServiceObj s \<Rightarrow> Some (trim_service s) | _ \<Rightarrow> as_service obj)"
  "as_slice_obj (trimObject obj) = (case obj of EndpointSliceObj es \<Rightarrow> Some (trim_slice es) | _ \<Rightarrow> as_slice_obj obj)"
  by (cases obj; simp)+

lemma onPod_trim [simp]: "onPod (trim_listers L) (trimObject obj) c = onPod L obj c"
  by (cases obj) (simp_all add: onPod_def trim_fields Let_def cong: if_cong)

lemma onPodDelete_trim [simp]: "onPodDelete (trimObject obj) c = onPodDelete obj c"
  by (cases obj) (simp_all add: onPodDelete_def trim_fields Let_def cong: if_cong)

lemma onNode_trim [simp]: "onNode (trimObject obj) c = onNode obj c"
  by (cases obj) (simp_all add: onNode_def trim_fields)

lemma onNodeDelete_trim [simp]: "onNodeDelete (trimObject obj) c = onNodeDelete obj c"
  by (cases obj) (simp_all add: onNodeDelete_def trim_fields)

lemma service_name_label_trim [simp]: "service_name_label (trim_slice es) = service_name_label es"
  by (simp add: service_name_label_def go_get_def trim_slice_def trimSliceLabels_lookup)

lemma only_trim [simp]:
  "only_service (trimObject obj) = map_option trim_service (only_service obj)"
  "only_slice (trimObject obj) = map_option trim_slice (only_slice obj)"
  by (cases obj; simp)+

lemma sync_trim [simp]:
  "syncServiceClusterIPs (trim_listers L) (Some (trim_service s)) = syncServiceClusterIPs L (Some s)"
proof
  fix c
  have names: "svc_Namespace (trim_service s) = svc_Namespace s" "svc_Name (trim_service s) = svc_Name s"
    by (simp_all add: trim_service_def)
  show "syncServiceClusterIPs (trim_listers L) (Some (trim_service s)) c = syncServiceClusterIPs L (Some s) c"
    by (cases "ls_Slices L (svc_Namespace s) (svc_Name s)")
      (simp_all add: syncServiceClusterIPs_def names Let_def)
qed

lemma syncServiceForSlice_stores [simp]:
  "syncServiceForSlice (trim_listers L) (Some es) = syncServiceForSlice L (Some es)"
proof
  fix c
  show "syncServiceForSlice (trim_listers L) (Some es) c = syncServiceForSlice L (Some es) c"
    by (cases "ls_Service L (es_Namespace es) (service_name_label es)")
      (simp_all add: syncServiceForSlice_def Let_def)
qed

lemma syncServiceForSlice_trim [simp]:
  "syncServiceForSlice L (Some (trim_slice es)) = syncServiceForSlice L (Some es)"
  by (simp add: fun_eq_iff syncServiceForSlice_def trim_fields Let_def cong: if_cong)

lemma onService_trim [simp]: "onService uni (trim_listers L) (trimObject obj) c = onService uni L obj c"
  by (cases "only_service obj") (simp_all add: onService_def)

lemma onServiceUpdate_trim [simp]:
  "onServiceUpdate uni (trim_listers L) (trimObject old) (trimObject obj) c = onServiceUpdate uni L old obj c"
  by (cases "only_service obj"; cases "only_service old") (simp_all add: onServiceUpdate_def Let_def)

lemma onServiceDelete_trim [simp]: "onServiceDelete uni (trimObject obj) c = onServiceDelete uni obj c"
  by (cases obj) (simp_all add: onServiceDelete_def)

lemma onEndpointSlice_trim [simp]:
  "onEndpointSlice uni (trim_listers L) (trimObject obj) c = onEndpointSlice uni L obj c"
  by (cases "only_slice obj") (simp_all add: onEndpointSlice_def)

lemma syncServiceForSlice_None [simp]: "syncServiceForSlice L None c = c"
  by (simp add: syncServiceForSlice_def)

lemma onEndpointSliceUpdate_trim [simp]:
  "onEndpointSliceUpdate uni (trim_listers L) (trimObject old) (trimObject obj) c
     = onEndpointSliceUpdate uni L old obj c"
  by (cases "only_slice obj"; cases "only_slice old") (simp_all add: onEndpointSliceUpdate_def Let_def)

lemma onEndpointSliceDelete_trim [simp]:
  "onEndpointSliceDelete uni (trim_listers L) (trimObject obj) c = onEndpointSliceDelete uni L obj c"
  by (cases obj) (simp_all add: onEndpointSliceDelete_def split: option.split)

lemma reindexAll_trim: "reindexAllClusterIPs (trim_listers L) c = reindexAllClusterIPs L c"
  by (cases "ls_Services L") (simp_all add: reindexAllClusterIPs_def fold_map comp_def)

lemma dispatch_trim: "dispatch uni (trim_listers L) (trim_event ev) c = dispatch uni L ev c"
  by (cases "(uni, L, ev)" rule: dispatch.cases) simp_all

section \<open>Facts: the indexes\<close>

lemma entry_key_norm: "entry_key e = norm_port (pe_ip e, pe_port e)"
  by (simp add: entry_key_def norm_port_def)

lemma entry_key_fun: "entry_key = (\<lambda>e. norm_port (pe_ip e, pe_port e))"
  by (simp add: fun_eq_iff entry_key_norm)

lemma delete_port_entry: "DeletePort (pe_ip e) (pe_port e) = delete_port (pe_ip e, pe_port e)"
  by (simp add: delete_port_def)

lemma indexPorts_store: "indexPorts es = fold (\<lambda>e. upsert_port (pe_ip e, pe_port e) (pe_l7 e)) es"
  by (simp add: indexPorts_def upsert_port_def)

lemma deletePorts_lookup:
  "lookup_port (deletePorts es c) k = (if norm_port k \<in> entry_key ` set es then None else lookup_port c k)"
  unfolding deletePorts_def entry_key_fun delete_port_entry by (rule ports.lookup_deletes)

lemma indexPorts_lookup:
  "lookup_port (indexPorts es c) k =
     (case find (\<lambda>e. entry_key e = norm_port k) (rev es) of
        None \<Rightarrow> lookup_port c k | Some e \<Rightarrow> l7_val (pe_l7 e))"
  by (simp add: indexPorts_store ports.lookup_upserts entry_key_norm)

lemma reindexPorts_lookup:
  "lookup_port (reindexPorts old new c) k =
     (case find (\<lambda>e. entry_key e = norm_port k) (rev new) of
        Some e \<Rightarrow> l7_val (pe_l7 e)
      | None \<Rightarrow> if norm_port k \<in> entry_key ` set old then None else lookup_port c k)"
  unfolding reindexPorts_def Let_def indexPorts_store entry_key_fun delete_port_entry
  by (rule ports.lookup_reindex)

lemma port_loops_other [simp]:
  "LookupIP (indexPorts es c) = LookupIP c" "LookupIP (deletePorts es c) = LookupIP c"
  "LookupUID (indexPorts es c) = LookupUID c" "LookupUID (deletePorts es c) = LookupUID c"
  by (induction es arbitrary: c; simp add: indexPorts_def deletePorts_def fun_eq_iff)+

lemma drop_loop_other:
  "LookupIP (fold (\<lambda>e c. if P e then DeletePort (f e) (g e) c else c) es c) = LookupIP c"
  "LookupUID (fold (\<lambda>e c. if P e then DeletePort (f e) (g e) c else c) es c) = LookupUID c"
  by (induction es arbitrary: c; simp add: fun_eq_iff)+

lemma reindexPorts_other [simp]:
  "LookupIP (reindexPorts old new c) = LookupIP c" "LookupUID (reindexPorts old new c) = LookupUID c"
  by (simp_all add: reindexPorts_def Let_def drop_loop_other)

lemma ip_loops_other [simp]:
  "LookupUID (fold (\<lambda>ip. Upsert ip w) ips c) = LookupUID c" "LookupUID (fold Delete ips c) = LookupUID c"
  "lookup_port (fold (\<lambda>ip. Upsert ip w) ips c) = lookup_port c" "lookup_port (fold Delete ips c) = lookup_port c"
  by (induction ips arbitrary: c; simp add: fun_eq_iff lookup_port_def)+

lemma sync_lookup:
  assumes "ls_Slices L (svc_Namespace s) (svc_Name s) = Some slices"
  shows "LookupIP (syncServiceClusterIPs L (Some s) c) ip =
     (if unmap ip \<in> unmap ` set (clusterIPs s)
      then serviceWorkload (Some s) (map Some slices) (LookupIP c) else LookupIP c ip)"
proof (cases "serviceWorkload (Some s) (map Some slices) (LookupIP c)")
  case None
  then show ?thesis
    using assms ips.lookup_deletes [of "\<lambda>ip. ip" "clusterIPs s" c ip]
    by (simp add: syncServiceClusterIPs_def Let_def)
next
  case (Some wl)
  then show ?thesis
    using assms ips.lookup_upserts_const [of wl "clusterIPs s" c ip]
    by (simp add: syncServiceClusterIPs_def Let_def)
qed

lemma sync_other [simp]:
  "LookupUID (syncServiceClusterIPs L svc c) = LookupUID c"
  "lookup_port (syncServiceClusterIPs L svc c) = lookup_port c"
  by (simp_all add: syncServiceClusterIPs_def Let_def split: option.split)

lemma sync_slice_other [simp]:
  "LookupUID (syncServiceForSlice L es c) = LookupUID c"
  "lookup_port (syncServiceForSlice L es c) = lookup_port c"
  by (simp_all add: syncServiceForSlice_def Let_def split: option.split)

lemma bex_image_minus: "(\<exists>x \<in> A. f x \<notin> B \<and> f x = y) \<longleftrightarrow> y \<in> f ` A - B"
  by blast

lemma evict_ips_lookup:
  "LookupIP (evict_ips old new c) ip =
     (if unmap ip \<in> unmap ` set old - unmap ` set new then None else LookupIP c ip)"
proof -
  have "(\<exists>x \<in> set old. unmap x \<notin> unmap ` set new \<and> unmap x = unmap ip)
      \<longleftrightarrow> unmap ip \<in> unmap ` set old - unmap ` set new"
    by (rule bex_image_minus)
  then show ?thesis
    unfolding evict_ips_def Let_def
    by (simp only: ips.lookup_deletes_where [of "\<lambda>ip. unmap ip \<notin> unmap ` set new" "\<lambda>ip. ip" old c ip])
qed

lemma evict_loop_other:
  "LookupUID (fold (\<lambda>ip c. if P ip then Delete ip c else c) old c) u = LookupUID c u \<and>
   lookup_port (fold (\<lambda>ip c. if P ip then Delete ip c else c) old c) k = lookup_port c k"
proof (induction old arbitrary: c)
  case Nil
  show ?case by simp
next
  case (Cons a old)
  then show ?case by (cases "P a") (simp_all add: lookup_port_def)
qed

lemma evict_ips_other [simp]:
  "LookupUID (evict_ips old new c) = LookupUID c" "lookup_port (evict_ips old new c) = lookup_port c"
  unfolding evict_ips_def Let_def by (intro ext; simp only: evict_loop_other)+

section \<open>Facts: pods\<close>

definition pod_owner :: "listers \<Rightarrow> Pod \<Rightarrow> Workload" where
  "pod_owner L p = ResolveTopOwner ''Pod'' (pod_Namespace p) (pod_Name p) (GetController L)"

lemma onPod_IP:
  "LookupIP (onPod L (PodObj p) c) ip =
     (if \<not> pod_HostNetwork p \<and> unmap ip \<in> unmap ` set (podIPs p) then Some (pod_owner L p) else LookupIP c ip)"
  by (simp add: onPod_def pod_owner_def Let_def ips.lookup_upserts_const)

lemma onPodDelete_IP:
  "LookupIP (onPodDelete obj c) ip =
     (case as_pod obj of None \<Rightarrow> LookupIP c ip
      | Some p \<Rightarrow> if unmap ip \<in> unmap ` set (podIPs p) then None else LookupIP c ip)"
  using ips.lookup_deletes [of "\<lambda>ip. ip"]
  by (simp add: onPodDelete_def Let_def split: option.split)

lemma onPod_UID:
  "LookupUID (onPod L (PodObj p) c) u =
     (if pod_UID p \<noteq> [] \<and> pod_UID p = u then Some (pod_owner L p) else LookupUID c u)"
  by (simp add: onPod_def pod_owner_def Let_def uids.lookup_upsert)

lemma onPodDelete_UID:
  "LookupUID (onPodDelete obj c) u =
     (case as_pod obj of None \<Rightarrow> LookupUID c u
      | Some p \<Rightarrow> if pod_UID p \<noteq> [] \<and> pod_UID p = u then None else LookupUID c u)"
  by (simp add: onPodDelete_def Let_def uids.lookup_delete split: option.split)

fun uid_effect :: "listers \<Rightarrow> informer_event \<Rightarrow> (string \<times> Workload option) option" where
  \<comment> \<open>what a pod event says about a UID\<close>
  "uid_effect L (Added Pods (PodObj p)) = (if pod_UID p = [] then None else Some (pod_UID p, Some (pod_owner L p)))"
| "uid_effect L (Updated Pods old (PodObj p)) = (if pod_UID p = [] then None else Some (pod_UID p, Some (pod_owner L p)))"
| "uid_effect L (Deleted Pods obj) =
     (case as_pod obj of None \<Rightarrow> None | Some p \<Rightarrow> if pod_UID p = [] then None else Some (pod_UID p, None))"
| "uid_effect L _ = None"

lemma node_handlers_UID [simp]:
  "LookupUID (onNode obj c) = LookupUID c" "LookupUID (onNodeDelete obj c) = LookupUID c"
  by (simp_all add: onNode_def onNodeDelete_def Let_def split: kube_object.split option.split)

lemma service_handlers_UID [simp]:
  "LookupUID (onService uni L obj c) = LookupUID c"
  "LookupUID (onServiceUpdate uni L old obj c) = LookupUID c"
  "LookupUID (onServiceDelete uni obj c) = LookupUID c"
  "LookupUID (onEndpointSlice uni L obj c) = LookupUID c"
  "LookupUID (onEndpointSliceUpdate uni L old obj c) = LookupUID c"
  "LookupUID (onEndpointSliceDelete uni L obj c) = LookupUID c"
  by (simp_all add: onService_def onServiceUpdate_def onServiceDelete_def onEndpointSlice_def
      onEndpointSliceUpdate_def onEndpointSliceDelete_def Let_def split: option.split)

lemma onPod_other_object: "\<nexists>p. obj = PodObj p \<Longrightarrow> onPod L obj c = c"
  by (cases obj) (simp_all add: onPod_def)

lemma dispatch_UID:
  "LookupUID (dispatch uni L ev c) u =
     (case uid_effect L ev of None \<Rightarrow> LookupUID c u | Some (v, w) \<Rightarrow> if v = u then w else LookupUID c u)"
proof (cases ev)
  case (Added r obj)
  then show ?thesis
    by (cases r; cases obj) (simp_all add: onPod_UID onPod_other_object)
next
  case (Updated r old obj)
  then show ?thesis
    by (cases r; cases obj) (simp_all add: onPod_UID onPod_other_object)
next
  case (Deleted r obj)
  then show ?thesis
    by (cases r) (simp_all add: onPodDelete_UID split: option.split)
qed

definition names_uid :: "string \<Rightarrow> listers \<times> informer_event \<Rightarrow> bool" where
  "names_uid u e = (case uid_effect (fst e) (snd e) of None \<Rightarrow> False | Some (v, w) \<Rightarrow> v = u)"

lemma run_events_UID:
  "LookupUID (run_events uni evs c) u =
     (case find (names_uid u) (rev evs) of
        None \<Rightarrow> LookupUID c u
      | Some e \<Rightarrow> snd (the (uid_effect (fst e) (snd e))))"
proof (induction evs rule: rev_induct)
  case Nil
  show ?case by (simp add: run_events_def)
next
  case (snoc e evs)
  then show ?case
    by (cases e) (auto simp: run_events_def dispatch_UID names_uid_def split: option.split)
qed

section \<open>Facts: the full pass over the Services\<close>

definition claims_ip :: "addr \<Rightarrow> Service \<Rightarrow> bool" where
  "claims_ip ip s \<longleftrightarrow> unmap ip \<in> unmap ` set (clusterIPs s)"

definition slices_of :: "listers \<Rightarrow> Service \<Rightarrow> EndpointSlice option list" where
  "slices_of L s = map Some (case ls_Slices L (svc_Namespace s) (svc_Name s) of None \<Rightarrow> [] | Some es \<Rightarrow> es)"

definition backends_apart :: "listers \<Rightarrow> Service list \<Rightarrow> bool" where
  \<comment> \<open>the slices can be listed and no endpoint address is a ClusterIP\<close>
  "backends_apart L svcs \<longleftrightarrow>
     (\<forall>s \<in> set svcs. ls_Slices L (svc_Namespace s) (svc_Name s) \<noteq> None \<and>
        (\<forall>a \<in> set (concat (map slice_addresses (slices_of L s))). \<forall>ip. parse_addr a = Some ip \<longrightarrow>
           (\<forall>t \<in> set svcs. \<not> claims_ip ip t)))"

lemma sync_all_lookup:
  assumes "backends_apart L svcs"
  shows "LookupIP (fold (\<lambda>svc. syncServiceClusterIPs L (Some svc)) svcs c) ip =
     (case find (claims_ip ip) (rev svcs) of
        None \<Rightarrow> LookupIP c ip
      | Some s \<Rightarrow> serviceWorkload (Some s) (slices_of L s) (LookupIP c))"
  using assms
proof (induction svcs arbitrary: ip rule: rev_induct)
  case Nil
  show ?case by simp
next
  case (snoc s svcs)
  let ?c = "fold (\<lambda>svc. syncServiceClusterIPs L (Some svc)) svcs c"
  have apart: "backends_apart L svcs" using snoc.prems by (auto simp: backends_apart_def)
  obtain es where es: "ls_Slices L (svc_Namespace s) (svc_Name s) = Some es"
    using snoc.prems by (auto simp: backends_apart_def)
  have "LookupIP ?c ip' = LookupIP c ip'" if "\<forall>t \<in> set svcs. \<not> claims_ip ip' t" for ip'
    using that by (simp add: snoc.IH [OF apart] find_None_iff [THEN iffD2])
  then have "serviceWorkload (Some s) (slices_of L s) (LookupIP ?c) = serviceWorkload (Some s) (slices_of L s) (LookupIP c)"
    using snoc.prems by (intro serviceWorkload_store_cong) (auto simp: backends_apart_def)
  then show ?case
    using snoc.IH [OF apart, of ip] sync_lookup [OF es, of ?c ip] es
    by (simp add: slices_of_def claims_ip_def)
qed

section \<open>Properties\<close>

text \<open>C23. The UID index is exact over any sequence of informer events, each with the listers of
  its time: a UID looks up to what the last pod event that names it says, the top owner
  for an add or update and nothing for a delete (tombstone or not); events of every
  other resource, and pods without a UID, leave it alone.\<close>

theorem uid_index_exact:
  "LookupUID (run_events uni evs NewCache) u =
     (case find (\<lambda>e. names_uid u e) (rev evs) of
        None \<Rightarrow> None
      | Some e \<Rightarrow> snd (the (uid_effect (fst e) (snd e))))"
proof -
  have "LookupUID NewCache u = None" by (simp add: NewCache_def LookupUID_def)
  then show ?thesis by (simp add: run_events_UID split: option.split)
qed

text \<open>C24. Trimming changes nothing the resolver computes: every handler, run on trimmed
  objects over listers of trimmed objects, updates the cache exactly as on the full
  objects, and so does the full pass over the Services; trimming twice is trimming once.\<close>

theorem trim_preserves_resolution:
  "dispatch uni (trim_listers L) (trim_event ev) c = dispatch uni L ev c
   \<and> reindexAllClusterIPs (trim_listers L) c = reindexAllClusterIPs L c
   \<and> trimObject (trimObject obj) = trimObject obj"
  by (simp add: dispatch_trim reindexAll_trim trimObject_idem)

text \<open>C25. After the full pass every ClusterIP stands for what its Service's endpoints resolve
  to: nothing when no endpoint is a known pod, the pods' workload when there is just
  one, and the Service itself when there are several; other addresses are untouched.
  (The last Service wins a shared ClusterIP; endpoint addresses are not ClusterIPs.)\<close>

theorem reindexAll_exact:
  assumes "ls_Services L = Some svcs" and "backends_apart L svcs"
  shows "LookupIP (reindexAllClusterIPs L c) ip =
     (case find (claims_ip ip) (rev svcs) of
        None \<Rightarrow> LookupIP c ip
      | Some s \<Rightarrow>
          let ws = backing (slices_of L s) (LookupIP c) in
          if ws = [] then None
          else if \<exists>w \<in> set ws. w \<noteq> hd ws
          then Some \<lparr>w_Name = svc_Name s, w_Namespace = svc_Namespace s, w_Kind = KindService\<rparr>
          else Some (hd ws))"
  using sync_all_lookup [OF assms(2), of c ip] assms(1)
  by (simp add: reindexAllClusterIPs_def serviceWorkload_backing Let_def split: option.split)

definition sample_service :: Service where
  "sample_service = \<lparr>svc_Namespace = ''shop'', svc_Name = ''db'', svc_ClusterIP = ''10.96.0.7'',
     svc_ClusterIPs = [''10.96.0.7''], svc_Ports = [], svc_unread = []\<rparr>"

definition sample_slice :: EndpointSlice where
  "sample_slice = \<lparr>es_Namespace = ''shop'', es_Name = ''db-1'',
     es_Labels = fmupd endpointSliceServiceNameLabel ''db'' fmempty, es_Ports = [],
     es_Endpoints = [\<lparr>ep_Addresses = [''10.1.0.5''], ep_unread = []\<rparr>], es_unread = []\<rparr>"

definition sample_listers :: listers where
  "sample_listers = \<lparr>ls_Pod = (\<lambda>_ _. None), ls_ReplicaSet = (\<lambda>_ _. None), ls_Job = (\<lambda>_ _. None),
     ls_Service = (\<lambda>_ _. Some sample_service), ls_Services = Some [sample_service],
     ls_Slices = (\<lambda>_ _. Some [sample_slice])\<rparr>"

lemma sample_addresses:
  "parse_addr ''10.96.0.7'' = Some (Addr4 0x0A600007)" "parse_addr ''10.1.0.5'' = Some (Addr4 0x0A010005)"
  by code_simp+

lemma sample_clusterIPs: "clusterIPs sample_service = [Addr4 0x0A600007]"
  by (simp add: clusterIPs_def sample_service_def sample_addresses ClusterIPNone_def)

lemma sample_apart: "backends_apart sample_listers [sample_service]"
  by (simp add: backends_apart_def slices_of_def sample_listers_def slice_addresses_def sample_slice_def
      claims_ip_def sample_clusterIPs sample_addresses)

theorem reindexAll_exact_witness:
  "LookupIP (reindexAllClusterIPs sample_listers
      (Upsert (Addr4 0x0A010005) \<lparr>w_Name = ''db'', w_Namespace = ''shop'', w_Kind = ''StatefulSet''\<rparr> NewCache)) (Addr4 0x0A600007)
     = Some \<lparr>w_Name = ''db'', w_Namespace = ''shop'', w_Kind = ''StatefulSet''\<rparr>"
proof -
  let ?w = "\<lparr>w_Name = ''db'', w_Namespace = ''shop'', w_Kind = ''StatefulSet''\<rparr>"
  let ?c = "Upsert (Addr4 0x0A010005) ?w NewCache"
  have "ls_Services sample_listers = Some [sample_service]" by (simp add: sample_listers_def)
  note r = reindexAll_exact [OF this sample_apart, of ?c "Addr4 0x0A600007"]
  have "backing (slices_of sample_listers sample_service) (LookupIP ?c) = [?w]"
    by (simp add: backing_def slices_of_def sample_listers_def slice_addresses_def sample_slice_def
        sample_addresses ips.lookup_upsert List.map_filter_def isPodWorkload_def KindExternal_def KindNode_def
        KindService_def KindServiceEntry_def)
  then show ?thesis unfolding r by (simp add: claims_ip_def sample_clusterIPs)
qed

text \<open>C37. An update of a Service leaves its port entries as the new revision declares them: an
  address and port the new revision lists has the protocol of its last entry there, one
  that only the old revision listed is gone, every other entry and the UID index are as
  before. The same holds of an EndpointSlice.\<close>

theorem port_update_exact:
  "lookup_port (onServiceUpdate uni L (ServiceObj old) (ServiceObj new) c) k =
     (case find (\<lambda>e. entry_key e = norm_port k) (rev (serviceEntries uni (Some new))) of
        Some e \<Rightarrow> l7_val (pe_l7 e)
      | None \<Rightarrow> if norm_port k \<in> entry_key ` set (serviceEntries uni (Some old)) then None else lookup_port c k)
   \<and> lookup_port (onEndpointSliceUpdate uni L (EndpointSliceObj es) (EndpointSliceObj es') c) k =
     (case find (\<lambda>e. entry_key e = norm_port k) (rev (endpointSliceEntries uni (Some es'))) of
        Some e \<Rightarrow> l7_val (pe_l7 e)
      | None \<Rightarrow> if norm_port k \<in> entry_key ` set (endpointSliceEntries uni (Some es)) then None else lookup_port c k)"
  by (simp add: onServiceUpdate_def onEndpointSliceUpdate_def Let_def reindexPorts_lookup)

text \<open>Deleting a pod removes every address the pod reports, also when the pod is on the
  host network and never wrote one: the address is then its node's, and the node's
  identity, which \<open>onNode\<close> had put there, is lost until the node's next event.\<close>

lemma host_pod_delete_evicts_node:
  assumes "pod_HostNetwork pod" and "ip \<in> set (podIPs pod)" and "ip \<in> set (nodeInternalIPs node)"
  shows "LookupIP (onPod L (PodObj pod) (onNode (NodeObj node) c)) ip
      = Some \<lparr>w_Name = node_Name node, w_Namespace = [], w_Kind = KindNode\<rparr>
    \<and> LookupIP (onPodDelete (PodObj pod) (onPod L (PodObj pod) (onNode (NodeObj node) c))) ip = None"
  using assms by (simp add: onPod_IP onPodDelete_IP onNode_def Let_def ips.lookup_upserts_const)

end
