(* ===== verification/Commands.thy ===== *)
theory Commands
  imports Collector Processor Controller
begin

text \<open>
  \<open>cmd/sniffer\<close>, \<open>internal/bpf/loader_linux.go\<close> and \<open>internal/telemetry\<close>: the
  command line, the order in which a mode is set up and what each failing step
  leaves behind, the eBPF resources a loader owns, and the probes. Kernel, network,
  Kubernetes and gRPC calls are arguments that say whether a step succeeds.
\<close>

section \<open>The eBPF loader\<close>

datatype bpf_resource =
  ConnObjs | TracepointLink | FentryLink | EventsReader | DnsObjs | CgroupLink | DnsReader

datatype bpf_step =
    RemoveMemlock | LoadSpec | LoadConn | AttachTracepoint | AttachFentry | OpenEvents
  | LoadDns | AttachCgroup | OpenDnsEvents

record Loader =
  ld_links :: "bpf_resource list"
  ld_reader :: bool
  ld_dnsObjs :: bool
  ld_dnsReader :: bool

definition Loader_Close :: "Loader \<Rightarrow> bpf_resource set \<Rightarrow> bpf_resource set" where
  \<comment> \<open>closing what is not open is a no-op\<close>
  "Loader_Close l open =
     open - ((if ld_reader l then {EventsReader} else {}) \<union> (if ld_dnsReader l then {DnsReader} else {})
       \<union> set (ld_links l) \<union> {ConnObjs} \<union> (if ld_dnsObjs l then {DnsObjs} else {}))"

definition Loader_New :: "(bpf_step \<Rightarrow> bool) \<Rightarrow> (bpf_step + Loader) \<times> bpf_resource set" where
  \<comment> \<open>the failed step or the loader, and the resources open on return\<close>
  "Loader_New ok =
     (if \<not> ok RemoveMemlock then (Inl RemoveMemlock, {})
      else if \<not> ok LoadSpec then (Inl LoadSpec, {})
      else if \<not> ok LoadConn then (Inl LoadConn, {})
      else
        let l = \<lparr>ld_links = [], ld_reader = False, ld_dnsObjs = False, ld_dnsReader = False\<rparr>;
            open = {ConnObjs} in
        if \<not> ok AttachTracepoint then (Inl AttachTracepoint, Loader_Close l open)
        else
          let l = l\<lparr>ld_links := [TracepointLink]\<rparr>; open = insert TracepointLink open in
          if \<not> ok AttachFentry then (Inl AttachFentry, Loader_Close l open)
          else
            let l = l\<lparr>ld_links := ld_links l @ [FentryLink]\<rparr>; open = insert FentryLink open in
            if \<not> ok OpenEvents then (Inl OpenEvents, Loader_Close l open)
            else (Inr (l\<lparr>ld_reader := True\<rparr>), insert EventsReader open))"

definition AttachDNS ::
  "(bpf_step \<Rightarrow> bool) \<Rightarrow> Loader \<Rightarrow> bpf_resource set \<Rightarrow> bpf_step option \<times> Loader \<times> bpf_resource set" where
  "AttachDNS ok l open =
     (if \<not> ok LoadDns then (Some LoadDns, l, open)
      else
        let open1 = insert DnsObjs open in
        if \<not> ok AttachCgroup then (Some AttachCgroup, l, open1 - {DnsObjs})
        else
          let open2 = insert CgroupLink open1 in
          if \<not> ok OpenDnsEvents then (Some OpenDnsEvents, l, (open2 - {CgroupLink}) - {DnsObjs})
          else (None, l\<lparr>ld_dnsObjs := True, ld_links := ld_links l @ [CgroupLink], ld_dnsReader := True\<rparr>,
                insert DnsReader open2))"

datatype ring_read = Sample "byte list" | RingClosed | RingError

datatype read_error = ErrClosed | ErrUnsupported | ReadRingbuf

definition ring_bytes :: "ring_read \<Rightarrow> read_error + byte list" where
  \<comment> \<open>the helper \<open>read\<close>\<close>
  "ring_bytes r = (case r of Sample b \<Rightarrow> Inr b | RingClosed \<Rightarrow> Inl ErrClosed | RingError \<Rightarrow> Inl ReadRingbuf)"

definition Loader_Read :: "ring_read \<Rightarrow> read_error + byte list" where
  "Loader_Read r = ring_bytes r"

definition ReadDNS :: "Loader \<Rightarrow> ring_read \<Rightarrow> read_error + byte list" where
  "ReadDNS l r = (if \<not> ld_dnsReader l then Inl ErrClosed else ring_bytes r)"

text \<open>On other systems than Linux the loader is a stub and the command only says so.\<close>

definition other_New :: "read_error + Loader" where "other_New = Inl ErrUnsupported"

definition other_AttachDNS :: "string \<Rightarrow> read_error option" where "other_AttachDNS path = Some ErrUnsupported"

definition other_Read :: "read_error + byte list" where "other_Read = Inl ErrUnsupported"

definition other_ReadDNS :: "read_error + byte list" where "other_ReadDNS = Inl ErrUnsupported"

definition other_Close :: "read_error option" where "other_Close = None"

definition other_main_exit :: nat where "other_main_exit = 1"

section \<open>The collector command\<close>

record collector_flags =
  fl_MaxBatch :: int
  fl_QueueSize :: int
  fl_FlushInterval :: duration
  fl_DnsNames :: bool
  fl_DnsCacheSize :: int

definition default_collector_flags :: collector_flags where
  "default_collector_flags =
     \<lparr>fl_MaxBatch = 1000, fl_QueueSize = 100, fl_FlushInterval = second, fl_DnsNames = True,
      fl_DnsCacheSize = 65536\<rparr>"

datatype setup_error =
    FlagsNotPositive | GrpcClient | BpfFailed bpf_step
  | BadConfig config_error | BadIgnore ignore_error | KubeClient | NotSynced | SinkFailed kafka_error | Listen

definition procRoot :: string where "procRoot = ''/proc''"

definition setup_collector ::
  "collector_flags \<Rightarrow> bool \<Rightarrow> (bpf_step \<Rightarrow> bool) \<Rightarrow> (setup_error + Collector) \<times> bpf_resource set" where
  \<comment> \<open>\<open>runCollector\<close> up to the start of its goroutines\<close>
  "setup_collector fl grpc_ok ok =
     (if fl_MaxBatch fl \<le> 0 \<or> fl_QueueSize fl \<le> 0 \<or> fl_FlushInterval fl \<le> 0 \<or> fl_DnsCacheSize fl \<le> 0
      then (Inl FlagsNotPositive, {})
      else if \<not> grpc_ok then (Inl GrpcClient, {})
      else
        let sender = NewSender (nat (fl_QueueSize fl)) in
        case Loader_New ok of
          (Inl step, open) \<Rightarrow> (Inl (BpfFailed step), open)
        | (Inr l, open) \<Rightarrow>
            let attach = (if fl_DnsNames fl then AttachDNS ok l open else (None, l, open));
                dns = (if fl_DnsNames fl \<and> fst attach = None then Some (Cache_New (fl_DnsCacheSize fl)) else None);
                cfg = \<lparr>ProcRoot = procRoot, FlushInterval = fl_FlushInterval fl, MaxBatch = fl_MaxBatch fl\<rparr>
            in (Inr (Collector_New cfg dns sender), snd (snd attach)))"

section \<open>The processor command\<close>

definition dedupWindow :: duration where "dedupWindow = 30 * second"

record processor_world =
  pw_Load :: "config_error + AppConfig"
  pw_kube_ok :: bool
  pw_dynamic_ok :: bool
  pw_synced :: "WCache option"  \<comment> \<open>the cache once the informers synced; \<open>None\<close>: cancelled before\<close>
  pw_kafka :: kafka_world
  pw_listen_ok :: bool

definition setup_processor :: "processor_world \<Rightarrow> setup_error + Pipeline" where
  \<comment> \<open>\<open>runProcessor\<close> up to \<open>ready.Store(true)\<close>\<close>
  "setup_processor W =
     (case pw_Load W of
        Inl err \<Rightarrow> Inl (BadConfig err)
      | Inr conf \<Rightarrow>
          (case Ignore_Compile (ac_Ignore conf) of
             Inl err \<Rightarrow> Inl (BadIgnore err)
           | Inr matcher \<Rightarrow>
               if \<not> pw_kube_ok W then Inl KubeClient
               else if ic_Enabled (ac_Istio conf) \<and> \<not> pw_dynamic_ok W then Inl KubeClient
               else case pw_synced W of
                   None \<Rightarrow> Inl NotSynced
                 | Some cache \<Rightarrow>
                     (case buildSinks (pw_kafka W) (ac_Emit conf) of
                        Inl err \<Rightarrow> Inl (SinkFailed err)
                      | Inr (sink, flush_kafka) \<Rightarrow>
                          if \<not> pw_listen_ok W then Inl Listen
                          else Inr (NewPipeline cache (Some matcher) (Dedup_New dedupWindow) sink))))"

definition sweepLoop :: "gotime list \<Rightarrow> Deduper \<Rightarrow> Deduper" where
  \<comment> \<open>one sweep per tick until the context is done\<close>
  "sweepLoop ticks d = fold (\<lambda>now d. snd (Dedup_Sweep now d)) ticks d"

section \<open>Probes and main\<close>

definition http_status :: "(unit \<Rightarrow> bool) option \<Rightarrow> string \<Rightarrow> nat" where
  \<comment> \<open>the handlers of \<open>telemetry.Serve\<close>; other paths are not found\<close>
  "http_status ready path =
     (if path = ''/metrics'' then 200
      else if path = ''/healthz'' then 200
      else if path = ''/readyz'' then
        (case ready of Some f \<Rightarrow> if \<not> f () then 503 else 200 | None \<Rightarrow> 200)
      else 404)"

datatype run_error = Canceled | RunFailed string

definition main_exit :: "(string list \<Rightarrow> run_error option) \<Rightarrow> (string list \<Rightarrow> run_error option) \<Rightarrow> string list \<Rightarrow> nat" where
  \<comment> \<open>the exit code of \<open>main\<close>; the first element of \<open>args\<close> is the program\<close>
  "main_exit runCollector runProcessor args =
     (if length args < 2 then 2
      else
        let cmd = args ! 1;
            finish = (\<lambda>err. case err of None \<Rightarrow> 0 | Some Canceled \<Rightarrow> 0 | Some (RunFailed _) \<Rightarrow> (1 :: nat))
        in if cmd = ''collector'' then finish (runCollector (drop 2 args))
           else if cmd = ''processor'' then finish (runProcessor (drop 2 args))
           else if cmd \<in> {''-h'', ''-help'', ''--help'', ''help''} then 0
           else 2)"

section \<open>Facts\<close>

definition conn_resources :: "bpf_resource set" where
  "conn_resources = {ConnObjs, TracepointLink, FentryLink, EventsReader}"

lemma Loader_New_open:
  "case Loader_New ok of (Inl _, open) \<Rightarrow> open = {}
     | (Inr l, open) \<Rightarrow> open = conn_resources \<and> Loader_Close l open = {} \<and> \<not> ld_dnsReader l"
  by (auto simp: Loader_New_def Loader_Close_def conn_resources_def Let_def)

lemma AttachDNS_cases:
  assumes "DnsObjs \<notin> open" and "CgroupLink \<notin> open"
  shows "case AttachDNS ok l open of
      (Some _, l', open') \<Rightarrow> l' = l \<and> open' = open
    | (None, l', open') \<Rightarrow> ld_dnsReader l' \<and> open' = open \<union> {DnsObjs, CgroupLink, DnsReader}
        \<and> Loader_Close l' open' \<subseteq> Loader_Close l open - {DnsObjs, CgroupLink, DnsReader}"
  using assms by (auto simp: AttachDNS_def Loader_Close_def Let_def)

lemma setup_collector_inv: "setup_collector fl g ok = (Inr c, open) \<Longrightarrow> collector_inv c"
  unfolding setup_collector_def Let_def
  by (auto split: if_splits prod.splits sum.splits intro!: collector_inv_New)

lemma setup_processor_Inr:
  assumes "setup_processor W = Inr p"
  obtains conf matcher sink kf where "pw_Load W = Inr conf" "Ignore_Compile (ac_Ignore conf) = Inr matcher"
    "pw_synced W = Some (pl_cache p)" "buildSinks (pw_kafka W) (ac_Emit conf) = Inr (sink, kf)"
    "pw_listen_ok W" "p = NewPipeline (pl_cache p) (Some matcher) (Dedup_New dedupWindow) sink"
  using assms unfolding setup_processor_def
  by (auto simp: NewPipeline_def split: sum.splits if_splits option.splits prod.splits)

lemma sweepLoop_fold: "sweepLoop ticks = fold dedup_sweep ticks"
  by (simp add: fun_eq_iff sweepLoop_def dedup_sweep_def [abs_def])

text \<open>The processor accepts records only when it can serve them: its set-up succeeds only
  with a configuration that loaded, patterns that compiled, informers that synced, sinks
  that were built and a listener, and it then starts with an empty deduper of a 30 s
  window, the compiled rules and the synced cache; until then readiness is refused
  while liveness holds.\<close>

lemma processor_ready:
  "(setup_processor W = Inr p \<longrightarrow>
      (\<exists>conf matcher sink kf. pw_Load W = Inr conf \<and> Ignore_Compile (ac_Ignore conf) = Inr matcher
         \<and> pw_synced W = Some (pl_cache p) \<and> buildSinks (pw_kafka W) (ac_Emit conf) = Inr (sink, kf)
         \<and> pl_matcher p = Some matcher \<and> pl_sink p = sink \<and> pl_deduper p = Dedup_New (30 * second)
         \<and> total_records p = 0))
   \<and> http_status (Some (\<lambda>_. False)) ''/readyz'' = 503 \<and> http_status (Some (\<lambda>_. True)) ''/readyz'' = 200
   \<and> http_status None ''/readyz'' = 200 \<and> http_status ready ''/healthz'' = 200"
proof (intro conjI impI)
  assume "setup_processor W = Inr p"
  then obtain conf matcher sink kf where s: "pw_Load W = Inr conf" "Ignore_Compile (ac_Ignore conf) = Inr matcher"
    "pw_synced W = Some (pl_cache p)" "buildSinks (pw_kafka W) (ac_Emit conf) = Inr (sink, kf)"
    and p: "p = NewPipeline (pl_cache p) (Some matcher) (Dedup_New dedupWindow) sink"
    by (rule setup_processor_Inr)
  from p have "pl_matcher p = Some matcher" "pl_sink p = sink" "pl_deduper p = Dedup_New (30 * second)" "total_records p = 0"
    by (metis NewPipeline_def Pipeline.select_convs(2), metis NewPipeline_def Pipeline.select_convs(4),
        metis NewPipeline_def Pipeline.select_convs(3) dedupWindow_def)
      (subst p, simp add: total_records_def all_results_def NewPipeline_def)
  with s show "\<exists>conf matcher sink kf. pw_Load W = Inr conf \<and> Ignore_Compile (ac_Ignore conf) = Inr matcher
      \<and> pw_synced W = Some (pl_cache p) \<and> buildSinks (pw_kafka W) (ac_Emit conf) = Inr (sink, kf)
      \<and> pl_matcher p = Some matcher \<and> pl_sink p = sink \<and> pl_deduper p = Dedup_New (30 * second)
      \<and> total_records p = 0" by blast
qed (simp_all add: http_status_def)

section \<open>Properties\<close>

text \<open>The collector as it is started is safe for ever: whatever flags the command accepts
  and however the processor, the DNS messages and the connections behave, in every
  state it reaches the aggregator holds fewer than \<open>MaxBatch\<close> flows, the queue at most
  its size, every batch ever queued has between one and \<open>MaxBatch\<close> records, the host
  name cache keeps its bound, the accepted events are (modulo \<open>2 ^ 32\<close>) those held
  in the aggregator and those in the records queued, and every record ever queued has
  been sent or dropped, is still in the queue or is in the delivery goroutine's hands.\<close>

lemma collector_safe:
  assumes "setup_collector fl grpc_ok ok = (Inr c0, open)"
    and "(collector_step uni P)\<^sup>*\<^sup>* c0 c"
  shows "int (agg_len (col_agg c)) < MaxBatch (col_cfg c)
    \<and> length (s_queue (col_sender c)) \<le> s_cap (col_sender c)
    \<and> (\<forall>b \<in> set (g_pushed (col_sender c)). 0 < length b \<and> int (length b) \<le> MaxBatch (col_cfg c))
    \<and> (\<forall>d. col_dns c = Some d \<longrightarrow> int (Cache_Len d) \<le> max 0 (c_max d))
    \<and> of_nat (m_Events c resultAccepted) =
        agg_total (col_agg c) + records_total (concat (g_pushed (col_sender c)))
    \<and> length (concat (g_pushed (col_sender c))) =
        m_RecordsSent (col_sender c) + m_RecordsDropped (col_sender c)
        + queued_records (s_queue (col_sender c)) + length (worker_batch (s_worker (col_sender c)))"
proof -
  have "collector_inv c0" by (rule setup_collector_inv [OF assms(1)])
  with assms(2) have "collector_inv c"
    by (induction rule: rtranclp_induct) (auto intro: collector_step_inv)
  then show ?thesis
    by (auto simp: collector_inv_def sender_inv_def batch_sizes_def pushed_total_def cache_ok_def
        all_offered_def records_accounted_def)
qed

text \<open>The loader leaks nothing: when \<open>New\<close> fails no program, link or reader stays open,
  when it succeeds \<open>Close\<close> releases all of it; a failing \<open>AttachDNS\<close> leaves loader and
  resources as they were, so connection capture goes on and \<open>ReadDNS\<close> reports the end
  of input at once, and after a successful one \<open>Close\<close> releases the DNS capture too.\<close>

lemma loader_no_leak:
  "(Loader_New ok = (Inl step, open) \<longrightarrow> open = {})
   \<and> (Loader_New ok = (Inr l, open) \<longrightarrow>
        open = {ConnObjs, TracepointLink, FentryLink, EventsReader} \<and> Loader_Close l open = {}
        \<and> (AttachDNS ok l open = (Some err, l', open') \<longrightarrow>
              l' = l \<and> open' = open \<and> ReadDNS l' r = Inl ErrClosed)
        \<and> (AttachDNS ok l open = (None, l', open') \<longrightarrow>
              open' = UNIV \<and> Loader_Close l' open' = {} \<and> ReadDNS l' (Sample b) = Inr b))"
proof (intro conjI impI)
  assume "Loader_New ok = (Inl step, open)"
  with Loader_New_open [of ok] show "open = {}" by simp
next
  assume n: "Loader_New ok = (Inr l, open)"
  have "open = conn_resources \<and> Loader_Close l open = {} \<and> \<not> ld_dnsReader l"
    using Loader_New_open [of ok] unfolding n prod.case sum.case .
  then have o: "open = conn_resources" "Loader_Close l open = {}" "\<not> ld_dnsReader l" by blast+
  show "open = {ConnObjs, TracepointLink, FentryLink, EventsReader}" using o(1) by (simp only: conn_resources_def)
  show "Loader_Close l open = {}" by (rule o(2))
  have fresh: "DnsObjs \<notin> open" "CgroupLink \<notin> open" by (simp_all add: o(1) conn_resources_def)
  {
    assume "AttachDNS ok l open = (Some err, l', open')"
    with AttachDNS_cases [OF fresh, where ok = ok and l = l] o(3) show "l' = l" "open' = open" "ReadDNS l' r = Inl ErrClosed"
      by (simp_all add: ReadDNS_def)
  }
  {
    assume "AttachDNS ok l open = (None, l', open')"
    with AttachDNS_cases [OF fresh, where ok = ok and l = l] have a: "ld_dnsReader l'"
      "open' = open \<union> {DnsObjs, CgroupLink, DnsReader}"
      "Loader_Close l' open' \<subseteq> Loader_Close l open - {DnsObjs, CgroupLink, DnsReader}" by auto
    have "x \<in> open'" for x by (cases x) (simp_all add: a(2) o(1) conn_resources_def)
    then show "open' = UNIV" by blast
    show "Loader_Close l' open' = {}" using a(3) o(2) by blast
    show "ReadDNS l' (Sample b) = Inr b" using a(1) by (simp add: ReadDNS_def ring_bytes_def)
  }
qed

end
