(* ===== verification/Wire.thy ===== *)
theory Wire
  imports Commands
begin

text \<open>
  What crosses the wire from the collector (\<open>internal/collector\<close>) to the processor
  (\<open>internal/processor/server.go\<close>): the flow keys whose records the processor accepts, that
  every event the collector keeps has such a key, and that every batch it ever queues holds
  records of such keys only. The theories that run both sides use it.
\<close>

section \<open>Reportable flows\<close>

definition key_event :: "flowKey \<Rightarrow> ConnectionEvent" where
  \<comment> \<open>the part of an event its flow key keeps\<close>
  "key_event k =
     \<lparr>SrcIP = k_src k, DstIP = k_dst k, SrcPort = 0, DstPort = k_dstPort k, Protocol = k_proto k, PID = 0,
      Comm = [], Outbound = k_outbound k, SrcPodUID = k_podUID k, DstHostname = []\<rparr>"

definition reportable :: "flowKey \<Rightarrow> bool" where
  "reportable k \<longleftrightarrow> wire_addr (k_src k) \<and> wire_addr (k_dst k) \<and> unmap (k_src k) = k_src k \<and> unmap (k_dst k) = k_dst k
     \<and> \<not> node_local (key_event k) \<and> (\<not> k_outbound k \<longrightarrow> k_podUID k = [])"

definition reportable_state :: "Collector \<Rightarrow> bool" where
  "reportable_state c \<longleftrightarrow>
     (\<forall>k. k |\<in>| fmdom (a_flows (col_agg c)) \<longrightarrow> reportable k)
     \<and> (\<forall>r \<in> set (concat (g_pushed (col_sender c))). \<exists>k f. reportable k \<and> r = flow_record k f)"

lemma Decode_wire:
  "Decode b = Inr e \<Longrightarrow> wire_addr (SrcIP e) \<and> wire_addr (DstIP e) \<and> SrcPodUID e = []"
  by (auto simp: Decode_def decodeAddr_def addr_from4_def addr_from16_def is_4in6_def wire_addr_def Let_def
      split: if_splits sum.splits)

lemma attribute_source_event:
  fixes uni fs ev now c
  defines "ev' \<equiv> fst (attribute_source uni fs ev now c)"
  shows "SrcIP ev' = SrcIP ev" and "DstIP ev' = DstIP ev" and "Outbound ev' = Outbound ev"
    and "\<not> Outbound ev \<Longrightarrow> ev' = ev"
  unfolding ev'_def by (simp_all add: attribute_source_def Let_def split: prod.split option.split)

lemma node_local_cong:
  "\<lbrakk>SrcIP e = SrcIP e'; DstIP e = DstIP e'\<rbrakk> \<Longrightarrow> node_local e = node_local e'"
  by (simp add: filter_defs)

lemma reportable_same:
  assumes "Decode raw = Inr ev" and "\<not> node_local (Canonical ev)"
    and "SrcIP ev' = SrcIP (Canonical ev)" and "DstIP ev' = DstIP (Canonical ev)" and "Outbound ev' \<or> SrcPodUID ev' = []"
  shows "reportable (flow_key ev')"
proof -
  have w: "wire_addr (SrcIP ev')" "wire_addr (DstIP ev')" "unmap (SrcIP ev') = SrcIP ev'" "unmap (DstIP ev') = DstIP ev'"
    using Decode_wire [OF assms(1)] Decode_addrs_unmapped [OF assms(1)] assms(3,4) by (auto simp: Canonical_def)
  have "\<not> node_local (key_event (flow_key ev'))"
    using assms(2-4) node_local_cong [of "key_event (flow_key ev')" "Canonical ev"]
    by (simp add: key_event_def flow_key_def)
  with w assms(5) show ?thesis by (auto simp: reportable_def flow_key_def)
qed

lemma reportable_accepted:
  assumes "Decode raw = Inr ev" and "\<not> node_local (Canonical ev)"
    and "attribute_source uni fs (Canonical ev) now c = (ev', c')"
  shows "reportable (flow_key ev')"
proof -
  note a = attribute_source_event [where uni = uni and fs = fs and ev = "Canonical ev" and now = now and c = c, unfolded assms(3) fst_conv]
  show ?thesis
    using a(3,4) Decode_wire [OF assms(1)] by (intro reportable_same [OF assms(1,2) a(1,2)]) auto
qed

lemma reportable_observe:
  assumes "reportable_state c"
  shows "reportable_state (snd (observe_raw uni fs raw now c))"
proof (cases rule: observe_raw_cases [of raw uni fs now c])
  case (bad err)
  with assms show ?thesis by (simp add: reportable_state_def)
next
  case (filtered ev)
  with assms show ?thesis by (simp add: reportable_state_def)
next
  case (accepted ev ev' d)
  have "col_sender d = col_sender c"
    using attribute_source_simps(3) [of uni fs "Canonical ev" now c] accepted(3) by simp
  moreover have "reportable (flow_key ev')" by (rule reportable_accepted [OF accepted(1-3)])
  ultimately show ?thesis
    using assms accepted(4) by (auto simp: reportable_state_def Aggregator_Add_def Let_def)
qed

lemma reportable_flush:
  assumes "0 < MaxBatch (col_cfg c)" and "0 < s_cap (col_sender c)" and "sender_inv (col_sender c)"
    and "reportable_state c" and "flush ks c = Some c'"
  shows "reportable_state c'"
proof -
  obtain t bs where t: "flush ks c = Some (c\<lparr>col_agg := NewAggregator, col_sender := t\<rparr>)"
    "g_pushed t = g_pushed (col_sender c) @ bs" "concat bs = fst (Aggregator_Drain ks (col_agg c))"
    using flush_result [OF assms(1-3), of ks] enqueuedD(6) by blast
  have bs: "\<forall>r \<in> set (concat bs). \<exists>k f. reportable k \<and> r = flow_record k f"
    using assms(4) unfolding t(3)
    by (force simp: Aggregator_Drain_def drain_loop_in reportable_state_def fmdomI)
  have "c' = c\<lparr>col_agg := NewAggregator, col_sender := t\<rparr>" using t(1) assms(5) by simp
  with assms(4) bs show ?thesis
    unfolding reportable_state_def by (simp add: t(2) NewAggregator_def ball_Un)
qed

lemma flush_tick_flush:
  assumes "flush_tick ks now c = Some c'"
  obtains d where "flush ks c = Some d" and "col_agg c' = col_agg d" and "col_sender c' = col_sender d"
proof (cases "flush ks c")
  case None
  with assms show thesis by (simp add: flush_tick_def)
next
  case (Some d)
  with assms have "col_agg c' = col_agg d \<and> col_sender c' = col_sender d"
    by (cases "col_dns d") (auto simp: flush_tick_def split: prod.splits)
  with Some that show thesis by blast
qed

lemma collector_step_reportable:
  "\<lbrakk>collector_step uni P c c'; collector_inv c; reportable_state c\<rbrakk> \<Longrightarrow> reportable_state c'"
proof (erule collector_stepE)
  fix fs rd now ks
  assume i: "collector_inv c" and c: "reportable_state c" and run: "Run_event uni fs ks rd now c = Some c'"
  show "reportable_state c'"
  proof (cases rd)
    case None
    with run have "c' = count_event resultReadError c" by (simp add: Run_event_def)
    with c show ?thesis by (simp add: reportable_state_def)
  next
    case (Some raw)
    obtain full d where o: "observe_raw uni fs raw now c = (full, d)" by (metis surj_pair)
    then have d: "reportable_state d" using reportable_observe [OF c, of uni fs raw now] by simp
    from o Some run have h: "(if full then flush ks d else Some d) = Some c'"
      by (simp add: Run_event_def handle_def)
    have "0 < MaxBatch (col_cfg d)" "0 < s_cap (col_sender d)" "sender_inv (col_sender d)"
      using observe_raw_inv(1,2) [OF i, of uni fs raw now] i o by (simp_all add: collector_inv_def)
    with d h show ?thesis by (auto split: if_splits intro: reportable_flush)
  qed
next
  fix rd now
  assume "reportable_state c" "RunDNS_record uni P rd now c = Some c'"
  then show "reportable_state c'"
    using RunDNS_record_same [of uni P rd now c c'] by (simp add: reportable_state_def same_but_dns_def)
next
  fix ks now
  assume i: "collector_inv c" "reportable_state c" and t: "flush_tick ks now c = Some c'"
  obtain d where d: "flush ks c = Some d" "col_agg c' = col_agg d" "col_sender c' = col_sender d"
    by (rule flush_tick_flush [OF t])
  have "reportable_state d"
    using i(1) by (intro reportable_flush [OF _ _ _ i(2) d(1)]) (simp_all add: collector_inv_def)
  with d(2,3) show "reportable_state c'" by (simp add: reportable_state_def)
next
  fix s
  assume "reportable_state c" "c' = c\<lparr>col_sender := s\<rparr>" "g_pushed s = g_pushed (col_sender c)"
  then show "reportable_state c'" by (simp add: reportable_state_def)
qed

lemma toEvent_reportable:
  assumes "reportable k"
  shows "\<exists>e. toEvent (flow_record k f) = Some e \<and> \<not> node_local e
    \<and> unmap (SrcIP e) = SrcIP e \<and> unmap (DstIP e) = DstIP e \<and> (Outbound e \<or> SrcPodUID e = [])"
proof -
  let ?e = "\<lparr>SrcIP = k_src k, DstIP = k_dst k, SrcPort = 0, DstPort = k_dstPort k, Protocol = k_proto k, PID = 0,
      Comm = f_comm f, Outbound = k_outbound k, SrcPodUID = k_podUID k, DstHostname = f_hostname f\<rparr>"
  have k: "wire_addr (k_src k)" "wire_addr (k_dst k)" "unmap (k_src k) = k_src k" "unmap (k_dst k) = k_dst k"
    "\<not> node_local (key_event k)" "k_outbound k \<or> k_podUID k = []"
    using assms by (auto simp: reportable_def)
  have "toEvent (flow_record k f) = Some ?e"
    using toEvent_flow_record [OF k(1,2)] k(3,4) by simp
  moreover have "\<not> node_local ?e"
    using k(5) node_local_cong [of ?e "key_event k"] by (simp add: key_event_def)
  ultimately show ?thesis using k by simp
qed

lemma reachable_reportable:
  assumes "(collector_step uni P)\<^sup>*\<^sup>* c0 c" and "collector_inv c0" and "reportable_state c0"
  shows "collector_inv c \<and> reportable_state c"
  using assms by (induction rule: rtranclp_induct) (auto intro: collector_step_inv collector_step_reportable)

lemma setup_collector_reportable:
  "setup_collector fl grpc_ok ok = (Inr c0, open) \<Longrightarrow> reportable_state c0"
  unfolding setup_collector_def Let_def
  by (auto simp: reportable_state_def Collector_New_def NewAggregator_def NewSender_def split: if_splits prod.splits sum.splits)

end
