(* ===== verification/Collector_Concurrent.thy ===== *)
theory Collector_Concurrent
  imports Commands
begin

text \<open>
  \<open>internal/collector/collector.go\<close> as concurrent code: \<open>Run\<close>, \<open>RunDNS\<close>, \<open>flushLoop\<close> and the
  sender's delivery each in a goroutine of its own, one shared access per step: an
  operation of the host name cache or of the aggregator under its lock, a channel operation
  of \<open>Enqueue\<close>, a counter. \<open>Run\<close> and \<open>flushLoop\<close> may flush at the same time, and either may
  drain the aggregator while the other still queues what it drained. The cache from PIDs to
  pod UIDs belongs to \<open>Run\<close> alone. Fields named \<open>g_\<close> are ghosts.
\<close>

section \<open>Where the goroutines stand\<close>

datatype feed =
    Rest "FlowRecord list"  \<comment> \<open>in \<open>flush\<close>: the records left to queue\<close>
  | Offer "FlowRecord producer" "FlowRecord list"  \<comment> \<open>in \<open>Enqueue\<close>, and what is left after it\<close>

datatype run_at =
    AtRead
  | AtLookup ConnectionEvent gotime
  | AtCount ConnectionEvent gotime
  | AtAdd ConnectionEvent gotime
  | AtDrain  \<comment> \<open>the aggregator is full\<close>
  | AtFeed feed

datatype loop_at = AtTick | Flushing feed | AtSweep | LoopEnded

datatype dns_at = AtReadDNS | AtPut "DNSAnswer list" gotime

type_synonym timed_event = "gotime \<times> ConnectionEvent"

record node =
  nd_core :: Collector
  nd_run :: run_at
  nd_loop :: loop_at
  nd_dns :: dns_at
  g_reads :: "byte list list"  \<comment> \<open>what \<open>Run\<close> has read\<close>
  g_current :: "timed_event list"  \<comment> \<open>the events added since the last drain\<close>
  g_drained :: "(timed_event list \<times> FlowRecord list) list"
    \<comment> \<open>for each drain, in order, the events it summarised and its records\<close>

definition start_node :: "Collector \<Rightarrow> node" where
  "start_node c =
     \<lparr>nd_core = c, nd_run = AtRead, nd_loop = AtTick, nd_dns = AtReadDNS, g_reads = [], g_current = [], g_drained = []\<rparr>"

abbreviation nd_sender :: "node \<Rightarrow> FlowRecord Sender" where
  "nd_sender v \<equiv> col_sender (nd_core v)"

section \<open>Steps\<close>

inductive feed_step :: "int \<Rightarrow> feed \<times> FlowRecord Sender \<Rightarrow> feed \<times> FlowRecord Sender \<Rightarrow> bool" for maxBatch where
  feed_spin: "\<lbrakk>rs \<noteq> []; maxBatch = 0\<rbrakk> \<Longrightarrow> feed_step maxBatch (Rest rs, s) (Rest rs, s)"
    \<comment> \<open>\<open>Enqueue\<close> of an empty batch; a negative size panics\<close>
| feed_call: "\<lbrakk>rs \<noteq> []; 0 < maxBatch; n = nat (min (int (length rs)) maxBatch)\<rbrakk> \<Longrightarrow>
     feed_step maxBatch (Rest rs, s)
       (Offer (Pushing (take n rs)) (drop n rs),
        s\<lparr>s_producers := add_mset (Pushing (take n rs)) (s_producers s), g_offered := g_offered s + length (take n rs)\<rparr>)"
| feed_push: "length (s_queue s) < s_cap s \<Longrightarrow>
     feed_step maxBatch (Offer (Pushing b) rs, s) (Rest rs, (chan_push b s)\<lparr>s_producers := s_producers s - {#Pushing b#}\<rparr>)"
| feed_full: "s_cap s \<le> length (s_queue s) \<Longrightarrow>
     feed_step maxBatch (Offer (Pushing b) rs, s)
       (Offer (Evicting b) rs, s\<lparr>s_producers := add_mset (Evicting b) (s_producers s - {#Pushing b#})\<rparr>)"
| feed_evict: "s_queue s \<noteq> [] \<Longrightarrow>
     feed_step maxBatch (Offer (Evicting b) rs, s)
       (Offer (Pushing b) rs, (chan_evict s)\<lparr>s_producers := add_mset (Pushing b) (s_producers s - {#Evicting b#})\<rparr>)"
| feed_none: "s_queue s = [] \<Longrightarrow>
     feed_step maxBatch (Offer (Evicting b) rs, s)
       (Offer (Pushing b) rs, s\<lparr>s_producers := add_mset (Pushing b) (s_producers s - {#Evicting b#})\<rparr>)"

inductive_cases feed_stepE: "feed_step maxBatch (f, s) (g, t)"

definition begin_event ::
  "unicode_lower \<Rightarrow> procfs \<Rightarrow> byte list \<Rightarrow> gotime \<Rightarrow> Collector \<Rightarrow> run_at \<times> Collector" where
  \<comment> \<open>\<open>handle\<close> up to its first shared access\<close>
  "begin_event uni fs raw now c =
     (case Decode raw of
        Inl err \<Rightarrow> (AtRead, count_event resultDecodeError c)
      | Inr ev \<Rightarrow>
          let ev = Canonical ev in
          if IsLoopback ev \<or> IsSelfEdge ev \<or> IsAWSReserved ev \<or> IsLinkLocal ev
          then (AtRead, count_event resultFiltered c)
          else if \<not> Outbound ev then (AtCount ev now, c)
          else case podUID uni fs (PID ev) now c of (uid, c) \<Rightarrow>
            let ev = ev\<lparr>SrcPodUID := uid\<rparr>
            in (if col_dns c = None then AtCount ev now else AtLookup ev now, c))"

definition host_of :: "ConnectionEvent \<Rightarrow> gotime \<Rightarrow> Cache \<Rightarrow> ConnectionEvent" where
  "host_of ev now d = ev\<lparr>DstHostname := (case Cache_Lookup (DstIP ev) now d of None \<Rightarrow> [] | Some n \<Rightarrow> n)\<rparr>"

definition with_sender :: "FlowRecord Sender \<Rightarrow> node \<Rightarrow> node" where
  "with_sender s v = v\<lparr>nd_core := (nd_core v)\<lparr>col_sender := s\<rparr>\<rparr>"

definition add_event :: "ConnectionEvent \<Rightarrow> gotime \<Rightarrow> node \<Rightarrow> node" where
  "add_event ev now v =
     (case Aggregator_Add ev now (col_agg (nd_core v)) of (n, agg) \<Rightarrow>
        v\<lparr>nd_core := (nd_core v)\<lparr>col_agg := agg\<rparr>,
          nd_run := (if MaxBatch (col_cfg (nd_core v)) \<le> int n then AtDrain else AtRead),
          g_current := g_current v @ [(now, ev)]\<rparr>)"

definition drain :: "flowKey list \<Rightarrow> node \<Rightarrow> FlowRecord list \<times> node" where
  "drain ks v =
     (case Aggregator_Drain ks (col_agg (nd_core v)) of (rs, agg) \<Rightarrow>
        (rs, v\<lparr>nd_core := (nd_core v)\<lparr>col_agg := agg\<rparr>, g_current := [], g_drained := g_drained v @ [(g_current v, rs)]\<rparr>))"

inductive node_step :: "unicode_lower \<Rightarrow> 'p dns_parser \<Rightarrow> node \<Rightarrow> node \<Rightarrow> bool" for uni P where
  read_error: "nd_run v = AtRead \<Longrightarrow>
     node_step uni P v (v\<lparr>nd_core := count_event resultReadError (nd_core v)\<rparr>)"
| read_event: "\<lbrakk>nd_run v = AtRead; begin_event uni fs raw now (nd_core v) = (r, c)\<rbrakk> \<Longrightarrow>
     node_step uni P v (v\<lparr>nd_core := c, nd_run := r, g_reads := g_reads v @ [raw]\<rparr>)"
| lookup_name: "\<lbrakk>nd_run v = AtLookup ev now; col_dns (nd_core v) = Some d\<rbrakk> \<Longrightarrow>
     node_step uni P v (v\<lparr>nd_run := AtCount (host_of ev now d) now\<rparr>)"
| count_accepted: "nd_run v = AtCount ev now \<Longrightarrow>
     node_step uni P v (v\<lparr>nd_core := count_event resultAccepted (nd_core v), nd_run := AtAdd ev now\<rparr>)"
| add: "nd_run v = AtAdd ev now \<Longrightarrow> node_step uni P v (add_event ev now v)"
| run_drain: "\<lbrakk>nd_run v = AtDrain; key_order (a_flows (col_agg (nd_core v))) ks; drain ks v = (rs, u)\<rbrakk> \<Longrightarrow>
     node_step uni P v (u\<lparr>nd_run := AtFeed (Rest rs)\<rparr>)"
| run_feed: "\<lbrakk>nd_run v = AtFeed f; feed_step (MaxBatch (col_cfg (nd_core v))) (f, nd_sender v) (f', s)\<rbrakk> \<Longrightarrow>
     node_step uni P v ((with_sender s v)\<lparr>nd_run := AtFeed f'\<rparr>)"
| run_fed: "nd_run v = AtFeed (Rest []) \<Longrightarrow> node_step uni P v (v\<lparr>nd_run := AtRead\<rparr>)"
| tick: "\<lbrakk>nd_loop v = AtTick; key_order (a_flows (col_agg (nd_core v))) ks; drain ks v = (rs, u)\<rbrakk> \<Longrightarrow>
     node_step uni P v (u\<lparr>nd_loop := Flushing (Rest rs)\<rparr>)"
| loop_feed: "\<lbrakk>nd_loop v = Flushing f; feed_step (MaxBatch (col_cfg (nd_core v))) (f, nd_sender v) (f', s)\<rbrakk> \<Longrightarrow>
     node_step uni P v ((with_sender s v)\<lparr>nd_loop := Flushing f'\<rparr>)"
| loop_fed: "nd_loop v = Flushing (Rest []) \<Longrightarrow>
     node_step uni P v (v\<lparr>nd_loop := (if col_dns (nd_core v) = None then AtTick else AtSweep)\<rparr>)"
| sweep: "\<lbrakk>nd_loop v = AtSweep; col_dns (nd_core v) = Some d; Cache_Sweep now d = (n, d')\<rbrakk> \<Longrightarrow>
     node_step uni P v (v\<lparr>nd_core := (nd_core v)\<lparr>col_dns := Some d', m_DNSCacheEntries := n\<rparr>, nd_loop := AtTick\<rparr>)"
| loop_done: "\<lbrakk>nd_loop v = AtTick; s_cancelled (nd_sender v)\<rbrakk> \<Longrightarrow> node_step uni P v (v\<lparr>nd_loop := LoopEnded\<rparr>)"
| dns_error: "\<lbrakk>nd_dns v = AtReadDNS; col_dns (nd_core v) \<noteq> None\<rbrakk> \<Longrightarrow>
     node_step uni P v (v\<lparr>nd_core := count_dns resultReadError (nd_core v)\<rparr>)"
| dns_refused: "\<lbrakk>nd_dns v = AtReadDNS; col_dns (nd_core v) \<noteq> None; DecodeDNS uni P raw = Some (Inl err)\<rbrakk> \<Longrightarrow>
     node_step uni P v (v\<lparr>nd_core :=
       count_dns (if err = ErrNotDNSAnswer then resultNotAnswer else resultDecodeError) (nd_core v)\<rparr>)"
| dns_read: "\<lbrakk>nd_dns v = AtReadDNS; col_dns (nd_core v) \<noteq> None; DecodeDNS uni P raw = Some (Inr answers)\<rbrakk> \<Longrightarrow>
     node_step uni P v (v\<lparr>nd_dns := AtPut answers now\<rparr>)"
| dns_put: "\<lbrakk>nd_dns v = AtPut (a # as) now; col_dns (nd_core v) = Some d;
      Cache_Put (a_IP a) (a_Name a) (int (unat (a_TTL a)) * second) now d = (stored, d')\<rbrakk> \<Longrightarrow>
     node_step uni P v (v\<lparr>nd_core := (count_dns (if stored then resultCached else resultCacheFull) (nd_core v))\<lparr>col_dns := Some d'\<rparr>,
                          nd_dns := AtPut as now\<rparr>)"
| dns_done: "nd_dns v = AtPut [] now \<Longrightarrow> node_step uni P v (v\<lparr>nd_dns := AtReadDNS\<rparr>)"
| deliver: "\<lbrakk>sender_step (nd_sender v) s; s_producers s = s_producers (nd_sender v);
      g_pushed s = g_pushed (nd_sender v)\<rbrakk> \<Longrightarrow> node_step uni P v (with_sender s v)"

inductive_cases node_stepE: "node_step uni P v u"

section \<open>Invariant\<close>

fun in_hand :: "feed \<Rightarrow> FlowRecord list" where
  "in_hand (Rest rs) = rs"
| "in_hand (Offer p rs) = producer_batch p @ rs"

fun offers :: "feed \<Rightarrow> FlowRecord producer multiset" where
  "offers (Rest rs) = {#}"
| "offers (Offer p rs) = {#p#}"

fun feed_ok :: "int \<Rightarrow> feed \<Rightarrow> bool" where
  "feed_ok mb (Rest rs) \<longleftrightarrow> True"
| "feed_ok mb (Offer p rs) \<longleftrightarrow> 0 < length (producer_batch p) \<and> int (length (producer_batch p)) \<le> mb"

definition run_feeds :: "run_at \<Rightarrow> feed list" where
  "run_feeds r = (case r of AtFeed f \<Rightarrow> [f] | _ \<Rightarrow> [])"

definition loop_feeds :: "loop_at \<Rightarrow> feed list" where
  "loop_feeds l = (case l of Flushing f \<Rightarrow> [f] | _ \<Rightarrow> [])"

definition feeds :: "node \<Rightarrow> feed list" where
  "feeds v = run_feeds (nd_run v) @ loop_feeds (nd_loop v)"

definition flushed_by :: "timed_event list \<Rightarrow> FlowRecord list \<Rightarrow> bool" where
  \<comment> \<open>\<open>rs\<close> is what a drain reports when \<open>es\<close> were added since the last one\<close>
  "flushed_by es rs \<longleftrightarrow>
     (\<exists>ks. key_order (a_flows (add_all es NewAggregator)) ks \<and> rs = fst (Aggregator_Drain ks (add_all es NewAggregator)))"

definition added :: "node \<Rightarrow> timed_event list" where
  "added v = concat (map fst (g_drained v)) @ g_current v"

definition drained_records :: "node \<Rightarrow> FlowRecord list" where
  "drained_records v = concat (map snd (g_drained v))"

definition counted :: "run_at \<Rightarrow> nat" where
  \<comment> \<open>counted as accepted, not yet added\<close>
  "counted r = (case r of AtAdd ev now \<Rightarrow> 1 | _ \<Rightarrow> 0)"

definition worker_ok :: "FlowRecord Sender \<Rightarrow> bool" where
  \<comment> \<open>the batch being delivered was queued\<close>
  "worker_ok s \<longleftrightarrow> (\<forall>b d. s_worker s = Calling b d \<or> s_worker s = Waiting b d \<longrightarrow> b \<in> set (g_pushed s))"

definition feeding_inv :: "int \<Rightarrow> feed list \<Rightarrow> FlowRecord Sender \<Rightarrow> FlowRecord multiset \<Rightarrow> bool" where
  \<comment> \<open>the records in \<open>M\<close> have been queued or are in the hands of a flush\<close>
  "feeding_inv mb fs s M \<longleftrightarrow>
     0 < mb \<and> 0 < s_cap s \<and> sender_inv s \<and> worker_ok s \<and> batch_sizes mb (g_pushed s)
     \<and> list_all (feed_ok mb) fs
     \<and> s_producers s = sum_list (map offers fs)
     \<and> g_offered s = length (concat (g_pushed s)) + waiting_records (s_producers s)
     \<and> mset (concat (g_pushed s)) + sum_list (map (\<lambda>f. mset (in_hand f)) fs) = M"

definition events_seen :: "node \<Rightarrow> bool" where
  "events_seen v \<longleftrightarrow>
     add_all (g_current v) NewAggregator = col_agg (nd_core v)
     \<and> (\<forall>(es, rs) \<in> set (g_drained v). flushed_by es rs)
     \<and> m_Events (nd_core v) resultAccepted = length (added v) + counted (nd_run v)
     \<and> int (agg_len (col_agg (nd_core v))) \<le> MaxBatch (col_cfg (nd_core v))
     \<and> (nd_run v \<noteq> AtDrain \<longrightarrow> int (agg_len (col_agg (nd_core v))) < MaxBatch (col_cfg (nd_core v)))
     \<and> (\<forall>d. col_dns (nd_core v) = Some d \<longrightarrow> cache_ok d)"

definition node_inv :: "node \<Rightarrow> bool" where
  "node_inv v \<longleftrightarrow>
     feeding_inv (MaxBatch (col_cfg (nd_core v))) (feeds v) (nd_sender v) (mset (drained_records v))
     \<and> events_seen v"

section \<open>Two flushes and a delivery\<close>

lemma waiting_records_mset: "waiting_records (ps + qs) = waiting_records ps + waiting_records qs"
  by (simp add: waiting_records_def)

lemma feed_step_sender:
  assumes "feed_step mb (f, s) (f', t)" and "feed_ok mb f" and "offers f \<subseteq># s_producers s"
  shows "sender_step s t \<or> t = s"
  using assms
proof (elim feed_stepE, goal_cases)
  case (2 rs)
  then have "take (nat (min (int (length rs)) mb)) rs \<noteq> []" by (simp add: min_le_iff_disj)
  with 2 enqueue_call [of "take (nat (min (int (length rs)) mb)) rs" s] show ?case by simp
qed (auto intro: sender_step.intros)

lemma feed_step_same:
  "feed_step mb (f, s) (f', t) \<Longrightarrow> s_worker t = s_worker s \<and> s_cap t = s_cap s \<and> s_cancelled t = s_cancelled s
     \<and> m_RecordsSent t = m_RecordsSent s"
  by (elim feed_stepE) auto

lemma feed_step_pushed: "feed_step mb (f, s) (f', t) \<Longrightarrow> set (g_pushed s) \<subseteq> set (g_pushed t)"
  by (elim feed_stepE) auto

lemma feeding_step:
  assumes "feeding_inv mb (fs @ f # gs) s M" and step: "feed_step mb (f, s) (f', t)"
  shows "feeding_inv mb (fs @ f' # gs) t M"
proof -
  let ?R = "sum_list (map offers (fs @ gs))" and ?H = "sum_list (map (\<lambda>f. mset (in_hand f)) (fs @ gs))"
  have i: "0 < mb" "0 < s_cap s" "sender_inv s" "worker_ok s" "batch_sizes mb (g_pushed s)" "feed_ok mb f"
    "list_all (feed_ok mb) (fs @ gs)" "s_producers s = offers f + ?R"
    "g_offered s = length (concat (g_pushed s)) + waiting_records (s_producers s)"
    "mset (concat (g_pushed s)) + mset (in_hand f) + ?H = M"
    using assms(1) by (auto simp: feeding_inv_def ac_simps)
  have "offers f \<subseteq># s_producers s" by (simp add: i(8))
  with feed_step_sender [OF step i(6)] i(3) have inv: "sender_inv t" by (auto intro: sender_step_inv)
  note same = feed_step_same [OF step]
  have "worker_ok t" using i(4) same feed_step_pushed [OF step] by (auto simp: worker_ok_def)
  moreover have "batch_sizes mb (g_pushed t) \<and> feed_ok mb f' \<and> s_producers t = offers f' + ?R
      \<and> g_offered t = length (concat (g_pushed t)) + waiting_records (s_producers t)
      \<and> mset (concat (g_pushed t)) + mset (in_hand f') + ?H = M"
    using step
  proof (elim feed_stepE, goal_cases)
    case (2 rs)
    let ?n = "nat (min (int (length rs)) mb)"
    have "mset (take ?n rs) + mset (drop ?n rs) = mset rs" by (metis append_take_drop_id mset_append)
    with 2 i show ?case by (auto simp: waiting_records_mset)
  qed (use i in \<open>auto simp: waiting_records_mset batch_sizes_def ac_simps\<close>)
  ultimately show ?thesis using i(1,2,7) inv same by (simp add: feeding_inv_def ac_simps)
qed

lemma feeding_more: "feeding_inv mb (fs @ gs) s M \<Longrightarrow> feeding_inv mb (fs @ Rest rs # gs) s (M + mset rs)"
  by (auto simp: feeding_inv_def ac_simps)

lemma feeding_less: "feeding_inv mb (fs @ Rest [] # gs) s M \<Longrightarrow> feeding_inv mb (fs @ gs) s M"
  by (auto simp: feeding_inv_def)

lemma feeding_deliver:
  assumes "feeding_inv mb fs s M" and "sender_step s t" and "s_producers t = s_producers s" and "g_pushed t = g_pushed s"
  shows "feeding_inv mb fs t M"
proof -
  have i: "0 < s_cap s" "sender_inv s" "worker_ok s" using assms(1) by (auto simp: feeding_inv_def)
  then have "suffix (s_queue s) (g_pushed s)" by (simp add: sender_inv_def)
  then have "set (s_queue s) \<subseteq> set (g_pushed s)" by (rule set_mono_suffix)
  with assms(2-4) i have "worker_ok t" by (auto simp: worker_ok_def elim!: sender_stepE)
  moreover have "g_offered t = g_offered s" using assms(2,3) by (auto elim!: sender_stepE)
  ultimately show ?thesis
    using assms sender_step_inv [OF assms(2) i(2)] sender_step_cap [OF assms(2)] by (simp add: feeding_inv_def)
qed

section \<open>Every step keeps the invariant\<close>

lemma begin_event_cases:
  obtains (counted) r where "begin_event uni fs raw now c = (AtRead, count_event r c)" "r \<noteq> resultAccepted"
      "\<And>ev. Decode raw = Inr ev \<Longrightarrow> node_local (Canonical ev)"
  | (accepted) ev r c' where "Decode raw = Inr ev" "\<not> node_local (Canonical ev)"
      "begin_event uni fs raw now c = (r, c')"
      "\<not> Outbound (Canonical ev) \<and> r = AtCount (Canonical ev) now \<and> c' = c
       \<or> Outbound (Canonical ev) \<and> (\<exists>uid. (uid, c') = podUID uni fs (PID (Canonical ev)) now c
           \<and> (r = AtCount ((Canonical ev)\<lparr>SrcPodUID := uid\<rparr>) now \<or> r = AtLookup ((Canonical ev)\<lparr>SrcPodUID := uid\<rparr>) now))"
proof (cases "Decode raw")
  case (Inl err)
  then show thesis by (intro counted [of resultDecodeError]) (simp_all add: begin_event_def result_defs)
next
  case (Inr ev)
  show thesis
  proof (cases "node_local (Canonical ev)")
    case True
    with Inr show thesis
      by (intro counted [of resultFiltered]) (auto simp: begin_event_def node_local_def result_defs Let_def)
  next
    case False
    obtain uid d where u: "podUID uni fs (PID (Canonical ev)) now c = (uid, d)" by (metis surj_pair)
    with Inr False show thesis
      by (cases "Outbound (Canonical ev)"; cases "col_dns d"; intro accepted [of ev])
        (auto simp: begin_event_def node_local_def Let_def)
  qed
qed

lemma begin_event_same:
  assumes "begin_event uni fs raw now c = (r, c')"
  shows "col_cfg c' = col_cfg c" "col_agg c' = col_agg c" "col_sender c' = col_sender c" "col_dns c' = col_dns c"
    "m_Events c' resultAccepted = m_Events c resultAccepted" "run_feeds r = []" "counted r = 0" "r \<noteq> AtDrain"
proof -
  have "col_cfg c' = col_cfg c \<and> col_agg c' = col_agg c \<and> col_sender c' = col_sender c \<and> col_dns c' = col_dns c
      \<and> m_Events c' resultAccepted = m_Events c resultAccepted \<and> run_feeds r = [] \<and> counted r = 0 \<and> r \<noteq> AtDrain"
  proof (cases rule: begin_event_cases [of uni fs raw now c])
    case (counted q)
    with assms show ?thesis by (auto simp: run_feeds_def counted_def)
  next
    case (accepted ev q d)
    with assms have e: "q = r" "d = c'" by simp_all
    show ?thesis
    proof (cases "Outbound (Canonical ev)")
      case True
      with accepted(4) e obtain uid where u: "podUID uni fs (PID (Canonical ev)) now c = (uid, c')"
        "r = AtCount ((Canonical ev)\<lparr>SrcPodUID := uid\<rparr>) now \<or> r = AtLookup ((Canonical ev)\<lparr>SrcPodUID := uid\<rparr>) now"
        by (elim disjE conjE exE) (auto dest: sym)
      then show ?thesis
        using podUID_simps [of uni fs "PID (Canonical ev)" now c] by (auto simp: run_feeds_def counted_def)
    qed (use accepted(4) e in \<open>auto simp: run_feeds_def counted_def\<close>)
  qed
  then show "col_cfg c' = col_cfg c" "col_agg c' = col_agg c" "col_sender c' = col_sender c" "col_dns c' = col_dns c"
    "m_Events c' resultAccepted = m_Events c resultAccepted" "run_feeds r = []" "counted r = 0" "r \<noteq> AtDrain" by simp_all
qed

lemma add_all_snoc: "add_all (es @ [e]) a = snd (Aggregator_Add (snd e) (fst e) (add_all es a))"
  by (simp add: add_all_def)

lemma add_event_simps:
  "nd_core (add_event ev now v) = (nd_core v)\<lparr>col_agg := snd (Aggregator_Add ev now (col_agg (nd_core v)))\<rparr>"
  "nd_run (add_event ev now v) =
     (if MaxBatch (col_cfg (nd_core v)) \<le> int (agg_len (snd (Aggregator_Add ev now (col_agg (nd_core v))))) then AtDrain else AtRead)"
  "nd_loop (add_event ev now v) = nd_loop v" "nd_dns (add_event ev now v) = nd_dns v"
  "g_current (add_event ev now v) = g_current v @ [(now, ev)]" "g_drained (add_event ev now v) = g_drained v"
  "g_reads (add_event ev now v) = g_reads v"
  by (simp_all add: add_event_def Aggregator_Add_len [symmetric] split: prod.split)

lemma drain_simps:
  assumes "drain ks v = (rs, u)"
  shows "rs = fst (Aggregator_Drain ks (col_agg (nd_core v)))"
    "u = v\<lparr>nd_core := (nd_core v)\<lparr>col_agg := NewAggregator\<rparr>, g_current := [], g_drained := g_drained v @ [(g_current v, rs)]\<rparr>"
proof -
  obtain r a where d: "Aggregator_Drain ks (col_agg (nd_core v)) = (r, a)" by (metis surj_pair)
  then have "a = NewAggregator" by (metis Aggregator_Drain_empties snd_conv)
  with assms d show "rs = fst (Aggregator_Drain ks (col_agg (nd_core v)))"
    "u = v\<lparr>nd_core := (nd_core v)\<lparr>col_agg := NewAggregator\<rparr>, g_current := [], g_drained := g_drained v @ [(g_current v, rs)]\<rparr>"
    by (auto simp: drain_def)
qed

lemma events_seen_drain:
  assumes "events_seen v" and "key_order (a_flows (col_agg (nd_core v))) ks" and "drain ks v = (rs, u)"
    and "0 < MaxBatch (col_cfg (nd_core v))" and "counted r = counted (nd_run v)"
  shows "events_seen (u\<lparr>nd_run := r, nd_loop := l\<rparr>)"
proof -
  have "flushed_by (g_current v) rs"
    using assms(1,2) drain_simps(1) [OF assms(3)] by (auto simp: flushed_by_def events_seen_def)
  with assms show ?thesis
    by (auto simp: drain_simps(2) [OF assms(3)] events_seen_def added_def add_all_def)
qed

lemma drained_feeds:
  assumes "feeding_inv mb (fs @ gs) (nd_sender v) (mset (drained_records v))" and "drain ks v = (rs, u)"
  shows "feeding_inv mb (fs @ Rest rs # gs) (nd_sender u) (mset (drained_records u))"
  using feeding_more [OF assms(1), of rs] by (simp add: drain_simps(2) [OF assms(2)] drained_records_def)

lemma drained_records_simps [simp]:
  "drained_records (v\<lparr>nd_core := c\<rparr>) = drained_records v" "drained_records (v\<lparr>nd_run := r\<rparr>) = drained_records v"
  "drained_records (v\<lparr>nd_loop := l\<rparr>) = drained_records v" "drained_records (v\<lparr>nd_dns := d\<rparr>) = drained_records v"
  "drained_records (v\<lparr>g_reads := gr\<rparr>) = drained_records v" "drained_records (with_sender s v) = drained_records v"
  by (simp_all add: drained_records_def with_sender_def)

lemma with_sender_simps [simp]:
  "nd_sender (with_sender s v) = s" "nd_run (with_sender s v) = nd_run v" "nd_loop (with_sender s v) = nd_loop v"
  "col_cfg (nd_core (with_sender s v)) = col_cfg (nd_core v)" "g_reads (with_sender s v) = g_reads v"
  "added (with_sender s v) = added v"
  by (simp_all add: with_sender_def added_def)

lemma events_seen_sender [simp]: "events_seen (with_sender s v) = events_seen v"
  by (simp add: events_seen_def with_sender_def added_def)

lemma events_seen_quiet:
  "\<lbrakk>events_seen v; counted r = counted (nd_run v); nd_run v \<noteq> AtDrain\<rbrakk> \<Longrightarrow> events_seen (v\<lparr>nd_run := r\<rparr>)"
  "events_seen (v\<lparr>nd_loop := l\<rparr>) = events_seen v"
  "events_seen (v\<lparr>nd_dns := d\<rparr>) = events_seen v"
  "events_seen (v\<lparr>g_reads := gr\<rparr>) = events_seen v"
  by (simp_all add: events_seen_def added_def)

lemma node_inv_start:
  assumes "collector_inv c" and "col_agg c = NewAggregator" and "m_Events c resultAccepted = 0"
    and "g_pushed (col_sender c) = []" and "s_worker (col_sender c) = Idle"
  shows "node_inv (start_node c)"
  using assms
  by (auto simp: node_inv_def start_node_def feeding_inv_def collector_inv_def feeds_def run_feeds_def loop_feeds_def
      worker_ok_def all_offered_def drained_records_def events_seen_def added_def counted_def add_all_def)

lemma node_step_inv: "\<lbrakk>node_step uni P v u; node_inv v\<rbrakk> \<Longrightarrow> node_inv u"
proof (erule node_stepE, goal_cases)
  case (2 fs raw now r c)
  note b = begin_event_same [OF 2(4)]
  from 2 b show ?case
    by (simp add: node_inv_def feeds_def run_feeds_def events_seen_def added_def counted_def drained_records_def)
next
  case (5 ev now)
  let ?c = "nd_core v"
  have i: "feeding_inv (MaxBatch (col_cfg ?c)) (feeds v) (nd_sender v) (mset (drained_records v))" "events_seen v"
    using 5 by (simp_all add: node_inv_def)
  have "agg_len (snd (Aggregator_Add ev now (col_agg ?c))) \<le> Suc (agg_len (col_agg ?c))" by (rule Aggregator_Add_len_le)
  then have "events_seen u"
    using i(2) 5(3) unfolding events_seen_def 5(2) add_event_simps added_def
    by (auto simp: add_all_snoc counted_def)
  moreover have "feeds u = feeds v" "drained_records u = drained_records v" "nd_sender u = nd_sender v" "col_cfg (nd_core u) = col_cfg ?c"
    using 5(3) by (simp_all add: 5(2) feeds_def run_feeds_def add_event_simps drained_records_def)
  ultimately show ?case using i(1) by (simp add: node_inv_def)
next
  case (6 ks rs w)
  then have "feeding_inv (MaxBatch (col_cfg (nd_core v))) ([] @ loop_feeds (nd_loop v)) (nd_sender v) (mset (drained_records v))"
    by (simp add: node_inv_def feeds_def run_feeds_def)
  note f = drained_feeds [OF this 6(5)]
  have "events_seen (w\<lparr>nd_run := AtFeed (Rest rs), nd_loop := nd_loop w\<rparr>)"
    using 6 by (intro events_seen_drain) (auto simp: node_inv_def feeding_inv_def counted_def)
  with f show ?case
    by (simp add: 6(2) node_inv_def feeds_def run_feeds_def drain_simps(2) [OF 6(5)])
next
  case (7 f f' s)
  then have "feeding_inv (MaxBatch (col_cfg (nd_core v))) ([] @ f # loop_feeds (nd_loop v)) (nd_sender v) (mset (drained_records v))"
    by (simp add: node_inv_def feeds_def run_feeds_def)
  from feeding_step [OF this 7(4)] 7 show ?case
    by (simp add: node_inv_def feeds_def run_feeds_def events_seen_quiet counted_def)
next
  case 8
  then have "feeding_inv (MaxBatch (col_cfg (nd_core v))) ([] @ Rest [] # loop_feeds (nd_loop v)) (nd_sender v) (mset (drained_records v))"
    by (simp add: node_inv_def feeds_def run_feeds_def)
  from feeding_less [OF this] 8 show ?case
    by (simp add: node_inv_def feeds_def run_feeds_def events_seen_quiet counted_def)
next
  case (9 ks rs w)
  then have "feeding_inv (MaxBatch (col_cfg (nd_core v))) (run_feeds (nd_run v) @ []) (nd_sender v) (mset (drained_records v))"
    by (simp add: node_inv_def feeds_def loop_feeds_def)
  note f = drained_feeds [OF this 9(5)]
  have "events_seen (w\<lparr>nd_run := nd_run w, nd_loop := Flushing (Rest rs)\<rparr>)"
    using 9 by (intro events_seen_drain) (auto simp: node_inv_def feeding_inv_def drain_simps(2) [OF 9(5)])
  with f show ?case
    by (simp add: 9(2) node_inv_def feeds_def loop_feeds_def drain_simps(2) [OF 9(5)])
next
  case (10 f f' s)
  then have "feeding_inv (MaxBatch (col_cfg (nd_core v))) (run_feeds (nd_run v) @ f # []) (nd_sender v) (mset (drained_records v))"
    by (simp add: node_inv_def feeds_def loop_feeds_def)
  from feeding_step [OF this 10(4)] 10 show ?case
    by (simp add: node_inv_def feeds_def loop_feeds_def events_seen_quiet)
next
  case 11
  then have "feeding_inv (MaxBatch (col_cfg (nd_core v))) (run_feeds (nd_run v) @ Rest [] # []) (nd_sender v) (mset (drained_records v))"
    by (simp add: node_inv_def feeds_def loop_feeds_def)
  from feeding_less [OF this] 11 show ?case
    by (simp add: node_inv_def feeds_def loop_feeds_def events_seen_quiet)
next
  case (12 d now n d')
  then have "cache_ok d'" using cache_ok_sweep [of d now] by (auto simp: node_inv_def events_seen_def Cache_Sweep_def Let_def)
  with 12 show ?case by (simp add: node_inv_def feeds_def loop_feeds_def events_seen_def added_def drained_records_def)
next
  case (17 a as now d stored d')
  then have "cache_ok d'" using cache_ok_Put [of d] by (metis events_seen_def node_inv_def snd_conv)
  with 17 show ?case by (simp add: node_inv_def feeds_def events_seen_def added_def drained_records_def)
next
  case (19 s)
  then show ?case using feeding_deliver [of _ "feeds v" "nd_sender v" _ s] by (simp add: node_inv_def feeds_def)
qed (auto simp: node_inv_def feeds_def run_feeds_def loop_feeds_def events_seen_def added_def counted_def drained_records_def result_defs)

lemma node_reaches: "\<lbrakk>(node_step uni P)\<^sup>*\<^sup>* v u; node_inv v\<rbrakk> \<Longrightarrow> node_inv u"
  by (induction rule: rtranclp_induct) (auto intro: node_step_inv)

section \<open>Every accepted record is added once, in order\<close>

definition bare :: "ConnectionEvent \<Rightarrow> ConnectionEvent" where
  \<comment> \<open>without what the collector found out about it\<close>
  "bare ev = ev\<lparr>SrcPodUID := [], DstHostname := []\<rparr>"

fun in_flight :: "run_at \<Rightarrow> ConnectionEvent list" where
  "in_flight (AtLookup ev now) = [ev]"
| "in_flight (AtCount ev now) = [ev]"
| "in_flight (AtAdd ev now) = [ev]"
| "in_flight _ = []"

definition accepted_event :: "byte list \<Rightarrow> ConnectionEvent list" where
  \<comment> \<open>turned to the caller's direction, when it is not dropped\<close>
  "accepted_event raw =
     (case Decode raw of Inl err \<Rightarrow> [] | Inr ev \<Rightarrow> if node_local (Canonical ev) then [] else [Canonical ev])"

definition taken :: "node \<Rightarrow> ConnectionEvent list" where
  "taken v = map snd (added v) @ in_flight (nd_run v)"

definition order_inv :: "node \<Rightarrow> bool" where
  "order_inv v \<longleftrightarrow> map bare (taken v) = concat (map accepted_event (g_reads v))
     \<and> (\<forall>ev \<in> set (taken v). Outbound ev \<or> ev = bare ev)
     \<and> (\<forall>ev now. nd_run v = AtLookup ev now \<longrightarrow> Outbound ev)"

lemma bare_simps [simp]:
  "SrcIP (bare ev) = SrcIP ev" "DstIP (bare ev) = DstIP ev" "SrcPort (bare ev) = SrcPort ev"
  "DstPort (bare ev) = DstPort ev" "Protocol (bare ev) = Protocol ev" "Outbound (bare ev) = Outbound ev"
  "SrcPodUID (bare ev) = []" "DstHostname (bare ev) = []" "bare (bare ev) = bare ev"
  "bare (ev\<lparr>SrcPodUID := u\<rparr>) = bare ev" "bare (host_of ev now d) = bare ev" "Outbound (host_of ev now d) = Outbound ev"
  by (simp_all add: bare_def host_of_def)

lemma Decode_bare: "Decode raw = Inr ev \<Longrightarrow> bare ev = ev" "Decode raw = Inr ev \<Longrightarrow> bare (Canonical ev) = Canonical ev"
  by (auto simp: Decode_def bare_def Let_def Canonical_def split: if_splits sum.splits)

lemma begin_event_taken:
  assumes "begin_event uni fs raw now c = (r, c')"
  shows "map bare (in_flight r) = accepted_event raw \<and> (\<forall>ev \<in> set (in_flight r). Outbound ev \<or> ev = bare ev)
    \<and> (\<forall>ev now. r = AtLookup ev now \<longrightarrow> Outbound ev)"
proof (cases rule: begin_event_cases [of uni fs raw now c])
  case (counted q)
  with assms show ?thesis by (auto simp: accepted_event_def split: sum.split)
next
  case (accepted ev q d)
  with assms show ?thesis by (auto simp: accepted_event_def Decode_bare)
qed

lemma added_simps:
  "added (add_event ev now v) = added v @ [(now, ev)]"
  "drain ks v = (rs, u) \<Longrightarrow> added u = added v"
  by (simp add: added_def add_event_simps) (frule drain_simps(2), simp add: added_def)

lemma node_step_order: "\<lbrakk>node_step uni P v u; order_inv v\<rbrakk> \<Longrightarrow> order_inv u"
proof (erule node_stepE, goal_cases)
  case (2 fs raw now r c)
  with begin_event_taken [OF 2(4)] show ?case by (simp add: order_inv_def taken_def added_def ball_Un)
next
  case (3 ev now d)
  then show ?case by (auto simp: order_inv_def taken_def added_def)
next
  case (5 ev now)
  then show ?case by (auto simp: order_inv_def taken_def added_simps add_event_simps)
next
  case (6 ks rs w)
  then show ?case by (simp add: order_inv_def taken_def drain_simps(2) [OF 6(5)] added_def)
next
  case (9 ks rs w)
  then show ?case by (simp add: order_inv_def taken_def drain_simps(2) [OF 9(5)] added_def)
qed (auto simp: order_inv_def taken_def added_def with_sender_def)

lemma order_reaches: "(node_step uni P)\<^sup>*\<^sup>* (start_node c) v \<Longrightarrow> order_inv v"
proof (induction rule: rtranclp_induct)
  case base
  show ?case by (simp add: order_inv_def taken_def added_def start_node_def)
qed (blast intro: node_step_order)

lemma setup_collector_fresh:
  "setup_collector fl grpc_ok ok = (Inr c, open) \<Longrightarrow>
     col_agg c = NewAggregator \<and> m_Events c resultAccepted = 0 \<and> g_pushed (col_sender c) = [] \<and> s_worker (col_sender c) = Idle
     \<and> m_RecordsSent (col_sender c) = 0"
  unfolding setup_collector_def Let_def
  by (auto simp: Collector_New_def NewSender_def split: if_splits prod.splits sum.splits)

lemma node_inv_setup: "setup_collector fl grpc_ok ok = (Inr c, open) \<Longrightarrow> node_inv (start_node c)"
  using setup_collector_inv setup_collector_fresh by (blast intro: node_inv_start)

section \<open>The atomic model is a run\<close>

text \<open>Where no other goroutine of the collector is in the way, an iteration of \<open>Run\<close> as
  \<open>Collector\<close> has it is a run of steps.\<close>

lemma feed_Enqueue:
  assumes cap: "0 < s_cap s" and len: "length (s_queue s) \<le> s_cap s" and mb: "0 < mb" and rs: "rs \<noteq> []"
  shows "\<exists>t. Enqueue (take (nat (min (int (length rs)) mb)) rs) s = Some t
    \<and> (feed_step mb)\<^sup>*\<^sup>* (Rest rs, s) (Rest (drop (nat (min (int (length rs)) mb)) rs), t)"
proof -
  let ?n = "nat (min (int (length rs)) mb)"
  let ?b = "take ?n rs" and ?d = "drop ?n rs"
  let ?u = "s\<lparr>s_producers := add_mset (Pushing ?b) (s_producers s), g_offered := g_offered s + length ?b\<rparr>"
  have b: "?b \<noteq> []" using rs mb by (simp add: min_le_iff_disj)
  note e = Enqueue_result [OF cap len b]
  have call: "feed_step mb (Rest rs, s) (Offer (Pushing ?b) ?d, ?u)" by (rule feed_call [OF rs mb refl])
  show ?thesis
  proof (cases "length (s_queue s) < s_cap s")
    case True
    have "feed_step mb (Offer (Pushing ?b) ?d, ?u) (Rest ?d, (chan_push ?b ?u)\<lparr>s_producers := s_producers ?u - {#Pushing ?b#}\<rparr>)"
      by (rule feed_push) (simp add: True)
    moreover have "(chan_push ?b ?u)\<lparr>s_producers := s_producers ?u - {#Pushing ?b#}\<rparr> = the (Enqueue ?b s)"
      using True by (simp add: e chan_push_def Let_def)
    ultimately show ?thesis
      using call e by (intro exI [of _ "the (Enqueue ?b s)"]) (auto simp: Let_def intro: converse_rtranclp_into_rtranclp)
  next
    case False
    let ?v = "?u\<lparr>s_producers := add_mset (Evicting ?b) (s_producers ?u - {#Pushing ?b#})\<rparr>"
    let ?w = "(chan_evict ?v)\<lparr>s_producers := add_mset (Pushing ?b) (s_producers ?v - {#Evicting ?b#})\<rparr>"
    let ?x = "(chan_push ?b ?w)\<lparr>s_producers := s_producers ?w - {#Pushing ?b#}\<rparr>"
    from False cap have q: "s_queue s \<noteq> []" "s_cap s \<le> length (s_queue s)" by auto
    have full: "feed_step mb (Offer (Pushing ?b) ?d, ?u) (Offer (Evicting ?b) ?d, ?v)" by (rule feed_full) (simp add: q)
    have evict: "feed_step mb (Offer (Evicting ?b) ?d, ?v) (Offer (Pushing ?b) ?d, ?w)" by (rule feed_evict) (simp add: q)
    have push: "feed_step mb (Offer (Pushing ?b) ?d, ?w) (Rest ?d, ?x)" using len cap by (intro feed_push) simp
    have "?x = the (Enqueue ?b s)" using False by (simp add: e chan_push_def chan_evict_def Let_def)
    moreover note converse_rtranclp_into_rtranclp [OF call converse_rtranclp_into_rtranclp [OF full
        converse_rtranclp_into_rtranclp [where r = "feed_step mb", OF evict r_into_rtranclp [where r = "feed_step mb", OF push]]]]
    ultimately show ?thesis using e by (intro exI [of _ "the (Enqueue ?b s)"]) (simp add: Let_def)
  qed
qed

lemma feed_flush_loop:
  assumes "0 < mb" and "0 < s_cap s" and "sender_inv s" and "flush_loop mb rs s = Some t"
  shows "(feed_step mb)\<^sup>*\<^sup>* (Rest rs, s) (Rest [], t)"
  using assms(2-)
proof (induction rs arbitrary: s rule: length_induct)
  case (1 rs)
  show ?case
  proof (cases "rs = []")
    case True
    with 1 show ?thesis by (simp add: flush_loop.simps)
  next
    case False
    let ?n = "nat (min (int (length rs)) mb)"
    have len: "length (s_queue s) \<le> s_cap s" using 1(3) by (simp add: sender_inv_def)
    obtain u where u: "Enqueue (take ?n rs) s = Some u" "(feed_step mb)\<^sup>*\<^sup>* (Rest rs, s) (Rest (drop ?n rs), u)"
      using feed_Enqueue [OF 1(2) len assms(1) False] by blast
    have n: "\<not> min (int (length rs)) mb < 0" "length (drop ?n rs) < length rs"
      using assms(1) False by (auto simp: min_less_iff_disj min_def)
    obtain u' where "Enqueue (take ?n rs) s = Some u'" "enqueued (if take ?n rs = [] then [] else [take ?n rs]) s u'"
      using Enqueue_inv [OF 1(2,3)] by blast
    with u(1) have i: "sender_inv u" "s_cap u = s_cap s" by (auto dest: enqueuedD(1,2))
    have "flush_loop mb (drop ?n rs) u = Some t"
      using 1(4) False n(1) u(1) by (subst (asm) flush_loop.simps) (simp add: Let_def)
    with 1(1) n(2) i 1(2) have "(feed_step mb)\<^sup>*\<^sup>* (Rest (drop ?n rs), u) (Rest [], t)" by simp
    with u(2) show ?thesis by (rule rtranclp_trans)
  qed
qed

lemma node_run_feeds:
  assumes "(feed_step (MaxBatch (col_cfg (nd_core v))))\<^sup>*\<^sup>* (f, nd_sender v) (f', t)" and "nd_run v = AtFeed f"
  shows "(node_step uni P)\<^sup>*\<^sup>* v ((with_sender t v)\<lparr>nd_run := AtFeed f'\<rparr>)"
  using assms(1)
proof (induction "(f', t)" arbitrary: f' t rule: rtranclp_induct)
  case base
  have "(with_sender (nd_sender v) v)\<lparr>nd_run := AtFeed f\<rparr> = v" using assms(2) by (simp add: with_sender_def)
  then show ?case by simp
next
  case (step x)
  obtain g u where x: "x = (g, u)" by (cases x)
  let ?w = "(with_sender u v)\<lparr>nd_run := AtFeed g\<rparr>"
  have "node_step uni P ?w ((with_sender t ?w)\<lparr>nd_run := AtFeed f'\<rparr>)"
    by (rule run_feed) (use step.hyps(2) x in \<open>simp_all add: with_sender_def\<close>)
  moreover have "(with_sender t ?w)\<lparr>nd_run := AtFeed f'\<rparr> = (with_sender t v)\<lparr>nd_run := AtFeed f'\<rparr>"
    by (simp add: with_sender_def)
  ultimately show ?case using step.hyps(3) [OF x] by simp
qed

lemma node_run_named:
  assumes run: "nd_run v = AtRead" and raw: "Decode raw = Inr ev" "\<not> node_local (Canonical ev)"
    and at: "attribute_source uni fs (Canonical ev) now (nd_core v) = (ev', c')"
  shows "(node_step uni P)\<^sup>*\<^sup>* v (v\<lparr>nd_core := c', nd_run := AtCount ev' now, g_reads := g_reads v @ [raw]\<rparr>)"
proof -
  let ?c = "nd_core v" and ?e = "Canonical ev"
  obtain uid d where u: "podUID uni fs (PID ?e) now ?c = (uid, d)" by (metis surj_pair)
  have dns: "col_dns d = col_dns ?c" using u by (metis podUID_simps(4) snd_conv)
  have first: "node_step uni P v (v\<lparr>nd_core := c1, nd_run := r, g_reads := g_reads v @ [raw]\<rparr>)"
    if "begin_event uni fs raw now ?c = (r, c1)" for r c1
    by (rule read_event [OF run that])
  have starts: "begin_event uni fs raw now ?c =
      (if \<not> Outbound ?e then (AtCount ?e now, ?c)
       else (if col_dns d = None then AtCount (?e\<lparr>SrcPodUID := uid\<rparr>) now else AtLookup (?e\<lparr>SrcPodUID := uid\<rparr>) now, d))"
    using raw u by (auto simp: begin_event_def node_local_def Let_def)
  show ?thesis
  proof (cases "Outbound ?e \<and> col_dns d \<noteq> None")
    case True
    then obtain x where x: "col_dns d = Some x" by auto
    let ?w = "v\<lparr>nd_core := d, nd_run := AtLookup (?e\<lparr>SrcPodUID := uid\<rparr>) now, g_reads := g_reads v @ [raw]\<rparr>"
    let ?e' = "host_of (?e\<lparr>SrcPodUID := uid\<rparr>) now x"
    have one: "node_step uni P v ?w" by (rule first) (use True starts in simp)
    have "node_step uni P ?w (?w\<lparr>nd_run := AtCount ?e' now\<rparr>)" by (rule lookup_name) (simp_all add: x)
    also have "?w\<lparr>nd_run := AtCount ?e' now\<rparr> = v\<lparr>nd_core := d, nd_run := AtCount ?e' now, g_reads := g_reads v @ [raw]\<rparr>"
      by simp
    finally have "(node_step uni P)\<^sup>*\<^sup>* v (v\<lparr>nd_core := d, nd_run := AtCount ?e' now, g_reads := g_reads v @ [raw]\<rparr>)"
      using one by (meson converse_rtranclp_into_rtranclp r_into_rtranclp)
    moreover have "c' = d \<and> ev' = host_of (?e\<lparr>SrcPodUID := uid\<rparr>) now x"
      using at True u x by (auto simp: attribute_source_def host_of_def Let_def)
    ultimately show ?thesis by simp
  next
    case False
    then have "begin_event uni fs raw now ?c = (AtCount ev' now, c')"
      using at u by (auto simp: starts attribute_source_def Let_def)
    from first [OF this] show ?thesis by blast
  qed
qed

lemma node_run_alone:
  assumes inv: "collector_inv (nd_core v)" and run: "nd_run v = AtRead"
    and order: "raw_order uni fs rd now (nd_core v) ks" and result: "Run_event uni fs ks rd now (nd_core v) = Some c'"
  shows "\<exists>u. (node_step uni P)\<^sup>*\<^sup>* v u \<and> nd_core u = c' \<and> nd_run u = AtRead \<and> nd_loop u = nd_loop v \<and> nd_dns u = nd_dns v"
proof (cases rd)
  case None
  with result read_error [OF run, of uni P] run show ?thesis
    by (intro exI [of _ "v\<lparr>nd_core := c'\<rparr>"]) (auto simp: Run_event_def)
next
  case (Some raw)
  let ?c = "nd_core v"
  note o = observe_raw_inv(1,2) [OF inv, of uni fs raw now]
  have counted: ?thesis if "begin_event uni fs raw now ?c = (AtRead, c')"
    using read_event [OF run that, of P] by (intro exI [of _ "v\<lparr>nd_core := c', nd_run := AtRead, g_reads := g_reads v @ [raw]\<rparr>"]) auto
  show ?thesis
  proof (cases rule: observe_raw_cases [of raw uni fs now ?c])
    case (bad err)
    with result Some show ?thesis by (intro counted) (simp add: Run_event_def handle_def begin_event_def)
  next
    case (filtered ev)
    with result Some show ?thesis
      by (intro counted) (auto simp: Run_event_def handle_def begin_event_def node_local_def Let_def)
  next
    case (accepted ev ev' d)
    let ?agg = "snd (Aggregator_Add ev' now (col_agg ?c))"
    let ?e = "(count_event resultAccepted d)\<lparr>col_agg := ?agg\<rparr>"
    let ?full = "MaxBatch (col_cfg ?c) \<le> int (agg_len ?agg)"
    have same: "col_agg d = col_agg ?c" "col_cfg d = col_cfg ?c" "col_sender d = col_sender ?c"
      using attribute_source_simps(1-3) [of uni fs "Canonical ev" now ?c] accepted(3) by simp_all
    let ?n = "v\<lparr>nd_core := d, nd_run := AtCount ev' now, g_reads := g_reads v @ [raw]\<rparr>"
    let ?k = "?n\<lparr>nd_core := count_event resultAccepted d, nd_run := AtAdd ev' now\<rparr>"
    define a where "a = add_event ev' now ?k"
    have "(node_step uni P)\<^sup>*\<^sup>* v ?n" by (rule node_run_named [OF run accepted(1-3)])
    moreover have "node_step uni P ?n ?k" using count_accepted [of ?n ev' now uni P] by simp
    moreover have "node_step uni P ?k a" unfolding a_def by (rule add) simp
    ultimately have run_a: "(node_step uni P)\<^sup>*\<^sup>* v a" by (meson rtranclp.rtrancl_into_rtrancl)
    have core: "nd_core a = ?e" "nd_run a = (if ?full then AtDrain else AtRead)" "nd_loop a = nd_loop v" "nd_dns a = nd_dns v"
      by (simp_all add: a_def add_event_simps same)
    have h: "(if ?full then flush ks ?e else Some ?e) = Some c'"
      using result Some accepted(4) by (simp add: Run_event_def handle_def)
    show ?thesis
    proof (cases ?full)
      case False
      with h run_a core show ?thesis by auto
    next
      case True
      with h have f: "flush ks ?e = Some c'" by simp
      moreover obtain r0 where "Aggregator_Drain ks ?agg = (r0, NewAggregator)"
        by (metis Aggregator_Drain_empties surjective_pairing)
      ultimately obtain t where t: "flush_loop (MaxBatch (col_cfg ?c)) (fst (Aggregator_Drain ks ?agg)) (col_sender ?c) = Some t"
        "c' = ?e\<lparr>col_agg := NewAggregator, col_sender := t\<rparr>"
        by (auto simp: flush_def same split: option.splits)
      obtain rs w where d: "drain ks a = (rs, w)" by (metis surj_pair)
      note w = drain_simps [OF d, unfolded core]
      have "key_order (a_flows ?agg) ks" using order Some accepted(4) by (simp add: raw_order_def)
      then have ko: "key_order (a_flows (col_agg (nd_core a))) ks" unfolding core by simp
      have "nd_run a = AtDrain" using True unfolding core by simp
      from run_drain [OF this ko d] have "node_step uni P a (w\<lparr>nd_run := AtFeed (Rest rs)\<rparr>)" .
      moreover let ?b = "w\<lparr>nd_run := AtFeed (Rest rs)\<rparr>"
      have "(feed_step (MaxBatch (col_cfg ?c)))\<^sup>*\<^sup>* (Rest rs, col_sender ?c) (Rest [], t)"
        using inv t(1) w(1) by (intro feed_flush_loop) (simp_all add: collector_inv_def)
      then have "(node_step uni P)\<^sup>*\<^sup>* ?b ((with_sender t ?b)\<lparr>nd_run := AtFeed (Rest [])\<rparr>)"
        by (intro node_run_feeds) (simp_all add: w(2) core same)
      moreover let ?z = "(with_sender t ?b)\<lparr>nd_run := AtFeed (Rest [])\<rparr>"
      have "node_step uni P ?z (?z\<lparr>nd_run := AtRead\<rparr>)" by (rule run_fed) simp
      ultimately have "(node_step uni P)\<^sup>*\<^sup>* v (?z\<lparr>nd_run := AtRead\<rparr>)"
        using run_a by (meson rtranclp.rtrancl_into_rtrancl rtranclp_trans)
      moreover have "nd_core ?z = c'" by (simp add: with_sender_def w(2) core t(2))
      ultimately show ?thesis by (intro exI [of _ "?z\<lparr>nd_run := AtRead\<rparr>"]) (simp add: w(2) core with_sender_def)
    qed
  qed
qed

section \<open>Properties\<close>



end
