(* ===== verification/Report_Concurrent.thy ===== *)
theory Report_Concurrent
  imports Commands "HOL-Library.Multiset"
begin

text \<open>
  \<open>Report\<close> of \<open>internal/processor/server.go\<close>, \<open>Handle\<close> of \<open>pipeline.go\<close> and \<open>Enrich\<close> of
  \<open>internal/enrich/enrich.go\<close> as concurrent code: gRPC runs every call in its own goroutine.
  A call moves one shared access at a time (a read of the workload cache under its lock,
  a reading of the clock, \<open>Allow\<close> under the deduper's lock, the increment of a counter, the
  write to one sink), and between two accesses of one call any other call, the sweep loop
  and the informers may run. The atomic \<open>Pipeline_Handle\<close> of \<open>Processor\<close> is what these
  steps refine. Fields named \<open>g_\<close> are ghosts: they record the history and no step reads
  them.
\<close>

section \<open>The reads of an event\<close>

definition source_by_ip :: "WCache \<Rightarrow> ConnectionEvent \<Rightarrow> Workload" where
  "source_by_ip c ev = WorkloadForIP (LookupIP c) (SrcIP ev)"

definition wants_uid :: "ConnectionEvent \<Rightarrow> Workload \<Rightarrow> bool" where
  "wants_uid ev source \<longleftrightarrow> SrcPodUID ev \<noteq> [] \<and> (w_Kind source = KindNode \<or> IsExternal source)"

definition source_by_uid :: "WCache \<Rightarrow> ConnectionEvent \<Rightarrow> Workload \<Rightarrow> Workload" where
  "source_by_uid c ev source = (case LookupUID c (SrcPodUID ev) of Some w \<Rightarrow> w | None \<Rightarrow> source)"

definition port_name :: "WCache \<Rightarrow> ConnectionEvent \<Rightarrow> string" where
  "port_name c ev = (case LookupPort c (DstIP ev) (DstPort ev) of Some l7 \<Rightarrow> l7 | None \<Rightarrow> [])"

definition dest_of :: "WCache \<Rightarrow> ConnectionEvent \<Rightarrow> Workload" where
  "dest_of c ev =
     (let dest = WorkloadForIP (LookupIP c) (DstIP ev)
      in if IsExternal dest \<and> DstHostname ev \<noteq> [] then dest\<lparr>w_Name := DstHostname ev\<rparr> else dest)"

definition service_call :: "ConnectionEvent \<Rightarrow> Workload \<Rightarrow> string \<Rightarrow> Workload \<Rightarrow> ServiceCall" where
  "service_call ev source l7 dest =
     \<lparr>sc_Source = source, sc_Dest = dest, sc_DestPort = DstPort ev,
      sc_DestProtocol = Protocol ev, sc_DestAppProtocol = l7\<rparr>"

section \<open>A call and its steps\<close>

datatype work =
    Fetch  \<comment> \<open>the head of the loop over the records\<close>
  | LookSource ConnectionEvent
  | LookUID ConnectionEvent Workload
  | LookPort ConnectionEvent Workload
  | LookDest ConnectionEvent Workload string
  | Judge ConnectionEvent ServiceCall  \<comment> \<open>the two filters; nothing shared is read\<close>
  | ReadClock ConnectionEvent ServiceCall
  | Ask ConnectionEvent ServiceCall gotime
  | Count string "ServiceCall option"  \<comment> \<open>then emit the edge, if any\<close>
  | Send ServiceCall "Sink list"  \<comment> \<open>the sinks still to write to\<close>
  | Returned

type_synonym report_call = "work \<times> FlowRecord list"

fun sink_parts :: "Sink \<Rightarrow> Sink list" where
  "sink_parts (MultiSink xs) = concat (map sink_parts xs)"
| "sink_parts k = [k]"

fun call_step :: "emit_env \<Rightarrow> gotime \<Rightarrow> report_call \<Rightarrow> Pipeline \<Rightarrow> report_call \<times> Pipeline" where
  \<comment> \<open>the next access of a call; \<open>now\<close> is what the clock shows\<close>
  "call_step env now (Fetch, []) p = ((Returned, []), p)"
| "call_step env now (Fetch, r # rs) p =
     (case toEvent r of
        None \<Rightarrow> ((Count resultInvalid None, rs), p)
      | Some ev \<Rightarrow> ((LookSource ev, rs), p))"
| "call_step env now (LookSource ev, rs) p =
     (let source = source_by_ip (pl_cache p) ev
      in ((if wants_uid ev source then LookUID ev source else LookPort ev source, rs), p))"
| "call_step env now (LookUID ev source, rs) p = ((LookPort ev (source_by_uid (pl_cache p) ev source), rs), p)"
| "call_step env now (LookPort ev source, rs) p = ((LookDest ev source (port_name (pl_cache p) ev), rs), p)"
| "call_step env now (LookDest ev source l7, rs) p =
     ((Judge ev (service_call ev source l7 (dest_of (pl_cache p) ev)), rs), p)"
| "call_step env now (Judge ev sc, rs) p =
     ((if IsReversedDuplicate ev (sc_Source sc) then Count resultReversedDuplicate None
       else if ShouldIgnoreCall (pl_matcher p) sc then Count resultIgnored None
       else ReadClock ev sc, rs), p)"
| "call_step env now (ReadClock ev sc, rs) p = ((Ask ev sc now, rs), p)"
| "call_step env now (Ask ev sc t, rs) p =
     (case Allow sc t (pl_deduper p) of (allowed, d) \<Rightarrow>
        ((if allowed then Count resultEmitted (Some sc) else Count resultDuplicate None, rs), p\<lparr>pl_deduper := d\<rparr>))"
| "call_step env now (Count r None, rs) p = ((Fetch, rs), count_record r p)"
| "call_step env now (Count r (Some sc), rs) p = ((Send sc (sink_parts (pl_sink p)), rs), count_record r p)"
| "call_step env now (Send sc [], rs) p = ((Fetch, rs), p)"
| "call_step env now (Send sc (x # xs), rs) p = ((Send sc xs, rs), p\<lparr>pl_out := Sink_Emit env sc x (pl_out p)\<rparr>)"
| "call_step env now (Returned, rs) p = ((Returned, rs), p)"

section \<open>The server under load\<close>

datatype decision =
    Invalid nat  \<comment> \<open>a malformed record of this call\<close>
  | Decided nat ConnectionEvent ServiceCall gotime  \<comment> \<open>call, event, its edge, the time given to the deduper\<close>
  | Swept gotime

record server =
  sv_pipeline :: Pipeline
  sv_calls :: "report_call list"
  g_batches :: "FlowRecord list list"  \<comment> \<open>what each call was given\<close>
  g_log :: "decision list"  \<comment> \<open>in the order of the deciding accesses\<close>
  g_sent :: "(ServiceCall \<times> Sink) list"
  g_caches :: "WCache list"  \<comment> \<open>the states the cache went through\<close>

definition serving :: "Pipeline \<Rightarrow> server" where
  "serving p = \<lparr>sv_pipeline = p, sv_calls = [], g_batches = [], g_log = [], g_sent = [], g_caches = [pl_cache p]\<rparr>"

fun deciding :: "Matcher option \<Rightarrow> nat \<Rightarrow> report_call \<Rightarrow> decision list" where
  \<comment> \<open>the access that settles a record\<close>
  "deciding m i (Fetch, r # rs) = (if toEvent r = None then [Invalid i] else [])"
| "deciding m i (Judge ev sc, rs) =
     (if IsReversedDuplicate ev (sc_Source sc) \<or> ShouldIgnoreCall m sc then [Decided i ev sc 0] else [])"
| "deciding m i (Ask ev sc t, rs) = [Decided i ev sc t]"
| "deciding m i c = []"

fun sending :: "report_call \<Rightarrow> (ServiceCall \<times> Sink) list" where
  "sending (Send sc (x # xs), rs) = [(sc, x)]"
| "sending c = []"

definition accept_call :: "FlowRecord list \<Rightarrow> server \<Rightarrow> server" where
  "accept_call rs s =
     s\<lparr>sv_pipeline := (sv_pipeline s)\<lparr>m_Batches := m_Batches (sv_pipeline s) + 1\<rparr>,
       sv_calls := sv_calls s @ [(Fetch, rs)], g_batches := g_batches s @ [rs]\<rparr>"

definition advance :: "emit_env \<Rightarrow> gotime \<Rightarrow> nat \<Rightarrow> server \<Rightarrow> server" where
  "advance env now i s =
     (case call_step env now (sv_calls s ! i) (sv_pipeline s) of (c, p) \<Rightarrow>
        s\<lparr>sv_pipeline := p, sv_calls := (sv_calls s)[i := c],
          g_log := g_log s @ deciding (pl_matcher (sv_pipeline s)) i (sv_calls s ! i),
          g_sent := g_sent s @ sending (sv_calls s ! i)\<rparr>)"

definition sweep_tick :: "gotime \<Rightarrow> server \<Rightarrow> server" where
  "sweep_tick now s =
     s\<lparr>sv_pipeline := (sv_pipeline s)\<lparr>pl_deduper := sweepLoop [now] (pl_deduper (sv_pipeline s))\<rparr>,
       g_log := g_log s @ [Swept now]\<rparr>"

definition cache_becomes :: "WCache \<Rightarrow> server \<Rightarrow> server" where
  "cache_becomes c s =
     s\<lparr>sv_pipeline := (sv_pipeline s)\<lparr>pl_cache := c\<rparr>, g_caches := g_caches s @ [c]\<rparr>"

inductive server_step :: "emit_env \<Rightarrow> server \<Rightarrow> server \<Rightarrow> bool" for env where
  arrive: "server_step env s (accept_call rs s)"
| move: "\<lbrakk>i < length (sv_calls s); fst (sv_calls s ! i) \<noteq> Returned\<rbrakk> \<Longrightarrow> server_step env s (advance env now i s)"
| tick: "server_step env s (sweep_tick now s)"
| inform: "server_step env s (cache_becomes c s)"

inductive_cases server_stepE: "server_step env s t"

section \<open>The serial account\<close>

text \<open>The log replayed, one decision after the other, each with the edge it was taken on.\<close>

definition judged :: "emit_env \<Rightarrow> ConnectionEvent \<Rightarrow> ServiceCall \<Rightarrow> gotime \<Rightarrow> Pipeline \<Rightarrow> Pipeline" where
  "judged env ev sc now p =
     (if IsReversedDuplicate ev (sc_Source sc) then count_record resultReversedDuplicate p
      else if ShouldIgnoreCall (pl_matcher p) sc then count_record resultIgnored p
      else case Allow sc now (pl_deduper p) of (allowed, d) \<Rightarrow>
        let p = p\<lparr>pl_deduper := d\<rparr> in
        if \<not> allowed then count_record resultDuplicate p
        else let p = count_record resultEmitted p
             in p\<lparr>pl_out := Sink_Emit env sc (pl_sink p) (pl_out p)\<rparr>)"

fun settle :: "emit_env \<Rightarrow> decision \<Rightarrow> Pipeline \<Rightarrow> Pipeline" where
  "settle env (Invalid i) p = count_record resultInvalid p"
| "settle env (Decided i ev sc now) p = judged env ev sc now p"
| "settle env (Swept now) p = p\<lparr>pl_deduper := sweepLoop [now] (pl_deduper p)\<rparr>"

fun events_of :: "nat \<Rightarrow> decision list \<Rightarrow> ConnectionEvent option list" where
  \<comment> \<open>the events of call \<open>i\<close>, \<open>None\<close> for a malformed record\<close>
  "events_of i [] = []"
| "events_of i (Invalid j # ds) = (if j = i then [None] else []) @ events_of i ds"
| "events_of i (Decided j ev sc now # ds) = (if j = i then [Some ev] else []) @ events_of i ds"
| "events_of i (Swept now # ds) = events_of i ds"

definition chosen_source :: "WCache \<Rightarrow> WCache \<Rightarrow> ConnectionEvent \<Rightarrow> Workload" where
  \<comment> \<open>by address from the first cache, by UID, where needed, from the second\<close>
  "chosen_source c c' ev =
     (let source = source_by_ip c ev in if wants_uid ev source then source_by_uid c' ev source else source)"

definition passes_filters :: "Matcher option \<Rightarrow> ConnectionEvent \<Rightarrow> ServiceCall \<Rightarrow> bool" where
  "passes_filters m ev sc \<longleftrightarrow> \<not> IsReversedDuplicate ev (sc_Source sc) \<and> \<not> ShouldIgnoreCall m sc"

definition seen_in :: "WCache list \<Rightarrow> ConnectionEvent \<Rightarrow> ServiceCall \<Rightarrow> bool" where
  \<comment> \<open>the edge joins four reads, each of the cache at a moment, in this order\<close>
  "seen_in cs ev sc \<longleftrightarrow>
     (\<exists>i j k l. i \<le> j \<and> j \<le> k \<and> k \<le> l \<and> l < length cs \<and>
        sc = service_call ev
          (chosen_source (cs ! i) (cs ! j) ev) (port_name (cs ! k) ev) (dest_of (cs ! l) ev))"

lemma Enrich_reads:
  "enriched p ev = service_call ev (chosen_source (pl_cache p) (pl_cache p) ev)
     (port_name (pl_cache p) ev) (dest_of (pl_cache p) ev)"
  by (simp add: enriched_def Enrich_def service_call_def source_by_ip_def source_by_uid_def wants_uid_def
      chosen_source_def port_name_def dest_of_def Let_def)

lemma Handle_judged: "Pipeline_Handle env ev now p = judged env ev (enriched p ev) now p"
  by (simp add: Pipeline_Handle_def judged_def enriched_def Let_def)

lemma judged_one_cache:
  assumes "seen_in cs ev sc" and "set cs \<subseteq> {pl_cache p}"
  shows "sc = enriched p ev"
proof -
  from assms(1) obtain i j k l where le: "i \<le> j" "j \<le> k" "k \<le> l" "l < length cs"
    and sc: "sc = service_call ev
          (chosen_source (cs ! i) (cs ! j) ev) (port_name (cs ! k) ev) (dest_of (cs ! l) ev)"
    unfolding seen_in_def by blast
  have "n < length cs \<Longrightarrow> cs ! n = pl_cache p" for n using assms(2) nth_mem by fastforce
  with le have "cs ! i = pl_cache p" "cs ! j = pl_cache p" "cs ! k = pl_cache p" "cs ! l = pl_cache p" by simp_all
  then show ?thesis by (simp only: sc Enrich_reads)
qed

section \<open>One access against one decision\<close>

text \<open>What a call has still to decide, to count and to send.\<close>

fun undecided :: "report_call \<Rightarrow> ConnectionEvent option list" where
  "undecided (LookSource ev, rs) = Some ev # map toEvent rs"
| "undecided (LookUID ev w, rs) = Some ev # map toEvent rs"
| "undecided (LookPort ev w, rs) = Some ev # map toEvent rs"
| "undecided (LookDest ev w l7, rs) = Some ev # map toEvent rs"
| "undecided (Judge ev sc, rs) = Some ev # map toEvent rs"
| "undecided (ReadClock ev sc, rs) = Some ev # map toEvent rs"
| "undecided (Ask ev sc t, rs) = Some ev # map toEvent rs"
| "undecided (Returned, rs) = []"
| "undecided (w, rs) = map toEvent rs"

fun uncounted :: "string \<Rightarrow> report_call \<Rightarrow> nat" where
  "uncounted r (Count r' e, rs) = (if r' = r then 1 else 0)"
| "uncounted r c = 0"

fun unsent :: "Sink \<Rightarrow> report_call \<Rightarrow> (ServiceCall \<times> Sink) list" where
  "unsent k (Count r (Some sc), rs) = map (Pair sc) (sink_parts k)"
| "unsent k (Send sc xs, rs) = map (Pair sc) xs"
| "unsent k c = []"

fun decided_edge :: "decision \<Rightarrow> Pipeline \<Rightarrow> (gotime \<times> ServiceCall) list" where
  "decided_edge (Decided i ev sc now) p =
     (if passes_filters (pl_matcher p) ev sc \<and> fst (Allow sc now (pl_deduper p)) then [(now, sc)] else [])"
| "decided_edge d p = []"

fun decided_edges :: "emit_env \<Rightarrow> decision list \<Rightarrow> Pipeline \<Rightarrow> (gotime \<times> ServiceCall) list" where
  \<comment> \<open>the edges a replay lets through, with the times given to the deduper\<close>
  "decided_edges env [] p = []"
| "decided_edges env (d # ds) p = decided_edge d p @ decided_edges env ds (settle env d p)"

definition sends :: "Sink \<Rightarrow> (gotime \<times> ServiceCall) list \<Rightarrow> (ServiceCall \<times> Sink) list" where
  "sends k es = concat (map (\<lambda>e. map (Pair (snd e)) (sink_parts k)) es)"

definition put :: "emit_env \<Rightarrow> ServiceCall \<times> Sink \<Rightarrow> emitted \<Rightarrow> emitted" where
  "put env e = Sink_Emit env (fst e) (snd e)"

lemma sends_simps [simp]:
  "sends k [] = []" "sends k (es @ es') = sends k es @ sends k es'" "sends k [e] = map (Pair (snd e)) (sink_parts k)"
  by (simp_all add: sends_def)

lemma put_eq: "put env (sc, x) o' = Sink_Emit env sc x o'"
  by (simp add: put_def)

lemma put_parts: "fold (put env) (map (Pair sc) (sink_parts k)) o' = Sink_Emit env sc k o'"
proof (induction env sc k o' rule: Sink_Emit.induct)
  case (4 env sc x xs s)
  then show ?case by simp
qed (simp_all add: put_def)

lemma decided_edges_append:
  "decided_edges env (ds @ ds') p = decided_edges env ds p @ decided_edges env ds' (fold (settle env) ds p)"
  by (induction ds arbitrary: p) simp_all

lemma events_of_append: "events_of i (ds @ ds') = events_of i ds @ events_of i ds'"
  by (induction i ds rule: events_of.induct) simp_all

lemma judged_simps [simp]:
  "pl_matcher (judged env ev sc now p) = pl_matcher p" "pl_sink (judged env ev sc now p) = pl_sink p"
  "m_Batches (judged env ev sc now p) = m_Batches p"
  by (simp_all add: judged_def Let_def split: prod.split)

lemma settle_simps [simp]:
  "pl_matcher (settle env d p) = pl_matcher p" "pl_sink (settle env d p) = pl_sink p"
  by (cases d; simp)+

lemma settles_simps [simp]:
  "pl_matcher (fold (settle env) ds p) = pl_matcher p" "pl_sink (fold (settle env) ds p) = pl_sink p"
  by (induction ds arbitrary: p) simp_all

lemma settle_out: "pl_out (settle env d p) = fold (put env) (sends (pl_sink p) (decided_edge d p)) (pl_out p)"
  by (cases d) (auto simp: judged_def passes_filters_def put_parts Let_def split: prod.split)

lemma settles_out:
  "pl_out (fold (settle env) ds p) = fold (put env) (sends (pl_sink p) (decided_edges env ds p)) (pl_out p)"
  by (induction ds arbitrary: p) (simp_all add: settle_out)

lemma call_step_config:
  "pl_cache (snd (call_step env now c p)) = pl_cache p" "pl_matcher (snd (call_step env now c p)) = pl_matcher p"
  "pl_sink (snd (call_step env now c p)) = pl_sink p" "m_Batches (snd (call_step env now c p)) = m_Batches p"
  "pl_out (snd (call_step env now c p)) = fold (put env) (sending c) (pl_out p)"
  by (cases "(env, now, c, p)" rule: call_step.cases; simp add: put_def Let_def split: option.split prod.split)+

fun call_ok :: "Matcher option \<Rightarrow> WCache list \<Rightarrow> report_call \<Rightarrow> bool" where
  \<comment> \<open>what a call carries was read from the cache as it was, and has passed the filters\<close>
  "call_ok m cs (LookUID ev w, rs) \<longleftrightarrow> (\<exists>i < length cs. w = source_by_ip (cs ! i) ev \<and> wants_uid ev w)"
| "call_ok m cs (LookPort ev w, rs) \<longleftrightarrow> (\<exists>i j. i \<le> j \<and> j < length cs \<and> w = chosen_source (cs ! i) (cs ! j) ev)"
| "call_ok m cs (LookDest ev w l7, rs) \<longleftrightarrow>
     (\<exists>i j k. i \<le> j \<and> j \<le> k \<and> k < length cs \<and> w = chosen_source (cs ! i) (cs ! j) ev \<and> l7 = port_name (cs ! k) ev)"
| "call_ok m cs (Judge ev sc, rs) \<longleftrightarrow> seen_in cs ev sc"
| "call_ok m cs (ReadClock ev sc, rs) \<longleftrightarrow> seen_in cs ev sc \<and> passes_filters m ev sc"
| "call_ok m cs (Ask ev sc t, rs) \<longleftrightarrow> seen_in cs ev sc \<and> passes_filters m ev sc"
| "call_ok m cs c \<longleftrightarrow> True"

lemma call_step_deduper:
  assumes "call_ok (pl_matcher p) cs c" and "pl_deduper q = pl_deduper p" "pl_matcher q = pl_matcher p"
  shows "pl_deduper (fold (settle env) (deciding (pl_matcher p) i c) q) = pl_deduper (snd (call_step env now c p))"
  using assms
  by (cases "(env, now, c, p)" rule: call_step.cases)
    (simp_all add: judged_def Let_def passes_filters_def split: option.split prod.split)

lemma call_step_counts:
  assumes "call_ok (pl_matcher p) cs c" and "pl_deduper q = pl_deduper p" "pl_matcher q = pl_matcher p"
  shows "m_Records (fold (settle env) (deciding (pl_matcher p) i c) q) r + m_Records p r + uncounted r c
       = m_Records q r + m_Records (snd (call_step env now c p)) r + uncounted r (fst (call_step env now c p))"
  using assms
  by (cases "(env, now, c, p)" rule: call_step.cases)
    (simp_all add: judged_def Let_def passes_filters_def split: option.split prod.split)

lemma call_step_sends:
  assumes "call_ok (pl_matcher p) cs c" and "pl_deduper q = pl_deduper p" "pl_matcher q = pl_matcher p"
  shows "mset (sending c) + mset (unsent (pl_sink p) (fst (call_step env now c p)))
       = mset (unsent (pl_sink p) c) + mset (sends (pl_sink p) (decided_edges env (deciding (pl_matcher p) i c) q))"
  using assms
  by (cases "(env, now, c, p)" rule: call_step.cases)
    (simp_all add: Let_def passes_filters_def split: option.split prod.split)

lemma call_step_events:
  "events_of i (deciding (pl_matcher p) i c) @ undecided (fst (call_step env now c p)) = undecided c"
  by (cases "(env, now, c, p)" rule: call_step.cases) (simp_all add: Let_def split: option.split prod.split)

lemma deciding_other: "j \<noteq> i \<Longrightarrow> events_of j (deciding m i c) = []"
  by (cases "(m, i, c)" rule: deciding.cases) simp_all

section \<open>Invariants\<close>

lemma chosen_wanted:
  "wants_uid ev (source_by_ip c ev) \<Longrightarrow> chosen_source c c' ev = source_by_uid c' ev (source_by_ip c ev)"
  "\<not> wants_uid ev (source_by_ip c ev) \<Longrightarrow> chosen_source c c' ev = source_by_ip c ev"
  by (simp_all add: chosen_source_def)

lemma call_ok_step:
  assumes ok: "call_ok (pl_matcher p) cs c" and cs: "cs \<noteq> []" "cs ! (length cs - 1) = pl_cache p"
  shows "call_ok (pl_matcher p) cs (fst (call_step env now c p))"
proof -
  let ?n = "length cs - 1"
  have n: "?n < length cs" and le: "i < length cs \<Longrightarrow> i \<le> ?n" for i using cs(1) by (simp, linarith)
  obtain w rs where c: "c = (w, rs)" by (cases c)
  show ?thesis
  proof (cases w)
    case (LookSource ev)
    have "\<exists>i j. i \<le> j \<and> j < length cs \<and> source_by_ip (pl_cache p) ev = chosen_source (cs ! i) (cs ! j) ev"
      if "\<not> wants_uid ev (source_by_ip (pl_cache p) ev)"
      using cs(2) n that by (intro exI [of _ ?n]) (simp add: chosen_wanted(2))
    with cs(2) n LookSource show ?thesis by (auto simp: c Let_def intro!: exI [of _ ?n])
  next
    case (LookUID ev source)
    with ok c obtain i where i: "i < length cs" "source = source_by_ip (cs ! i) ev" "wants_uid ev source" by auto
    then have "source_by_uid (pl_cache p) ev source = chosen_source (cs ! i) (cs ! ?n) ev"
      using cs(2) by (simp add: chosen_wanted(1))
    with le [OF i(1)] n show ?thesis by (auto simp: c LookUID)
  next
    case (LookPort ev source)
    with ok c obtain i j where i: "i \<le> j" "j < length cs" "source = chosen_source (cs ! i) (cs ! j) ev" by auto
    moreover have "port_name (pl_cache p) ev = port_name (cs ! ?n) ev" using cs(2) by simp
    ultimately show ?thesis using le [OF i(2)] n unfolding c LookPort call_step.simps fst_conv call_ok.simps by blast
  next
    case (LookDest ev source l7)
    with ok c obtain i j k where i: "i \<le> j" "j \<le> k" "k < length cs" "source = chosen_source (cs ! i) (cs ! j) ev"
      "l7 = port_name (cs ! k) ev" by auto
    with le [OF i(3)] n cs(2) show ?thesis
      unfolding seen_in_def c LookDest call_step.simps fst_conv call_ok.simps
      by (intro exI [of _ i] exI [of _ j] exI [of _ k] exI [of _ ?n]) simp
  next
    case Fetch
    then show ?thesis by (cases rs) (auto simp: c split: option.split)
  next
    case (Count r e)
    then show ?thesis by (cases e) (auto simp: c)
  next
    case (Send sc xs)
    then show ?thesis by (cases xs) (auto simp: c)
  qed (use ok in \<open>auto simp: c passes_filters_def split: prod.split\<close>)
qed

lemma seen_in_more: "seen_in cs ev sc \<Longrightarrow> seen_in (cs @ [d]) ev sc"
  unfolding seen_in_def
proof (elim exE conjE, goal_cases)
  case (1 i j k l)
  then show ?case by (intro exI [of _ i] exI [of _ j] exI [of _ k] exI [of _ l]) (simp add: nth_append)
qed

lemma call_ok_more: "call_ok m cs c \<Longrightarrow> call_ok m (cs @ [d]) c"
proof -
  assume ok: "call_ok m cs c"
  obtain w rs where c: "c = (w, rs)" by (cases c)
  have nth: "i < length cs \<Longrightarrow> (cs @ [d]) ! i = cs ! i" "i < length cs \<Longrightarrow> i < length (cs @ [d])" for i
    by (simp_all add: nth_append)
  show ?thesis
  proof (cases w)
    case (LookUID ev u)
    with ok c nth show ?thesis by (metis call_ok.simps(1))
  next
    case (LookPort ev u)
    with ok c obtain i j where "i \<le> j" "j < length cs" "u = chosen_source (cs ! i) (cs ! j) ev" by auto
    with nth [of i] nth [of j] show ?thesis
      unfolding c LookPort call_ok.simps by (intro exI [of _ i] exI [of _ j]) simp
  next
    case (LookDest ev u l7)
    with ok c obtain i j k where "i \<le> j" "j \<le> k" "k < length cs" "u = chosen_source (cs ! i) (cs ! j) ev"
      "l7 = port_name (cs ! k) ev" by auto
    with nth [of i] nth [of j] nth [of k] show ?thesis
      unfolding c LookDest call_ok.simps by (intro exI [of _ i] exI [of _ j] exI [of _ k]) simp
  qed (use ok c in \<open>auto intro: seen_in_more\<close>)
qed

definition reads_inv :: "Pipeline \<Rightarrow> server \<Rightarrow> bool" where
  "reads_inv p0 s \<longleftrightarrow>
     g_caches s \<noteq> [] \<and> last (g_caches s) = pl_cache (sv_pipeline s)
     \<and> pl_matcher (sv_pipeline s) = pl_matcher p0 \<and> pl_sink (sv_pipeline s) = pl_sink p0
     \<and> (\<forall>c \<in> set (sv_calls s). call_ok (pl_matcher p0) (g_caches s) c)
     \<and> (\<forall>i ev sc t. Decided i ev sc t \<in> set (g_log s) \<longrightarrow> seen_in (g_caches s) ev sc)"

definition events_inv :: "server \<Rightarrow> bool" where
  "events_inv s \<longleftrightarrow> length (g_batches s) = length (sv_calls s)
     \<and> (\<forall>i < length (sv_calls s). events_of i (g_log s) @ undecided (sv_calls s ! i) = map toEvent (g_batches s ! i))
     \<and> (\<forall>i \<ge> length (sv_calls s). events_of i (g_log s) = [])"

definition account_inv :: "emit_env \<Rightarrow> Pipeline \<Rightarrow> server \<Rightarrow> bool" where
  "account_inv env p0 s \<longleftrightarrow>
     (let q = fold (settle env) (g_log s) p0; p = sv_pipeline s in
        pl_deduper p = pl_deduper q \<and> m_Batches p = m_Batches p0 + length (sv_calls s)
        \<and> (\<forall>r. m_Records q r = m_Records p r + sum_list (map (uncounted r) (sv_calls s)))
        \<and> mset (g_sent s) + sum_list (map (\<lambda>c. mset (unsent (pl_sink p0) c)) (sv_calls s))
          = mset (sends (pl_sink p0) (decided_edges env (g_log s) p0))
        \<and> pl_out p = fold (put env) (g_sent s) (pl_out p0))"

lemma deciding_seen:
  "call_ok m cs c \<Longrightarrow> Decided i ev sc t \<in> set (deciding m j c) \<Longrightarrow> seen_in cs ev sc"
  by (cases "(m, j, c)" rule: deciding.cases) (auto split: if_splits)

lemma advance_simps:
  "sv_pipeline (advance env now i s) = snd (call_step env now (sv_calls s ! i) (sv_pipeline s))"
  "sv_calls (advance env now i s) = (sv_calls s)[i := fst (call_step env now (sv_calls s ! i) (sv_pipeline s))]"
  "g_batches (advance env now i s) = g_batches s" "g_caches (advance env now i s) = g_caches s"
  "g_log (advance env now i s) = g_log s @ deciding (pl_matcher (sv_pipeline s)) i (sv_calls s ! i)"
  "g_sent (advance env now i s) = g_sent s @ sending (sv_calls s ! i)"
  by (simp_all add: advance_def split: prod.split)

lemma reads_inv_advance:
  assumes inv: "reads_inv p0 s" and i: "i < length (sv_calls s)"
  shows "reads_inv p0 (advance env now i s)"
proof -
  let ?p = "sv_pipeline s" and ?c = "sv_calls s ! i"
  have m: "pl_matcher ?p = pl_matcher p0" using inv by (simp add: reads_inv_def)
  have ok: "call_ok (pl_matcher p0) (g_caches s) ?c" using inv i by (simp add: reads_inv_def)
  have "call_ok (pl_matcher ?p) (g_caches s) (fst (call_step env now ?c ?p))"
    by (rule call_ok_step) (use inv ok in \<open>auto simp: reads_inv_def last_conv_nth\<close>)
  with inv have "\<forall>c \<in> set (sv_calls (advance env now i s)). call_ok (pl_matcher p0) (g_caches s) c"
    unfolding advance_simps reads_inv_def m using set_update_subset_insert by fastforce
  moreover have "\<forall>j ev sc t. Decided j ev sc t \<in> set (g_log (advance env now i s)) \<longrightarrow> seen_in (g_caches s) ev sc"
    using inv deciding_seen [OF ok] unfolding advance_simps reads_inv_def m by auto
  ultimately show ?thesis using inv unfolding reads_inv_def advance_simps call_step_config by blast
qed

lemma reads_inv_step: "\<lbrakk>server_step env s t; reads_inv p0 s\<rbrakk> \<Longrightarrow> reads_inv p0 t"
proof (erule server_stepE)
  fix c
  assume "reads_inv p0 s" and "t = cache_becomes c s"
  then show "reads_inv p0 t"
    by (auto simp: reads_inv_def cache_becomes_def intro: call_ok_more) (blast intro: seen_in_more)
next
  fix i now
  assume "reads_inv p0 s" and "i < length (sv_calls s)" and "t = advance env now i s"
  then show "reads_inv p0 t" by (simp add: reads_inv_advance)
qed (auto simp: reads_inv_def accept_call_def sweep_tick_def)

lemma events_inv_step: "\<lbrakk>server_step env s t; events_inv s\<rbrakk> \<Longrightarrow> events_inv t"
proof (erule server_stepE)
  fix i now
  assume inv: "events_inv s" and i: "i < length (sv_calls s)" and t: "t = advance env now i s"
  let ?p = "sv_pipeline s" and ?c = "sv_calls s ! i"
  note same = call_step_events [of i ?p ?c env now] and other = deciding_other [of _ i "pl_matcher ?p" ?c]
  have "events_of j (g_log t) @ undecided (sv_calls t ! j) = map toEvent (g_batches t ! j)" if "j < length (sv_calls s)" for j
    using inv that i same other by (cases "j = i") (simp_all add: t advance_simps events_inv_def events_of_append)
  moreover have "events_of j (g_log t) = []" if "length (sv_calls s) \<le> j" for j
    using inv that i other [of j] by (simp add: t advance_simps events_inv_def events_of_append)
  ultimately show "events_inv t" using inv by (simp add: events_inv_def t advance_simps)
qed (auto simp: events_inv_def accept_call_def sweep_tick_def cache_becomes_def events_of_append nth_append less_Suc_eq)

lemma account_inv_advance:
  assumes reads: "reads_inv p0 s" and inv: "account_inv env p0 s" and i: "i < length (sv_calls s)"
  shows "account_inv env p0 (advance env now i s)"
proof -
  let ?p = "sv_pipeline s" and ?c = "sv_calls s ! i" and ?q = "fold (settle env) (g_log s) p0"
  let ?d = "deciding (pl_matcher ?p) i ?c" and ?c' = "fst (call_step env now ?c ?p)" and ?p' = "snd (call_step env now ?c ?p)"
  let ?q' = "fold (settle env) ?d ?q"
  have conf: "pl_matcher ?p = pl_matcher p0" "pl_sink ?p = pl_sink p0" using reads by (simp_all add: reads_inv_def)
  have ok: "call_ok (pl_matcher ?p) (g_caches s) ?c" using reads i by (simp add: reads_inv_def)
  have q: "pl_deduper ?q = pl_deduper ?p" "pl_matcher ?q = pl_matcher ?p"
    using inv conf by (simp_all add: account_inv_def Let_def)
  have old: "m_Records ?q r = m_Records ?p r + sum_list (map (uncounted r) (sv_calls s))"
    "mset (g_sent s) + sum_list (map (\<lambda>c. mset (unsent (pl_sink p0) c)) (sv_calls s))
      = mset (sends (pl_sink p0) (decided_edges env (g_log s) p0))"
    "pl_out ?p = fold (put env) (g_sent s) (pl_out p0)" "m_Batches ?p = m_Batches p0 + length (sv_calls s)" for r
    using inv by (simp_all add: account_inv_def Let_def)
  have counts: "m_Records ?q' r = m_Records ?p' r + sum_list (map (uncounted r) ((sv_calls s)[i := ?c']))" for r
    using call_step_counts [OF ok q, of env i r now] old(1) [of r] sum_list_update_one [OF i, of "uncounted r" ?c']
    by linarith
  have sent: "mset (g_sent s @ sending ?c) + sum_list (map (\<lambda>c. mset (unsent (pl_sink p0) c)) ((sv_calls s)[i := ?c']))
      = mset (sends (pl_sink p0) (decided_edges env (g_log s @ ?d) p0))" (is "?l = ?r")
  proof -
    have "?l + mset (unsent (pl_sink p0) ?c)
        = mset (g_sent s) + mset (sending ?c) + (sum_list (map (\<lambda>c. mset (unsent (pl_sink p0) c)) (sv_calls s)) + mset (unsent (pl_sink p0) ?c'))"
      using sum_list_update_one [OF i, of "\<lambda>c. mset (unsent (pl_sink p0) c)" ?c'] by (simp add: add.assoc)
    also have "\<dots> = mset (sends (pl_sink p0) (decided_edges env (g_log s) p0)) + (mset (sending ?c) + mset (unsent (pl_sink p0) ?c'))"
      unfolding old(2) [symmetric] by (simp add: ac_simps)
    also have "\<dots> = ?r + mset (unsent (pl_sink p0) ?c)"
      using call_step_sends [OF ok q, of env now i] conf(2) by (simp add: decided_edges_append ac_simps)
    finally show ?thesis by simp
  qed
  have "pl_deduper ?q' = pl_deduper ?p'" by (rule call_step_deduper [OF ok q])
  moreover have "pl_out ?p' = fold (put env) (g_sent s @ sending ?c) (pl_out p0)" by (simp add: call_step_config old(3))
  ultimately show ?thesis
    using counts sent old(4) by (simp add: account_inv_def Let_def advance_simps call_step_config)
qed

lemma account_inv_step: "\<lbrakk>server_step env s t; reads_inv p0 s; account_inv env p0 s\<rbrakk> \<Longrightarrow> account_inv env p0 t"
proof (erule server_stepE)
  fix now
  assume "account_inv env p0 s" and "t = sweep_tick now s"
  then show "account_inv env p0 t"
    by (simp add: account_inv_def sweep_tick_def Let_def decided_edges_append)
next
  fix i now
  assume "reads_inv p0 s" "account_inv env p0 s" and "i < length (sv_calls s)" and "t = advance env now i s"
  then show "account_inv env p0 t" by (simp add: account_inv_advance)
qed (auto simp: account_inv_def accept_call_def cache_becomes_def Let_def)

lemma server_reaches:
  "(server_step env)\<^sup>*\<^sup>* (serving p) s \<Longrightarrow> reads_inv p s \<and> events_inv s \<and> account_inv env p s"
proof (induction rule: rtranclp_induct)
  case base
  show ?case by (simp add: reads_inv_def events_inv_def account_inv_def serving_def)
next
  case (step s t)
  then show ?case using reads_inv_step events_inv_step account_inv_step by blast
qed

lemma all_returned:
  assumes "\<forall>c \<in> set cs. fst c = Returned"
  shows "sum_list (map (uncounted r) cs) = 0" "sum_list (map (\<lambda>c. mset (unsent k c)) cs) = {#}"
proof -
  have "uncounted r c = 0" "mset (unsent k c) = {#}" if "c \<in> set cs" for c
    using assms that by (cases c; force)+
  then show "sum_list (map (uncounted r) cs) = 0" "sum_list (map (\<lambda>c. mset (unsent k c)) cs) = {#}"
    by (induction cs) auto
qed

section \<open>Calls alone\<close>

text \<open>Without interference a call is the atomic \<open>Report\<close> of \<open>Processor\<close>.\<close>

definition solo :: "emit_env \<Rightarrow> gotime \<Rightarrow> nat \<Rightarrow> report_call \<times> Pipeline \<times> decision list \<Rightarrow>
    report_call \<times> Pipeline \<times> decision list \<Rightarrow> bool" where
  "solo env now i x y \<longleftrightarrow> (case x of (c, p, l) \<Rightarrow>
     fst c \<noteq> Returned \<and> y = (fst (call_step env now c p), snd (call_step env now c p), l @ deciding (pl_matcher p) i c))"

lemma solo_next:
  "\<lbrakk>fst c \<noteq> Returned; call_step env now c p = (c', p'); l' = l @ deciding (pl_matcher p) i c;
    (solo env now i)\<^sup>*\<^sup>* (c', p', l') y\<rbrakk> \<Longrightarrow> (solo env now i)\<^sup>*\<^sup>* (c, p, l) y"
  by (rule converse_rtranclp_into_rtranclp) (auto simp: solo_def)

lemma solo_Send: "(solo env now i)\<^sup>*\<^sup>* ((Send sc xs, rs), p, l)
    ((Fetch, rs), p\<lparr>pl_out := fold (put env) (map (Pair sc) xs) (pl_out p)\<rparr>, l)"
proof (induction xs arbitrary: p)
  case Nil
  show ?case by (rule solo_next) auto
next
  case (Cons x xs)
  let ?p = "p\<lparr>pl_out := Sink_Emit env sc x (pl_out p)\<rparr>"
  have "(solo env now i)\<^sup>*\<^sup>* ((Send sc xs, rs), ?p, l)
      ((Fetch, rs), p\<lparr>pl_out := fold (put env) (map (Pair sc) (x # xs)) (pl_out p)\<rparr>, l)"
    using Cons.IH [of ?p] by (simp add: put_eq)
  then show ?case by (rule solo_next [rotated 3]) simp_all
qed

lemma solo_Judge:
  "(solo env now i)\<^sup>*\<^sup>* ((Judge ev sc, rs), p, l)
     ((Fetch, rs), judged env ev sc now p,
      l @ [Decided i ev sc (if passes_filters (pl_matcher p) ev sc then now else 0)])"
proof -
  have dropped: "(solo env now i)\<^sup>*\<^sup>* ((Count r None, rs), q, l') ((Fetch, rs), count_record r q, l')" for r q l'
    by (rule solo_next) auto
  consider (reversed) "IsReversedDuplicate ev (sc_Source sc)"
    | (ignored) "\<not> IsReversedDuplicate ev (sc_Source sc)" "ShouldIgnoreCall (pl_matcher p) sc"
    | (asked) "passes_filters (pl_matcher p) ev sc"
    by (auto simp: passes_filters_def)
  then show ?thesis
  proof cases
    case asked
    obtain b d where a: "Allow sc now (pl_deduper p) = (b, d)" by (metis surj_pair)
    let ?l = "l @ [Decided i ev sc now]" and ?q = "p\<lparr>pl_deduper := d\<rparr>"
    have count: "(solo env now i)\<^sup>*\<^sup>*
        ((if b then Count resultEmitted (Some sc) else Count resultDuplicate None, rs), ?q, ?l)
        ((Fetch, rs), judged env ev sc now p, ?l)"
    proof (cases b)
      case True
      let ?p = "count_record resultEmitted ?q"
      have "?p\<lparr>pl_out := fold (put env) (map (Pair sc) (sink_parts (pl_sink p))) (pl_out ?p)\<rparr> = judged env ev sc now p"
        using asked a True by (simp add: judged_def passes_filters_def put_parts Let_def)
      with solo_Send [of env now i sc "sink_parts (pl_sink p)" rs ?p ?l] True
      show ?thesis by (auto intro: solo_next)
    next
      case False
      with asked a dropped [of resultDuplicate ?q ?l] show ?thesis by (simp add: judged_def passes_filters_def)
    qed
    have "(solo env now i)\<^sup>*\<^sup>* ((Ask ev sc now, rs), p, l) ((Fetch, rs), judged env ev sc now p, ?l)"
      by (rule solo_next [OF _ _ _ count]) (simp_all add: a)
    then have "(solo env now i)\<^sup>*\<^sup>* ((ReadClock ev sc, rs), p, l) ((Fetch, rs), judged env ev sc now p, ?l)"
      by (rule solo_next [rotated 3]) simp_all
    with asked show ?thesis
      by (auto simp: passes_filters_def intro: solo_next)
  next
    case reversed
    with dropped [of resultReversedDuplicate p "l @ [Decided i ev sc 0]"] show ?thesis
      by (auto simp: judged_def passes_filters_def intro: solo_next)
  next
    case ignored
    with dropped [of resultIgnored p "l @ [Decided i ev sc 0]"] show ?thesis
      by (auto simp: judged_def passes_filters_def intro: solo_next)
  qed
qed

lemma solo_event:
  "(solo env now i)\<^sup>*\<^sup>* ((LookSource ev, rs), p, l)
     ((Fetch, rs), Pipeline_Handle env ev now p,
      l @ [Decided i ev (enriched p ev) (if passes_filters (pl_matcher p) ev (enriched p ev) then now else 0)])"
    (is "(solo env now i)\<^sup>*\<^sup>* _ ?end")
proof -
  let ?c = "pl_cache p"
  let ?w = "chosen_source ?c ?c ev"
  have "(solo env now i)\<^sup>*\<^sup>* ((Judge ev (service_call ev ?w (port_name ?c ev) (dest_of ?c ev)), rs), p, l) ?end"
    using solo_Judge [of env now i ev "enriched p ev" rs p l] by (simp add: Handle_judged Enrich_reads)
  then have "(solo env now i)\<^sup>*\<^sup>* ((LookDest ev ?w (port_name ?c ev), rs), p, l) ?end"
    by (rule solo_next [rotated 3]) simp_all
  then have port: "(solo env now i)\<^sup>*\<^sup>* ((LookPort ev ?w, rs), p, l) ?end"
    by (rule solo_next [rotated 3]) simp_all
  show ?thesis
  proof (cases "wants_uid ev (source_by_ip ?c ev)")
    case True
    from port have "(solo env now i)\<^sup>*\<^sup>* ((LookUID ev (source_by_ip ?c ev), rs), p, l) ?end"
      by (rule solo_next [rotated 3]) (simp_all add: True chosen_wanted)
    then show ?thesis by (rule solo_next [rotated 3]) (simp_all add: True)
  next
    case False
    from port show ?thesis by (rule solo_next [rotated 3]) (simp_all add: False chosen_wanted Let_def)
  qed
qed

lemma server_solo:
  assumes "(solo env now i)\<^sup>*\<^sup>* (c, p, l) (c', p', l')"
    and "i < length (sv_calls s)" "sv_calls s ! i = c" "sv_pipeline s = p" "g_log s = l"
  shows "\<exists>t. (server_step env)\<^sup>*\<^sup>* s t \<and> sv_calls t = (sv_calls s)[i := c'] \<and> sv_pipeline t = p' \<and> g_log t = l'
     \<and> g_batches t = g_batches s \<and> g_caches t = g_caches s"
  using assms(1)
proof (induction "(c', p', l')" arbitrary: c' p' l' rule: rtranclp_induct)
  case base
  with assms(2-5) show ?case by (intro exI [of _ s]) auto
next
  case (step y)
  obtain c1 p1 l1 where y: "y = (c1, p1, l1)" by (metis prod_cases3)
  from step.hyps(3) [OF y] obtain t where t: "(server_step env)\<^sup>*\<^sup>* s t" "sv_calls t = (sv_calls s)[i := c1]" "sv_pipeline t = p1"
    "g_log t = l1" "g_batches t = g_batches s" "g_caches t = g_caches s" by blast
  then have i: "i < length (sv_calls t)" "sv_calls t ! i = c1" using assms(2) by simp_all
  with step.hyps(2) y have "server_step env t (advance env now i t)" by (intro move) (auto simp: solo_def)
  with t(1) have "(server_step env)\<^sup>*\<^sup>* s (advance env now i t)" by simp
  with step.hyps(2) y t i show ?case
    by (intro exI [of _ "advance env now i t"]) (auto simp: solo_def advance_simps)
qed

lemma solo_record:
  "\<exists>d. (solo env now i)\<^sup>*\<^sup>* ((Fetch, r # rs), p, l) ((Fetch, rs), report_loop env [(now, r)] p, l @ [d])
    \<and> (\<forall>ev. toEvent r = Some ev \<and> passes p ev \<longrightarrow> d = Decided i ev (enriched p ev) now)"
proof (cases "toEvent r")
  case None
  have "(solo env now i)\<^sup>*\<^sup>* ((Count resultInvalid None, rs), p, l @ [Invalid i])
      ((Fetch, rs), count_record resultInvalid p, l @ [Invalid i])"
    by (rule solo_next) auto
  then have "(solo env now i)\<^sup>*\<^sup>* ((Fetch, r # rs), p, l) ((Fetch, rs), count_record resultInvalid p, l @ [Invalid i])"
    by (rule solo_next [rotated 3]) (simp_all add: None)
  with None show ?thesis by auto
next
  case (Some ev)
  let ?d = "Decided i ev (enriched p ev) (if passes_filters (pl_matcher p) ev (enriched p ev) then now else 0)"
  have "(solo env now i)\<^sup>*\<^sup>* ((Fetch, r # rs), p, l) ((Fetch, rs), Pipeline_Handle env ev now p, l @ [?d])"
    using solo_event [of env now i ev rs p l] by (rule solo_next [rotated 3]) (simp_all add: Some)
  moreover have "passes p ev \<longleftrightarrow> passes_filters (pl_matcher p) ev (enriched p ev)"
    by (simp add: passes_def passes_filters_def IsReversedDuplicate_def)
  ultimately show ?thesis using Some by (intro exI [of _ ?d]) auto
qed

lemma server_record:
  assumes "i < length (sv_calls s)" "sv_calls s ! i = (Fetch, r # rs)"
  shows "\<exists>d t. (server_step env)\<^sup>*\<^sup>* s t \<and> sv_calls t = (sv_calls s)[i := (Fetch, rs)]
     \<and> sv_pipeline t = report_loop env [(now, r)] (sv_pipeline s) \<and> g_log t = g_log s @ [d]
     \<and> g_batches t = g_batches s \<and> g_caches t = g_caches s
     \<and> (\<forall>ev. toEvent r = Some ev \<and> passes (sv_pipeline s) ev \<longrightarrow> d = Decided i ev (enriched (sv_pipeline s) ev) now)"
  using solo_record [of env now i r rs "sv_pipeline s" "g_log s"] server_solo [OF _ assms refl refl] by blast

lemma server_finish:
  assumes "i < length (sv_calls s)" "sv_calls s ! i = (Fetch, [])"
  shows "\<exists>t. (server_step env)\<^sup>*\<^sup>* s t \<and> sv_calls t = (sv_calls s)[i := (Returned, [])] \<and> sv_pipeline t = sv_pipeline s
     \<and> g_log t = g_log s \<and> g_batches t = g_batches s \<and> g_caches t = g_caches s"
proof -
  have "(solo env now i)\<^sup>*\<^sup>* ((Fetch, []), sv_pipeline s, g_log s) ((Returned, []), sv_pipeline s, g_log s)" for now
    by (rule solo_next) auto
  from server_solo [OF this assms refl refl] show ?thesis .
qed

lemma report_loop_append: "report_loop env (xs @ ys) p = report_loop env ys (report_loop env xs p)"
  by (induction env xs p rule: report_loop.induct) (auto split: option.split)

lemma server_loop:
  assumes "i < length (sv_calls s)" "sv_calls s ! i = (Fetch, map snd rs)"
  shows "\<exists>t. (server_step env)\<^sup>*\<^sup>* s t \<and> sv_calls t = (sv_calls s)[i := (Returned, [])]
     \<and> sv_pipeline t = report_loop env rs (sv_pipeline s)"
  using assms
proof (induction rs arbitrary: s)
  case Nil
  with server_finish [of i s env] show ?case by auto
next
  case (Cons e rs)
  obtain now r where e: "e = (now, r)" by (cases e)
  from server_record [of i s r "map snd rs" env now] Cons.prems e
  obtain t where t: "(server_step env)\<^sup>*\<^sup>* s t" "sv_calls t = (sv_calls s)[i := (Fetch, map snd rs)]"
    "sv_pipeline t = report_loop env [(now, r)] (sv_pipeline s)" by auto
  with Cons.IH [of t] Cons.prems(1) obtain u where u: "(server_step env)\<^sup>*\<^sup>* t u"
    "sv_calls u = (sv_calls t)[i := (Returned, [])]" "sv_pipeline u = report_loop env rs (sv_pipeline t)" by auto
  from rtranclp_trans [OF t(1) u(1)] u(2,3) t(2,3) e report_loop_append [of env "[(now, r)]" rs "sv_pipeline s"]
  show ?case by (intro exI [of _ u]) auto
qed

text \<open>A call that nothing interferes with does what \<open>Report\<close> of \<open>Processor\<close> does.\<close>

lemma Report_alone:
  "\<exists>t. (server_step env)\<^sup>*\<^sup>* s t \<and> sv_calls t = sv_calls s @ [(Returned, [])]
     \<and> sv_pipeline t = Report env rs (sv_pipeline s)"
proof -
  let ?s = "accept_call (map snd rs) s"
  have "server_step env s ?s" by (rule arrive)
  moreover from server_loop [of "length (sv_calls s)" ?s rs env]
  obtain t where "(server_step env)\<^sup>*\<^sup>* ?s t" "sv_calls t = sv_calls s @ [(Returned, [])]"
    "sv_pipeline t = report_loop env rs (sv_pipeline ?s)" by (auto simp: accept_call_def)
  ultimately show ?thesis
    by (intro exI [of _ t]) (auto simp: Report_def accept_call_def intro: converse_rtranclp_into_rtranclp)
qed

section \<open>The deduper's view of the log\<close>

fun asks :: "Matcher option \<Rightarrow> decision list \<Rightarrow> (gotime \<times> ServiceCall option) list" where
  "asks m [] = []"
| "asks m (Invalid i # ds) = asks m ds"
| "asks m (Decided i ev sc now # ds) = (if passes_filters m ev sc then [(now, Some sc)] else []) @ asks m ds"
| "asks m (Swept now # ds) = (now, None) # asks m ds"

lemma decided_edges_asks:
  "decided_edges env ds p = allowed_calls (timed_run Allow dedup_sweep (asks (pl_matcher p) ds) (pl_deduper p))"
proof (induction ds arbitrary: p)
  case Nil
  show ?case by (simp add: allowed_calls_def)
next
  case (Cons d ds)
  show ?case
  proof (cases d)
    case (Decided i ev sc now)
    obtain b e where a: "Allow sc now (pl_deduper p) = (b, e)" by (metis surj_pair)
    have "pl_deduper (judged env ev sc now p) = (if passes_filters (pl_matcher p) ev sc then e else pl_deduper p)"
      by (simp add: judged_def passes_filters_def a Let_def)
    with Cons.IH [of "judged env ev sc now p"] a Decided show ?thesis by (simp add: allowed_calls_def)
  qed (simp_all add: Cons.IH allowed_calls_def sweepLoop_fold)
qed

fun asked_later :: "Matcher option \<Rightarrow> decision \<Rightarrow> decision \<Rightarrow> bool" where
  \<comment> \<open>the second is not asked of the deduper with a time before the sweep that the first is\<close>
  "asked_later m (Swept t) (Decided i ev sc now) \<longleftrightarrow> passes_filters m ev sc \<longrightarrow> t \<le> now"
| "asked_later m d d' \<longleftrightarrow> True"

lemma asks_mem:
  "(t, a) \<in> set (asks m ds) \<Longrightarrow>
     (\<exists>i ev sc. Decided i ev sc t \<in> set ds \<and> passes_filters m ev sc \<and> a = Some sc) \<or> (Swept t \<in> set ds \<and> a = None)"
  by (induction m ds rule: asks.induct) (auto split: if_splits)

lemma asks_sweeps_behind: "sorted_wrt (asked_later m) ds \<Longrightarrow> sorted_wrt sweeps_behind (asks m ds)"
proof (induction m ds rule: asks.induct)
  case (4 m now ds)
  have "sweeps_behind (now, None :: unit option) e" if "e \<in> set (asks m ds)" for e
    using 4(2) asks_mem [of "fst e" "snd e" m ds] that by (fastforce simp: sweeps_behind_def)
  with 4 show ?case by (auto simp: sweeps_behind_def)
qed (auto simp: sweeps_behind_def)

section \<open>Where an edge comes from\<close>

lemma decided_edges_log:
  "(now, sc) \<in> set (decided_edges env ds p) \<Longrightarrow> \<exists>i ev. Decided i ev sc now \<in> set ds \<and> passes_filters (pl_matcher p) ev sc"
proof (induction ds arbitrary: p)
  case (Cons d ds)
  then show ?case by (cases d) (fastforce split: if_splits)+
qed simp

lemma events_of_mem: "Decided i ev sc now \<in> set ds \<Longrightarrow> Some ev \<in> set (events_of i ds)"
  by (induction i ds rule: events_of.induct) auto

lemma sent_edge_decided:
  assumes "(server_step env)\<^sup>*\<^sup>* (serving p) s" and "(sc, k) \<in> set (g_sent s)"
  obtains i r ev where "i < length (g_batches s)" "r \<in> set (g_batches s ! i)" "toEvent r = Some ev"
    "seen_in (g_caches s) ev sc" "passes_filters (pl_matcher p) ev sc"
proof -
  from server_reaches [OF assms(1)] have inv: "reads_inv p s" "events_inv s" "account_inv env p s" by auto
  then have "mset (g_sent s) \<subseteq># mset (sends (pl_sink p) (decided_edges env (g_log s) p))"
    unfolding account_inv_def Let_def by (metis mset_subset_eq_add_left)
  with assms(2) have "(sc, k) \<in> set (sends (pl_sink p) (decided_edges env (g_log s) p))"
    by (meson mset_subset_eqD in_multiset_in_set)
  then obtain now i ev where d: "Decided i ev sc now \<in> set (g_log s)" "passes_filters (pl_matcher p) ev sc"
    using decided_edges_log by (fastforce simp: sends_def)
  have i: "i < length (sv_calls s)"
    using events_of_mem [OF d(1)] inv(2) unfolding events_inv_def by (metis emptyE leI list.set(1))
  then have "Some ev \<in> toEvent ` set (g_batches s ! i)"
    using events_of_mem [OF d(1)] inv(2) unfolding events_inv_def by (metis Un_iff set_append set_map)
  then obtain r where "r \<in> set (g_batches s ! i)" "toEvent r = Some ev" by force
  moreover have "i < length (g_batches s)" using i inv(2) by (simp add: events_inv_def)
  moreover have "seen_in (g_caches s) ev sc" using inv(1) d(1) unfolding reads_inv_def by blast
  ultimately show thesis using d(2) that by blast
qed

section \<open>Properties\<close>

text \<open>C6. Concurrent \<open>Report\<close> calls are linearizable. Let calls, the sweep loop and the informers
  interleave in any way, one shared access at a time, and take any moment when every call
  has returned. Then there is one order of the decisions that keeps each call's records in
  their order and in which, handled one after the other, they leave the same deduper and the
  same counters; the sinks were given the same edges, at most in another order. Every edge
  joins four reads of the workload cache made at moments that follow each other, and where
  the cache did not change during the run each decision is the atomic \<open>Handle\<close>.\<close>

theorem reports_linearizable:
  assumes "(server_step env)\<^sup>*\<^sup>* (serving p) s" and "\<forall>c \<in> set (sv_calls s). fst c = Returned"
  shows "\<exists>log q xs ys. q = fold (settle env) log p
    \<and> (\<forall>i < length (g_batches s). events_of i log = map toEvent (g_batches s ! i))
    \<and> pl_deduper (sv_pipeline s) = pl_deduper q \<and> m_Records (sv_pipeline s) = m_Records q
    \<and> m_Batches (sv_pipeline s) = m_Batches p + length (g_batches s)
    \<and> pl_out (sv_pipeline s) = fold (put env) xs (pl_out p) \<and> pl_out q = fold (put env) ys (pl_out p)
    \<and> mset xs = mset ys
    \<and> (\<forall>i ev sc now. Decided i ev sc now \<in> set log \<longrightarrow> seen_in (g_caches s) ev sc
         \<and> (\<forall>p'. set (g_caches s) = {pl_cache p'} \<longrightarrow>
              settle env (Decided i ev sc now) p' = Pipeline_Handle env ev now p'))"
proof -
  from server_reaches [OF assms(1)] have inv: "reads_inv p s" "events_inv s" "account_inv env p s" by auto
  let ?q = "fold (settle env) (g_log s) p"
  let ?ys = "sends (pl_sink p) (decided_edges env (g_log s) p)"
  have events: "\<forall>i < length (g_batches s). events_of i (g_log s) = map toEvent (g_batches s ! i)"
  proof (intro allI impI)
    fix i assume i: "i < length (g_batches s)"
    then have c: "sv_calls s ! i \<in> set (sv_calls s)" using inv(2) by (simp add: events_inv_def)
    with assms(2) have "undecided (sv_calls s ! i) = []" by (cases "sv_calls s ! i") force
    moreover have "events_of i (g_log s) @ undecided (sv_calls s ! i) = map toEvent (g_batches s ! i)"
      using inv(2) i by (simp add: events_inv_def)
    ultimately show "events_of i (g_log s) = map toEvent (g_batches s ! i)" by simp
  qed
  have handled: "settle env (Decided i ev sc now) p' = Pipeline_Handle env ev now p'"
    if "seen_in (g_caches s) ev sc" "set (g_caches s) = {pl_cache p'}" for i ev sc now p'
    using judged_one_cache [of "g_caches s" ev sc p'] that by (simp add: Handle_judged)
  have counts: "m_Records (sv_pipeline s) = m_Records ?q" and sent: "mset (g_sent s) = mset ?ys"
    using inv(3) all_returned(1) [OF assms(2)] all_returned(2) [OF assms(2), of "pl_sink p"]
    by (simp_all add: account_inv_def Let_def fun_eq_iff)
  have rest: "pl_deduper (sv_pipeline s) = pl_deduper ?q" "m_Batches (sv_pipeline s) = m_Batches p + length (g_batches s)"
    "pl_out (sv_pipeline s) = fold (put env) (g_sent s) (pl_out p)" "pl_out ?q = fold (put env) ?ys (pl_out p)"
    using inv(2,3) by (simp_all add: account_inv_def events_inv_def Let_def settles_out)
  have seen: "seen_in (g_caches s) ev sc" if "Decided i ev sc now \<in> set (g_log s)" for i ev sc now
    using inv(1) that unfolding reads_inv_def by blast
  show ?thesis
    by (rule exI [of _ "g_log s"], rule exI [of _ ?q], rule exI [of _ "g_sent s"], rule exI [of _ ?ys])
      (use events counts sent rest seen handled in blast)
qed

definition sample_record :: FlowRecord where
  "sample_record = \<lparr>fr_SrcIp = [10, 0, 0, 1], fr_DstIp = [10, 0, 0, 2], fr_DstPort = 80, fr_Protocol = 6,
     fr_Outbound = True, fr_SrcPodUid = [], fr_Comm = [], fr_Count = 1, fr_FirstSeenUnixNano = 0,
     fr_LastSeenUnixNano = 0, fr_DstHostname = []\<rparr>"

lemma sample_record_event: "\<exists>ev. toEvent sample_record = Some ev \<and> passes sample_pipeline ev"
  by (auto simp: toEvent_def sample_record_def addr_from_slice_def passes_def sample_pipeline_def NewPipeline_def
      ShouldIgnoreCall_def ShouldIgnore_def)

lemma sample_server_run:
  "\<exists>s ev. (server_step sample_env)\<^sup>*\<^sup>* (serving sample_pipeline) s \<and> toEvent sample_record = Some ev
     \<and> passes sample_pipeline ev \<and> sv_calls s = [(Returned, [])] \<and> g_caches s = [pl_cache sample_pipeline] \<and> g_batches s = [[sample_record, sample_record]]
     \<and> g_log s = [Decided 0 ev (enriched sample_pipeline ev) 0, Decided 0 ev (enriched sample_pipeline ev) 40]"
proof -
  let ?e = sample_env and ?r = sample_record and ?p = sample_pipeline
  obtain ev where ev: "toEvent ?r = Some ev" "passes ?p ev" using sample_record_event by blast
  let ?a = "accept_call [?r, ?r] (serving ?p)"
  have a: "server_step ?e (serving ?p) ?a" by (rule arrive)
  have same: "enriched q ev = enriched ?p ev" "passes q ev" if "pl_cache q = pl_cache ?p" "pl_matcher q = pl_matcher ?p" for q
    using ev(2) enriched_cong [OF that(1)] that(2) by (simp_all add: passes_def)
  from server_record [of 0 ?a ?r "[?r]" ?e 0] ev obtain b where
    b: "(server_step ?e)\<^sup>*\<^sup>* ?a b" "sv_calls b = [(Fetch, [?r])]" "g_log b = [Decided 0 ev (enriched ?p ev) 0]"
      "g_batches b = [[?r, ?r]]" "g_caches b = [pl_cache ?p]" "sv_pipeline b = report_loop ?e [(0, ?r)] (?p\<lparr>m_Batches := m_Batches ?p + 1\<rparr>)"
    using same [of "?p\<lparr>m_Batches := m_Batches ?p + 1\<rparr>"] by (auto simp: accept_call_def serving_def)
  have "pl_cache (sv_pipeline b) = pl_cache ?p" "pl_matcher (sv_pipeline b) = pl_matcher ?p"
    using b(6) ev by simp_all
  with server_record [of 0 b ?r "[]" ?e 40] b ev same [of "sv_pipeline b"] obtain c where
    c: "(server_step ?e)\<^sup>*\<^sup>* b c" "sv_calls c = [(Fetch, [])]"
      "g_log c = [Decided 0 ev (enriched ?p ev) 0, Decided 0 ev (enriched ?p ev) 40]" "g_batches c = [[?r, ?r]]" "g_caches c = [pl_cache ?p]"
    by auto
  from server_finish [of 0 c ?e] c obtain s where
    "(server_step ?e)\<^sup>*\<^sup>* c s" "sv_calls s = [(Returned, [])]" "g_log s = g_log c" "g_batches s = [[?r, ?r]]"
    "g_caches s = [pl_cache ?p]" by auto
  moreover have "(server_step ?e)\<^sup>*\<^sup>* (serving ?p) c" using a b(1) c(1) by simp
  ultimately show ?thesis using ev c(3) by (intro exI [of _ s] exI [of _ ev]) simp
qed

lemma sample_edges:
  assumes "passes sample_pipeline ev"
  shows "decided_edges sample_env [Decided 0 ev (enriched sample_pipeline ev) 0, Decided 0 ev (enriched sample_pipeline ev) 40]
      sample_pipeline = [(0, enriched sample_pipeline ev), (40, enriched sample_pipeline ev)]"
proof -
  have "passes_filters (pl_matcher sample_pipeline) ev (enriched sample_pipeline ev)"
    using assms by (simp add: passes_def passes_filters_def IsReversedDuplicate_def)
  then show ?thesis
    unfolding decided_edges_asks
    by (simp add: allowed_calls_def Allow_def Let_def Dedup_New_def time_sub_def max_duration_def min_duration_def
        sample_pipeline_def NewPipeline_def)
qed

theorem reports_linearizable_witness:
  "\<exists>s log ev. (server_step sample_env)\<^sup>*\<^sup>* (serving sample_pipeline) s \<and> events_of 0 log = [Some ev, Some ev]
     \<and> pl_deduper (sv_pipeline s) = pl_deduper (fold (settle sample_env) log sample_pipeline)"
proof -
  from sample_server_run obtain s ev where s: "(server_step sample_env)\<^sup>*\<^sup>* (serving sample_pipeline) s"
    "toEvent sample_record = Some ev" "sv_calls s = [(Returned, [])]" "g_batches s = [[sample_record, sample_record]]"
    by blast
  from s(3) have "\<forall>c \<in> set (sv_calls s). fst c = Returned" by simp
  from reports_linearizable [OF s(1) this] s show ?thesis by fastforce
qed

text \<open>C7. Repeated edges stay spaced under concurrency: whatever calls, sweeps and cache changes
  interleave, as long as no call asks the deduper with a clock reading older than a sweep
  that ran before, every edge a sink was given is one of a list of edges let through, and
  any two edges of that list with one key are at least the window apart.\<close>

theorem concurrent_edges_spaced:
  assumes "0 < w" and "w \<le> max_duration" and "pl_deduper p = Dedup_New w"
    and "(server_step env)\<^sup>*\<^sup>* (serving p) s" and "sorted_wrt (asked_later (pl_matcher p)) (g_log s)"
    and "edges = decided_edges env (g_log s) p" and "i < j" and "j < length edges"
    and "dedup_key (snd (edges ! i)) = dedup_key (snd (edges ! j))"
  shows "fst (edges ! i) + w \<le> fst (edges ! j)
    \<and> mset (g_sent s) \<subseteq># mset (sends (pl_sink p) edges)
    \<and> pl_out (sv_pipeline s) = fold (put env) (g_sent s) (pl_out p)"
proof -
  have "sorted_wrt (spaced w) edges"
    using late_clock_spaced [of "Dedup_New w", OF _ _ asks_sweeps_behind [OF assms(5)]] assms(1-3)
    unfolding assms(6) decided_edges_asks by (simp add: dedup_ok_def Dedup_New_def)
  then have "spaced w (edges ! i) (edges ! j)" using assms(7,8) by (simp add: sorted_wrt_iff_nth_less)
  moreover have "account_inv env p s" using server_reaches [OF assms(4)] by blast
  ultimately show ?thesis using assms(9) unfolding assms(6) account_inv_def Let_def spaced_def
    by (metis mset_subset_eq_add_left)
qed

theorem concurrent_edges_spaced_witness:
  "\<exists>s. (server_step sample_env)\<^sup>*\<^sup>* (serving sample_pipeline) s \<and> length (decided_edges sample_env (g_log s) sample_pipeline) = 2
     \<and> mset (g_sent s) \<subseteq># mset (sends LoggerSink (decided_edges sample_env (g_log s) sample_pipeline))"
proof -
  from sample_server_run obtain s ev where s: "(server_step sample_env)\<^sup>*\<^sup>* (serving sample_pipeline) s"
    "passes sample_pipeline ev"
    "g_log s = [Decided 0 ev (enriched sample_pipeline ev) 0, Decided 0 ev (enriched sample_pipeline ev) 40]"
    by blast
  let ?sc = "enriched sample_pipeline ev" and ?edges = "decided_edges sample_env (g_log s) sample_pipeline"
  have e: "?edges = [(0, ?sc), (40, ?sc)]" unfolding s(3) by (rule sample_edges [OF s(2)])
  have "sorted_wrt (asked_later (pl_matcher sample_pipeline)) (g_log s)" by (simp add: s(3))
  with concurrent_edges_spaced [OF _ _ _ s(1) _ refl, of 30 0 1] s(1) e
  show ?thesis by (intro exI [of _ s]) (simp add: max_duration_def sample_pipeline_def NewPipeline_def)
qed

end
