(* ===== verification/Lifecycle.thy ===== *)
theory Lifecycle
  imports Report_Concurrent
begin

text \<open>
  The second half of \<open>runProcessor\<close> in \<open>cmd/sniffer/processor_linux.go\<close>: from the
  listener to the end of the process, as a step relation over the server of
  \<open>Report_Concurrent\<close>. Any number of \<open>Report\<close> calls run at once, one shared access at a
  time; they interleave with each other, with the sweep loop, with the informers, with the
  goroutine that shuts down, and with the main goroutine's \<open>ready.Store(true)\<close>.
  \<open>GracefulStop\<close> is gRPC's: it refuses new calls and returns when none is left.
\<close>

section \<open>State and steps\<close>

datatype shutdown =
    Untouched  \<comment> \<open>waits for the context\<close>
  | Unready  \<comment> \<open>\<open>ready.Store(false)\<close> is done\<close>
  | Stopping  \<comment> \<open>in \<open>GracefulStop\<close>\<close>
  | StopReturned  \<comment> \<open>\<open>GracefulStop\<close> has returned\<close>
  | Closed  \<comment> \<open>\<open>kafka.Close\<close> has returned\<close>

record proc =
  pr_server :: server
  pr_ready :: bool
  pr_main_waits :: bool
  pr_shutdown :: shutdown
  pr_cancelled :: bool

definition start_processor :: "Pipeline \<Rightarrow> proc" where
  \<comment> \<open>the goroutines run; \<open>ready\<close> is not set yet\<close>
  "start_processor p =
     \<lparr>pr_server = serving p, pr_ready = False, pr_main_waits = False, pr_shutdown = Untouched, pr_cancelled = False\<rparr>"

definition accepting :: "proc \<Rightarrow> bool" where
  "accepting s \<longleftrightarrow> pr_shutdown s = Untouched \<or> pr_shutdown s = Unready"

definition answered :: "server \<Rightarrow> bool" where
  "answered v \<longleftrightarrow> (\<forall>c \<in> set (sv_calls v). fst c = Returned)"

inductive proc_step :: "emit_env \<Rightarrow> proc \<Rightarrow> proc \<Rightarrow> bool" for env where
  set_ready: "\<not> pr_main_waits s \<Longrightarrow> proc_step env s (s\<lparr>pr_ready := True, pr_main_waits := True\<rparr>)"
| call: "accepting s \<Longrightarrow> proc_step env s (s\<lparr>pr_server := accept_call rs (pr_server s)\<rparr>)"
| one_access: "\<lbrakk>i < length (sv_calls (pr_server s)); fst (sv_calls (pr_server s) ! i) \<noteq> Returned\<rbrakk> \<Longrightarrow>
     proc_step env s (s\<lparr>pr_server := advance env now i (pr_server s)\<rparr>)"
| sweep: "proc_step env s (s\<lparr>pr_server := sweep_tick now (pr_server s)\<rparr>)"
| informed: "proc_step env s (s\<lparr>pr_server := cache_becomes c (pr_server s)\<rparr>)"
| cancel: "proc_step env s (s\<lparr>pr_cancelled := True\<rparr>)"
| unready: "\<lbrakk>pr_shutdown s = Untouched; pr_cancelled s\<rbrakk> \<Longrightarrow>
     proc_step env s (s\<lparr>pr_ready := False, pr_shutdown := Unready\<rparr>)"
| stop: "pr_shutdown s = Unready \<Longrightarrow> proc_step env s (s\<lparr>pr_shutdown := Stopping\<rparr>)"
| stopped: "\<lbrakk>pr_shutdown s = Stopping; answered (pr_server s)\<rbrakk> \<Longrightarrow>
     proc_step env s (s\<lparr>pr_shutdown := StopReturned\<rparr>)"
| close: "pr_shutdown s = StopReturned \<Longrightarrow> proc_step env s (s\<lparr>pr_shutdown := Closed\<rparr>)"

inductive_cases proc_stepE: "proc_step env s t"

text \<open>The process takes the server's steps and adds none to it.\<close>

lemma proc_step_serves:
  "proc_step env s t \<Longrightarrow> pr_server t = pr_server s \<or> server_step env (pr_server s) (pr_server t)"
  by (erule proc_stepE) (auto intro: server_step.intros)

lemma proc_serves:
  "(proc_step env)\<^sup>*\<^sup>* (start_processor p) s \<Longrightarrow> (server_step env)\<^sup>*\<^sup>* (serving p) (pr_server s)"
proof (induction rule: rtranclp_induct)
  case base
  show ?case by (simp add: start_processor_def)
next
  case (step s t)
  from proc_step_serves [OF step.hyps(2)] step.IH show ?case by (metis rtranclp.rtrancl_into_rtrancl)
qed

section \<open>Counting\<close>

fun to_count :: "report_call \<Rightarrow> nat" where
  \<comment> \<open>the records of a call that no counter has seen yet\<close>
  "to_count (Returned, rs) = 0"
| "to_count (Fetch, rs) = length rs"
| "to_count (Send sc xs, rs) = length rs"
| "to_count (w, rs) = Suc (length rs)"

fun counts_result :: "report_call \<Rightarrow> bool" where
  "counts_result (Count r e, rs) \<longleftrightarrow> r \<in> set all_results"
| "counts_result c \<longleftrightarrow> True"

definition count_inv :: "server \<Rightarrow> bool" where
  "count_inv v \<longleftrightarrow>
     total_records (sv_pipeline v) + sum_list (map to_count (sv_calls v)) = sum_list (map length (g_batches v))
     \<and> (\<forall>c \<in> set (sv_calls v). counts_result c)"

lemma total_records_other [simp]:
  "total_records (p\<lparr>m_Batches := n\<rparr>) = total_records p" "total_records (p\<lparr>pl_deduper := d\<rparr>) = total_records p"
  "total_records (p\<lparr>pl_cache := c\<rparr>) = total_records p" "total_records (p\<lparr>pl_out := e\<rparr>) = total_records p"
  by (simp_all add: total_records_def all_results_def)

lemma total_records_count [simp]:
  "r \<in> set all_results \<Longrightarrow> total_records (count_record r p) = Suc (total_records p)"
  using total_records_bump [of "count_record r p" p r] by simp

lemma call_step_total:
  assumes "counts_result c"
  shows "total_records (snd (call_step env now c p)) + to_count (fst (call_step env now c p)) = total_records p + to_count c"
    and "counts_result (fst (call_step env now c p))"
  using assms
  by (cases "(env, now, c, p)" rule: call_step.cases;
      auto simp: Let_def all_results_def split: option.split prod.split)+

lemma count_inv_step: "\<lbrakk>server_step env v u; count_inv v\<rbrakk> \<Longrightarrow> count_inv u"
proof (erule server_stepE)
  fix i now
  assume inv: "count_inv v" and i: "i < length (sv_calls v)" and u: "u = advance env now i v"
  then have "counts_result (sv_calls v ! i)" by (simp add: count_inv_def)
  note c = call_step_total [OF this, of env now "sv_pipeline v"]
  have "\<forall>d \<in> set (sv_calls u). counts_result d"
    using inv c(2) set_update_subset_insert by (fastforce simp: u advance_simps count_inv_def)
  moreover have "total_records (sv_pipeline u) + sum_list (map to_count (sv_calls u)) = sum_list (map length (g_batches u))"
    using inv c(1) sum_list_update_one [OF i, of to_count "fst (call_step env now (sv_calls v ! i) (sv_pipeline v))"]
    unfolding u advance_simps count_inv_def by linarith
  ultimately show "count_inv u" by (simp add: count_inv_def)
qed (auto simp: count_inv_def accept_call_def sweep_tick_def cache_becomes_def)

lemma count_inv_reaches: "\<lbrakk>(server_step env)\<^sup>*\<^sup>* (serving p) v; total_records p = 0\<rbrakk> \<Longrightarrow> count_inv v"
proof (induction rule: rtranclp_induct)
  case base
  then show ?case by (simp add: count_inv_def serving_def)
qed (blast intro: count_inv_step)

lemma setup_processor_total: "setup_processor W = Inr p \<Longrightarrow> total_records p = 0"
  using processor_ready [of W p] by blast

section \<open>After the stop\<close>

lemma proc_step_answered:
  "\<lbrakk>proc_step env s t; pr_shutdown s \<in> {StopReturned, Closed} \<longrightarrow> answered (pr_server s)\<rbrakk> \<Longrightarrow>
     pr_shutdown t \<in> {StopReturned, Closed} \<longrightarrow> answered (pr_server t)"
  by (erule proc_stepE)
    (auto simp: answered_def accepting_def sweep_tick_def cache_becomes_def dest: nth_mem)

lemma proc_answered:
  "(proc_step env)\<^sup>*\<^sup>* (start_processor p) s \<Longrightarrow> pr_shutdown s \<in> {StopReturned, Closed} \<longrightarrow> answered (pr_server s)"
proof (induction rule: rtranclp_induct)
  case base
  show ?case by (simp add: start_processor_def)
next
  case (step s t)
  from proc_step_answered [OF step.hyps(2) step.IH] show ?case .
qed

lemma answered_settled:
  assumes "(server_step env)\<^sup>*\<^sup>* (serving p) v" and "answered v"
  shows "mset (g_sent v) = mset (sends (pl_sink p) (decided_edges env (g_log v) p))"
    "pl_out (sv_pipeline v) = fold (put env) (g_sent v) (pl_out p)" "sum_list (map to_count (sv_calls v)) = 0"
proof -
  have done_: "\<forall>c \<in> set (sv_calls v). fst c = Returned" using assms(2) by (simp add: answered_def)
  have "account_inv env p v" using server_reaches [OF assms(1)] by blast
  then show "mset (g_sent v) = mset (sends (pl_sink p) (decided_edges env (g_log v) p))"
    "pl_out (sv_pipeline v) = fold (put env) (g_sent v) (pl_out p)"
    using all_returned(2) [OF done_, of "pl_sink p"] by (simp_all add: account_inv_def Let_def)
  have "to_count c = 0" if "c \<in> set (sv_calls v)" for c using done_ that by (cases c) force
  then show "sum_list (map to_count (sv_calls v)) = 0" by simp
qed

lemma answered_quiet:
  assumes "proc_step env s t" and "answered (pr_server s)" and "\<not> accepting s"
  shows "g_sent (pr_server t) = g_sent (pr_server s)" "pl_out (sv_pipeline (pr_server t)) = pl_out (sv_pipeline (pr_server s))"
    "m_Records (sv_pipeline (pr_server t)) = m_Records (sv_pipeline (pr_server s))"
  using assms
  by (auto simp: answered_def sweep_tick_def cache_becomes_def dest: nth_mem elim!: proc_stepE)

lemma closes:
  assumes "answered v"
  shows "\<exists>u. (proc_step env)\<^sup>*\<^sup>* ((start_processor p)\<lparr>pr_server := v\<rparr>) u \<and> pr_server u = v \<and> pr_shutdown u = Closed \<and> pr_ready u"
proof -
  let ?s = "(start_processor p)\<lparr>pr_server := v\<rparr>"
  let ?a = "?s\<lparr>pr_cancelled := True\<rparr>"
  let ?b = "?a\<lparr>pr_ready := False, pr_shutdown := Unready\<rparr>"
  let ?c = "?b\<lparr>pr_ready := True, pr_main_waits := True\<rparr>"
  let ?d = "?c\<lparr>pr_shutdown := Stopping\<rparr>" and ?e = "?c\<lparr>pr_shutdown := StopReturned\<rparr>" and ?f = "?c\<lparr>pr_shutdown := Closed\<rparr>"
  have "proc_step env ?s ?a" by (rule cancel)
  moreover have "proc_step env ?a ?b" by (rule unready) (simp_all add: start_processor_def)
  moreover have "proc_step env ?b ?c" by (rule set_ready) (simp add: start_processor_def)
  moreover have "proc_step env ?c ?d" by (rule stop) simp
  moreover have "proc_step env ?d ?e" using stopped [of ?d env] assms by simp
  moreover have "proc_step env ?e ?f" using close [of ?e env] by simp
  ultimately have "(proc_step env)\<^sup>*\<^sup>* ?s ?f"
    by (meson converse_rtranclp_into_rtranclp rtranclp.rtrancl_refl)
  then show ?thesis by (intro exI [of _ ?f]) simp
qed

lemma start_processor_server: "(start_processor p)\<lparr>pr_server := serving p\<rparr> = start_processor p"
  by (simp add: start_processor_def)

lemma late_ready: "\<exists>u. (proc_step env)\<^sup>*\<^sup>* (start_processor p) u \<and> pr_shutdown u = Closed \<and> pr_ready u"
  using closes [of "serving p" env p] unfolding start_processor_server by (auto simp: answered_def serving_def)

lemma accepting_server_step:
  "\<lbrakk>server_step env v u; accepting s\<rbrakk> \<Longrightarrow> proc_step env (s\<lparr>pr_server := v\<rparr>) (s\<lparr>pr_server := u\<rparr>)"
  using call [of "s\<lparr>pr_server := v\<rparr>"] one_access [where s = "s\<lparr>pr_server := v\<rparr>"]
    sweep [where s = "s\<lparr>pr_server := v\<rparr>"] informed [where s = "s\<lparr>pr_server := v\<rparr>"]
  by (elim server_stepE) (simp_all add: accepting_def)

lemma accepting_serves:
  "\<lbrakk>(server_step env)\<^sup>*\<^sup>* v u; accepting s\<rbrakk> \<Longrightarrow> (proc_step env)\<^sup>*\<^sup>* (s\<lparr>pr_server := v\<rparr>) (s\<lparr>pr_server := u\<rparr>)"
  by (induction rule: rtranclp_induct) (auto intro: rtranclp.rtrancl_into_rtrancl accepting_server_step)

section \<open>What is left to do\<close>

fun phases_left :: "shutdown \<Rightarrow> nat" where
  "phases_left Untouched = 4"
| "phases_left Unready = 3"
| "phases_left Stopping = 2"
| "phases_left StopReturned = 1"
| "phases_left Closed = 0"

definition records_left :: "nat \<Rightarrow> FlowRecord list \<Rightarrow> nat" where
  "records_left k rs = Suc (length rs * (10 + k))"

fun call_left :: "nat \<Rightarrow> report_call \<Rightarrow> nat" where
  \<comment> \<open>a bound on the accesses a call has still to make, with \<open>k\<close> sinks\<close>
  "call_left k (Returned, rs) = 0"
| "call_left k (Fetch, rs) = records_left k rs"
| "call_left k (LookSource ev, rs) = 9 + k + records_left k rs"
| "call_left k (LookUID ev w, rs) = 8 + k + records_left k rs"
| "call_left k (LookPort ev w, rs) = 7 + k + records_left k rs"
| "call_left k (LookDest ev w l7, rs) = 6 + k + records_left k rs"
| "call_left k (Judge ev sc, rs) = 5 + k + records_left k rs"
| "call_left k (ReadClock ev sc, rs) = 4 + k + records_left k rs"
| "call_left k (Ask ev sc t, rs) = 3 + k + records_left k rs"
| "call_left k (Count r None, rs) = 1 + records_left k rs"
| "call_left k (Count r (Some sc), rs) = 2 + k + records_left k rs"
| "call_left k (Send sc xs, rs) = 1 + length xs + records_left k rs"

definition sink_count :: "proc \<Rightarrow> nat" where
  "sink_count s = length (sink_parts (pl_sink (sv_pipeline (pr_server s))))"

definition to_do :: "proc \<Rightarrow> nat" where
  \<comment> \<open>accesses and phases of the shutdown to come\<close>
  "to_do s = sum_list (map (call_left (sink_count s)) (sv_calls (pr_server s))) + phases_left (pr_shutdown s)"

lemma call_step_left:
  "\<lbrakk>fst c \<noteq> Returned; k = length (sink_parts (pl_sink p))\<rbrakk> \<Longrightarrow> call_left k (fst (call_step env now c p)) < call_left k c"
  by (cases "(env, now, c, p)" rule: call_step.cases)
    (auto simp: Let_def records_left_def split: option.split prod.split)

lemma call_left_0: "call_left k c = 0 \<longleftrightarrow> fst c = Returned"
  by (cases "(k, c)" rule: call_left.cases) (auto simp: records_left_def)

lemma sink_count_step: "proc_step env s t \<Longrightarrow> sink_count t = sink_count s"
  by (erule proc_stepE)
    (auto simp: sink_count_def accept_call_def sweep_tick_def cache_becomes_def advance_simps call_step_config)

lemma access_to_do:
  assumes "i < length (sv_calls (pr_server s))" and "fst (sv_calls (pr_server s) ! i) \<noteq> Returned"
  shows "to_do (s\<lparr>pr_server := advance env now i (pr_server s)\<rparr>) < to_do s"
proof -
  let ?v = "pr_server s" and ?k = "sink_count s"
  let ?c = "fst (call_step env now (sv_calls ?v ! i) (sv_pipeline ?v))"
  have "sink_count (s\<lparr>pr_server := advance env now i ?v\<rparr>) = ?k"
    using sink_count_step [OF one_access [OF assms]] .
  moreover have "call_left ?k ?c < call_left ?k (sv_calls ?v ! i)"
    by (rule call_step_left [OF assms(2)]) (simp add: sink_count_def)
  ultimately show ?thesis
    using sum_list_update_one [OF assms(1), of "call_left ?k" ?c] by (simp add: to_do_def advance_simps)
qed

lemma to_do_step:
  assumes "proc_step env s t" and "\<not> accepting s"
  shows "to_do t \<le> to_do s \<and> \<not> accepting t"
proof (rule proc_stepE [OF assms(1)])
  fix i now
  assume "i < length (sv_calls (pr_server s))" "fst (sv_calls (pr_server s) ! i) \<noteq> Returned"
    and t: "t = s\<lparr>pr_server := advance env now i (pr_server s)\<rparr>"
  with access_to_do [of i s env now] assms(2) show ?thesis by (simp add: accepting_def)
qed (use assms sink_count_step [OF assms(1)] in \<open>auto simp: to_do_def accepting_def sweep_tick_def cache_becomes_def\<close>)

lemma to_do_progress:
  assumes "pr_cancelled s" and "pr_shutdown s \<noteq> Closed"
  shows "\<exists>t. proc_step env s t \<and> to_do t < to_do s"
proof (cases "pr_shutdown s = Stopping \<and> \<not> answered (pr_server s)")
  case True
  then obtain i where "i < length (sv_calls (pr_server s))" "fst (sv_calls (pr_server s) ! i) \<noteq> Returned"
    by (auto simp: answered_def in_set_conv_nth)
  then show ?thesis using one_access access_to_do by blast
next
  case False
  with assms show ?thesis
    using unready [of s env] stop [of s env] stopped [of s env] close [of s env]
    by (cases "pr_shutdown s") (auto simp: to_do_def sink_count_def intro!: exI conjI)
qed

section \<open>Properties\<close>

text \<open>C16. Shutting the processor down loses nothing it received and emits nothing after the sinks
  are closed: whatever accesses of the calls, sweeps, cache changes and signals interleave,
  the records received are those counted under a result plus those a call has still to
  count; once \<open>GracefulStop\<close> has returned every call has been answered, every record has
  been counted, every edge let through has been given to every sink, and no later step
  sends an edge or counts a record. (Readiness is not as reliable: the main goroutine may
  set it after the shutdown goroutine cleared it, and then it stays set.)\<close>

theorem shutdown_order:
  assumes "setup_processor W = Inr p" and "(proc_step env)\<^sup>*\<^sup>* (start_processor p) s" and "proc_step env s t"
  shows "let v = pr_server s; u = pr_server t in
    total_records (sv_pipeline v) + sum_list (map to_count (sv_calls v)) = sum_list (map length (g_batches v))
    \<and> (pr_shutdown s = StopReturned \<or> pr_shutdown s = Closed \<longrightarrow>
         answered v \<and> total_records (sv_pipeline v) = sum_list (map length (g_batches v))
         \<and> mset (g_sent v) = mset (sends (pl_sink p) (decided_edges env (g_log v) p))
         \<and> pl_out (sv_pipeline v) = fold (put env) (g_sent v) (pl_out p)
         \<and> g_sent u = g_sent v \<and> pl_out (sv_pipeline u) = pl_out (sv_pipeline v)
         \<and> m_Records (sv_pipeline u) = m_Records (sv_pipeline v))
    \<and> (\<exists>r. (proc_step env)\<^sup>*\<^sup>* (start_processor p) r \<and> pr_shutdown r = Closed \<and> pr_ready r)"
  unfolding Let_def
proof (intro conjI impI)
  let ?v = "pr_server s" and ?u = "pr_server t"
  note reach = proc_serves [OF assms(2)]
  show total: "total_records (sv_pipeline ?v) + sum_list (map to_count (sv_calls ?v)) = sum_list (map length (g_batches ?v))"
    using count_inv_reaches [OF reach setup_processor_total [OF assms(1)]] by (simp add: count_inv_def)
  show "\<exists>r. (proc_step env)\<^sup>*\<^sup>* (start_processor p) r \<and> pr_shutdown r = Closed \<and> pr_ready r" by (rule late_ready)
  assume stop: "pr_shutdown s = StopReturned \<or> pr_shutdown s = Closed"
  with proc_answered [OF assms(2)] show a: "answered ?v" by simp
  note settled = answered_settled [OF reach a]
  have "\<not> accepting s" using stop by (auto simp: accepting_def)
  note quiet = answered_quiet [OF assms(3) a this]
  show "total_records (sv_pipeline ?v) = sum_list (map length (g_batches ?v))" using total settled(3) by simp
  show "mset (g_sent ?v) = mset (sends (pl_sink p) (decided_edges env (g_log ?v) p))"
    "pl_out (sv_pipeline ?v) = fold (put env) (g_sent ?v) (pl_out p)"
    using settled(1,2) by simp_all
  show "g_sent ?u = g_sent ?v" "pl_out (sv_pipeline ?u) = pl_out (sv_pipeline ?v)"
    "m_Records (sv_pipeline ?u) = m_Records (sv_pipeline ?v)" using quiet by simp_all
qed

definition small_world :: processor_world where
  "small_world = \<lparr>pw_Load = Inr zero_config, pw_kube_ok = True, pw_dynamic_ok = True, pw_synced = Some NewCache,
     pw_kafka = \<lparr>kw_ReadFile = (\<lambda>_. None), kw_AppendCerts = (\<lambda>_. True), kw_NewClient = (\<lambda>_. True),
       kw_metadata = (\<lambda>_. None), kw_is_error = (\<lambda>_. False)\<rparr>, pw_listen_ok = True\<rparr>"

lemma small_world_sets_up: "\<exists>p. setup_processor small_world = Inr p"
  by (simp add: small_world_def setup_processor_def zero_config_def Ignore_Compile_def buildSinks_def StdoutEnabled_def)

theorem shutdown_order_witness:
  "\<exists>p s. setup_processor small_world = Inr p \<and> (proc_step sample_env)\<^sup>*\<^sup>* (start_processor p) s
     \<and> pr_shutdown s = Closed \<and> total_records (sv_pipeline (pr_server s)) = 2
     \<and> sum_list (map length (g_batches (pr_server s))) = 2"
proof -
  obtain p where p: "setup_processor small_world = Inr p" using small_world_sets_up ..
  let ?rs = "[(0, sample_record), (40, sample_record)]"
  obtain v where v: "(server_step sample_env)\<^sup>*\<^sup>* (serving p) v" "sv_calls v = [(Returned, [])]"
    "sv_pipeline v = Report sample_env ?rs p"
    using Report_alone [of sample_env "serving p" ?rs] by (auto simp: serving_def)
  have "(proc_step sample_env)\<^sup>*\<^sup>* (start_processor p) ((start_processor p)\<lparr>pr_server := v\<rparr>)"
    using accepting_serves [OF v(1), of "start_processor p"]
    unfolding start_processor_server by (simp add: accepting_def start_processor_def)
  moreover have "answered v" by (simp add: answered_def v(2))
  ultimately obtain s where s: "(proc_step sample_env)\<^sup>*\<^sup>* (start_processor p) s" "pr_server s = v" "pr_shutdown s = Closed"
    using closes [of v sample_env p] by (meson rtranclp_trans)
  have "total_records (sv_pipeline v) = 2"
    using total_records_report [of sample_env ?rs "p\<lparr>m_Batches := m_Batches p + 1\<rparr>"] setup_processor_total [OF p]
    by (simp add: v(3) Report_def)
  with shutdown_order [OF p s(1) sweep] p s show ?thesis
    by (intro exI [of _ p] exI [of _ s]) (simp add: Let_def)
qed

text \<open>A shutdown always gets on: after the signal, as long as the sinks are not closed, some
  step brings the end nearer (an access of a call made, a phase passed), and once
  \<open>GracefulStop\<close> has been called no step adds work.\<close>

lemma shutdown_progress:
  "(pr_cancelled s \<and> pr_shutdown s \<noteq> Closed \<longrightarrow> (\<exists>t. proc_step env s t \<and> to_do t < to_do s))
   \<and> (pr_shutdown s \<in> {Stopping, StopReturned, Closed} \<and> proc_step env s u \<longrightarrow>
        to_do u \<le> to_do s \<and> pr_shutdown u \<in> {Stopping, StopReturned, Closed})
   \<and> (to_do s = 0 \<longleftrightarrow> answered (pr_server s) \<and> pr_shutdown s = Closed)"
proof -
  have "\<not> accepting v \<longleftrightarrow> pr_shutdown v \<in> {Stopping, StopReturned, Closed}" for v
    by (cases "pr_shutdown v") (simp_all add: accepting_def)
  moreover have "to_do s = 0 \<longleftrightarrow> answered (pr_server s) \<and> pr_shutdown s = Closed"
    by (cases "pr_shutdown s") (auto simp: to_do_def answered_def call_left_0)
  ultimately show ?thesis using to_do_progress [of s env] to_do_step [of env s u] by blast
qed

end
