(* ===== verification/Fleet.thy ===== *)
theory Fleet
  imports Wire Collector_Concurrent Lifecycle
begin

text \<open>
  Collectors and processors together: any number of nodes as in \<open>Collector_Concurrent\<close>
  report to any number of processor replicas as in \<open>Lifecycle\<close>. What joins them is the
  \<open>Report\<close> call in \<open>send\<close> (\<open>internal/collector/sender.go\<close>): an attempt of a delivery
  reaches at most one accepting replica, which begins a call; the collector is told that the
  attempt succeeded only when that call has returned; at any time before, it may see an error
  instead (a timeout, a lost connection) and try again, while the first call goes on at the
  replica. Every other step is one of a single node or a single replica.
\<close>

section \<open>State and steps\<close>

record fleet =
  ft_nodes :: "node list"
  ft_procs :: "proc list"
  ft_call :: "nat \<Rightarrow> (nat \<times> nat) option"
    \<comment> \<open>for a node in \<open>client.Report\<close>, the replica its attempt reached and the call there\<close>
  g_acked :: "(nat \<times> nat \<times> nat) list"  \<comment> \<open>node, replica and call of each success\<close>

definition start_fleet :: "Collector list \<Rightarrow> Pipeline list \<Rightarrow> fleet" where
  "start_fleet cs ps =
     \<lparr>ft_nodes = map start_node cs, ft_procs = map start_processor ps, ft_call = (\<lambda>_. None), g_acked = []\<rparr>"

definition call_batch :: "proc list \<Rightarrow> nat \<Rightarrow> nat \<Rightarrow> FlowRecord list" where
  "call_batch ps j k = g_batches (pr_server (ps ! j)) ! k"

definition call_returned :: "proc list \<Rightarrow> nat \<Rightarrow> nat \<Rightarrow> bool" where
  "call_returned ps j k \<longleftrightarrow> fst (sv_calls (pr_server (ps ! j)) ! k) = Returned"

definition answered_ok :: "'a list \<Rightarrow> 'a Sender \<Rightarrow> 'a Sender" where
  \<comment> \<open>\<open>send\<close> after \<open>err == nil\<close>\<close>
  "answered_ok b s = s\<lparr>m_RecordsSent := m_RecordsSent s + length b, s_failing := False, s_worker := Idle\<rparr>"

inductive fleet_step ::
  "unicode_lower \<Rightarrow> 'p dns_parser \<Rightarrow> emit_env \<Rightarrow> fleet \<Rightarrow> fleet \<Rightarrow> bool" for uni P env where
  one_node: "\<lbrakk>i < length (ft_nodes s); node_step uni P (ft_nodes s ! i) v;
      m_RecordsSent (nd_sender v) = m_RecordsSent (nd_sender (ft_nodes s ! i))\<rbrakk> \<Longrightarrow>
     fleet_step uni P env s (s\<lparr>ft_nodes := (ft_nodes s)[i := v],
       ft_call := (ft_call s)(i :=
         if s_worker (nd_sender v) = s_worker (nd_sender (ft_nodes s ! i)) then ft_call s i else None)\<rparr>)"
| one_proc: "\<lbrakk>j < length (ft_procs s); proc_step env (ft_procs s ! j) q;
      g_batches (pr_server q) = g_batches (pr_server (ft_procs s ! j))\<rbrakk> \<Longrightarrow>
     fleet_step uni P env s (s\<lparr>ft_procs := (ft_procs s)[j := q]\<rparr>)"
| request: "\<lbrakk>i < length (ft_nodes s); s_worker (nd_sender (ft_nodes s ! i)) = Calling b d; ft_call s i = None;
      j < length (ft_procs s); accepting (ft_procs s ! j)\<rbrakk> \<Longrightarrow>
     fleet_step uni P env s (s\<lparr>
       ft_procs := (ft_procs s)[j := (ft_procs s ! j)\<lparr>pr_server := accept_call b (pr_server (ft_procs s ! j))\<rparr>],
       ft_call := (ft_call s)(i := Some (j, length (sv_calls (pr_server (ft_procs s ! j)))))\<rparr>)"
| answer: "\<lbrakk>i < length (ft_nodes s); s_worker (nd_sender (ft_nodes s ! i)) = Calling b d; ft_call s i = Some (j, k);
      call_returned (ft_procs s) j k\<rbrakk> \<Longrightarrow>
     fleet_step uni P env s (s\<lparr>
       ft_nodes := (ft_nodes s)[i := with_sender (answered_ok b (nd_sender (ft_nodes s ! i))) (ft_nodes s ! i)],
       ft_call := (ft_call s)(i := None), g_acked := g_acked s @ [(i, j, k)]\<rparr>)"

inductive_cases fleet_stepE: "fleet_step uni P env s t"

section \<open>Facts about one side\<close>

lemma drain_sender: "drain ks v = (rs, u) \<Longrightarrow> nd_sender u = nd_sender v"
  by (frule drain_simps(2)) simp

lemma node_step_pushed: "node_step uni P v u \<Longrightarrow> set (g_pushed (nd_sender v)) \<subseteq> set (g_pushed (nd_sender u))"
proof (erule node_stepE, goal_cases)
  case (2 fs raw now r c)
  then show ?case using begin_event_same(3) [OF 2(3)] by simp
qed (use feed_step_pushed in \<open>auto simp: add_event_simps drain_sender\<close>)

lemma server_step_grows:
  assumes "server_step env v u"
  shows "\<exists>bs cs. g_batches u = g_batches v @ bs \<and> length (sv_calls u) = length (sv_calls v) + length bs"
    and "\<lbrakk>k < length (sv_calls v); fst (sv_calls v ! k) = Returned\<rbrakk> \<Longrightarrow> fst (sv_calls u ! k) = Returned"
  using assms
  by (auto simp: accept_call_def sweep_tick_def cache_becomes_def advance_simps nth_append nth_list_update elim!: server_stepE)

lemma proc_step_keeps:
  assumes "proc_step env p q" and "g_batches (pr_server q) = g_batches (pr_server p)"
  shows "length (sv_calls (pr_server q)) = length (sv_calls (pr_server p))"
    and "\<lbrakk>k < length (sv_calls (pr_server p)); fst (sv_calls (pr_server p) ! k) = Returned\<rbrakk> \<Longrightarrow> fst (sv_calls (pr_server q) ! k) = Returned"
  using proc_step_serves [OF assms(1)] server_step_grows assms(2) by fastforce+

lemma answered_ok_step:
  assumes "s_worker (nd_sender v) = Calling b d"
  shows "node_step uni P v (with_sender (answered_ok b (nd_sender v)) v)"
  using report_ok [OF assms] by (intro deliver) (simp_all add: answered_ok_def)

section \<open>Invariant\<close>

definition sides_inv ::
  "unicode_lower \<Rightarrow> 'p dns_parser \<Rightarrow> emit_env \<Rightarrow> Collector list \<Rightarrow> Pipeline list \<Rightarrow> fleet \<Rightarrow> bool" where
  \<comment> \<open>each side alone is one of its own runs\<close>
  "sides_inv uni P env cs ps s \<longleftrightarrow>
     length (ft_nodes s) = length cs \<and> length (ft_procs s) = length ps
     \<and> (\<forall>i < length cs. (node_step uni P)\<^sup>*\<^sup>* (start_node (cs ! i)) (ft_nodes s ! i))
     \<and> (\<forall>j < length ps. (proc_step env)\<^sup>*\<^sup>* (start_processor (ps ! j)) (ft_procs s ! j))"

definition known_call :: "fleet \<Rightarrow> nat \<Rightarrow> nat \<Rightarrow> bool" where
  "known_call s j k \<longleftrightarrow> j < length (ft_procs s) \<and> k < length (sv_calls (pr_server (ft_procs s ! j)))"

definition calls_inv :: "fleet \<Rightarrow> bool" where
  "calls_inv s \<longleftrightarrow>
     (\<forall>i j k. ft_call s i = Some (j, k) \<longrightarrow> i < length (ft_nodes s) \<and> known_call s j k
        \<and> (\<exists>d. s_worker (nd_sender (ft_nodes s ! i)) = Calling (call_batch (ft_procs s) j k) d)
        \<and> (\<forall>i'. ft_call s i' = Some (j, k) \<longrightarrow> i' = i) \<and> (j, k) \<notin> snd ` set (g_acked s))
     \<and> distinct (map snd (g_acked s))
     \<and> (\<forall>(i, j, k) \<in> set (g_acked s). i < length (ft_nodes s) \<and> known_call s j k \<and> call_returned (ft_procs s) j k
          \<and> call_batch (ft_procs s) j k \<in> set (g_pushed (nd_sender (ft_nodes s ! i))))"

definition sent_inv :: "fleet \<Rightarrow> bool" where
  "sent_inv s \<longleftrightarrow>
     (\<forall>i < length (ft_nodes s). m_RecordsSent (nd_sender (ft_nodes s ! i)) =
        (\<Sum>(i', j, k) \<leftarrow> filter (\<lambda>a. fst a = i) (g_acked s). length (call_batch (ft_procs s) j k)))
     \<and> (\<forall>j < length (ft_procs s). \<forall>b \<in> set (g_batches (pr_server (ft_procs s ! j))).
          \<exists>i < length (ft_nodes s). b \<in> set (g_pushed (nd_sender (ft_nodes s ! i))))"

lemma callsD:
  assumes "calls_inv s" and "ft_call s i = Some (j, k)"
  shows "i < length (ft_nodes s)" "known_call s j k"
    "\<exists>d. s_worker (nd_sender (ft_nodes s ! i)) = Calling (call_batch (ft_procs s) j k) d"
    "\<And>i'. ft_call s i' = Some (j, k) \<Longrightarrow> i' = i" "(j, k) \<notin> snd ` set (g_acked s)"
  using assms unfolding calls_inv_def by blast+

section \<open>Every step keeps the invariant\<close>

definition procs_grow :: "proc list \<Rightarrow> proc list \<Rightarrow> bool" where
  "procs_grow ps qs \<longleftrightarrow> length qs = length ps \<and> (\<forall>j < length ps. \<forall>k < length (sv_calls (pr_server (ps ! j))).
     k < length (sv_calls (pr_server (qs ! j))) \<and> call_batch qs j k = call_batch ps j k
     \<and> (call_returned ps j k \<longrightarrow> call_returned qs j k))"

definition nodes_grow :: "node list \<Rightarrow> node list \<Rightarrow> bool" where
  "nodes_grow vs us \<longleftrightarrow> length us = length vs
     \<and> (\<forall>i < length vs. set (g_pushed (nd_sender (vs ! i))) \<subseteq> set (g_pushed (nd_sender (us ! i))))"

lemma procs_grow_alone:
  assumes "j < length ps" and "proc_step env (ps ! j) q" and "g_batches (pr_server q) = g_batches (pr_server (ps ! j))"
  shows "procs_grow ps (ps[j := q])"
  using proc_step_keeps [OF assms(2,3)] assms(1,3)
  by (auto simp: procs_grow_def call_batch_def call_returned_def nth_list_update)

lemma procs_grow_call:
  assumes "j < length ps" and "events_inv (pr_server (ps ! j))"
  shows "procs_grow ps (ps[j := (ps ! j)\<lparr>pr_server := accept_call b (pr_server (ps ! j))\<rparr>])"
  using assms by (auto simp: procs_grow_def call_batch_def call_returned_def nth_list_update accept_call_def nth_append events_inv_def)

lemma nodes_grow_step: "\<lbrakk>i < length vs; node_step uni P (vs ! i) u\<rbrakk> \<Longrightarrow> nodes_grow vs (vs[i := u])"
  using node_step_pushed by (fastforce simp: nodes_grow_def nth_list_update)

lemma known_call_grow:
  "\<lbrakk>known_call s j k; procs_grow (ft_procs s) (ft_procs t)\<rbrakk> \<Longrightarrow>
     known_call t j k \<and> call_batch (ft_procs t) j k = call_batch (ft_procs s) j k
     \<and> (call_returned (ft_procs s) j k \<longrightarrow> call_returned (ft_procs t) j k)"
  by (auto simp: known_call_def procs_grow_def)

lemma procs_grow_refl: "procs_grow ps ps"
  by (simp add: procs_grow_def)

lemma nodes_grow_refl: "nodes_grow vs vs"
  by (simp add: nodes_grow_def)

lemma acked_grow:
  assumes "calls_inv s" and "procs_grow (ft_procs s) (ft_procs t)" and "nodes_grow (ft_nodes s) (ft_nodes t)"
    and "(i, j, k) \<in> set (g_acked s)"
  shows "i < length (ft_nodes t) \<and> known_call t j k \<and> call_returned (ft_procs t) j k
    \<and> call_batch (ft_procs t) j k = call_batch (ft_procs s) j k
    \<and> call_batch (ft_procs t) j k \<in> set (g_pushed (nd_sender (ft_nodes t ! i)))"
proof -
  have a: "i < length (ft_nodes s)" "known_call s j k" "call_returned (ft_procs s) j k"
    "call_batch (ft_procs s) j k \<in> set (g_pushed (nd_sender (ft_nodes s ! i)))"
    using assms(1,4) unfolding calls_inv_def by blast+
  with known_call_grow [OF a(2) assms(2)] assms(3) show ?thesis by (auto simp: nodes_grow_def)
qed

lemma sent_sum_grow:
  fixes s t :: fleet
  assumes "calls_inv s" and "procs_grow (ft_procs s) (ft_procs t)"
  shows "(\<Sum>(i', j, k) \<leftarrow> filter (\<lambda>a. fst a = i) (g_acked s). length (call_batch (ft_procs t) j k))
    = (\<Sum>(i', j, k) \<leftarrow> filter (\<lambda>a. fst a = i) (g_acked s). length (call_batch (ft_procs s) j k))"
proof (rule arg_cong [where f = sum_list], rule map_cong [OF refl])
  fix a
  assume "a \<in> set (filter (\<lambda>a. fst a = i) (g_acked s))"
  moreover obtain i' j k where a: "a = (i', j, k)" by (metis prod_cases3)
  ultimately have "(i', j, k) \<in> set (g_acked s)" by auto
  then have "known_call s j k" using assms(1) unfolding calls_inv_def by blast
  from known_call_grow [OF this assms(2)] a
  show "(case a of (i', j, k) \<Rightarrow> length (call_batch (ft_procs t) j k)) = (case a of (i', j, k) \<Rightarrow> length (call_batch (ft_procs s) j k))"
    by simp
qed

lemma calls_inv_grow:
  assumes inv: "calls_inv s" and grow: "procs_grow (ft_procs s) (ft_procs t)" "nodes_grow (ft_nodes s) (ft_nodes t)"
    and same: "g_acked t = g_acked s"
    and calls: "\<And>i j k. ft_call t i = Some (j, k) \<Longrightarrow> ft_call s i = Some (j, k)
        \<and> s_worker (nd_sender (ft_nodes t ! i)) = s_worker (nd_sender (ft_nodes s ! i))"
  shows "calls_inv t"
proof -
  have "i < length (ft_nodes t) \<and> known_call t j k
        \<and> (\<exists>d. s_worker (nd_sender (ft_nodes t ! i)) = Calling (call_batch (ft_procs t) j k) d)
        \<and> (\<forall>i'. ft_call t i' = Some (j, k) \<longrightarrow> i' = i) \<and> (j, k) \<notin> snd ` set (g_acked t)"
    if c: "ft_call t i = Some (j, k)" for i j k
  proof -
    note c' = calls [OF c]
    then have s: "i < length (ft_nodes s)" "known_call s j k"
      "\<exists>d. s_worker (nd_sender (ft_nodes s ! i)) = Calling (call_batch (ft_procs s) j k) d"
      "\<forall>i'. ft_call s i' = Some (j, k) \<longrightarrow> i' = i" "(j, k) \<notin> snd ` set (g_acked s)"
      using inv unfolding calls_inv_def by blast+
    with known_call_grow [OF s(2) grow(1)] c' calls grow(2) same show ?thesis by (auto simp: nodes_grow_def)
  qed
  moreover have "distinct (map snd (g_acked t))" using inv same by (simp add: calls_inv_def)
  moreover have "\<forall>(i, j, k) \<in> set (g_acked t). i < length (ft_nodes t) \<and> known_call t j k \<and> call_returned (ft_procs t) j k
      \<and> call_batch (ft_procs t) j k \<in> set (g_pushed (nd_sender (ft_nodes t ! i)))"
    using acked_grow [OF inv grow] unfolding same by blast
  ultimately show ?thesis unfolding calls_inv_def by blast
qed

lemma sent_inv_grow:
  assumes inv: "sent_inv s" "calls_inv s" and grow: "procs_grow (ft_procs s) (ft_procs t)" "nodes_grow (ft_nodes s) (ft_nodes t)"
    and same: "g_acked t = g_acked s"
    and sent: "\<And>i. i < length (ft_nodes s) \<Longrightarrow>
        m_RecordsSent (nd_sender (ft_nodes t ! i)) = m_RecordsSent (nd_sender (ft_nodes s ! i))"
    and batches: "\<And>j b. \<lbrakk>j < length (ft_procs s); b \<in> set (g_batches (pr_server (ft_procs t ! j)))\<rbrakk> \<Longrightarrow>
        b \<in> set (g_batches (pr_server (ft_procs s ! j))) \<or> (\<exists>i < length (ft_nodes s). b \<in> set (g_pushed (nd_sender (ft_nodes s ! i))))"
  shows "sent_inv t"
proof -
  have len: "length (ft_nodes t) = length (ft_nodes s)" "length (ft_procs t) = length (ft_procs s)"
    using grow by (simp_all add: nodes_grow_def procs_grow_def)
  have "\<exists>i < length (ft_nodes t). b \<in> set (g_pushed (nd_sender (ft_nodes t ! i)))"
    if "j < length (ft_procs t)" "b \<in> set (g_batches (pr_server (ft_procs t ! j)))" for j b
  proof -
    have "\<exists>i < length (ft_nodes s). b \<in> set (g_pushed (nd_sender (ft_nodes s ! i)))"
      using batches [of j b] that inv(1) len unfolding sent_inv_def by metis
    with grow(2) len show ?thesis by (auto simp: nodes_grow_def)
  qed
  moreover have "m_RecordsSent (nd_sender (ft_nodes t ! i)) =
      (\<Sum>(i', j, k) \<leftarrow> filter (\<lambda>a. fst a = i) (g_acked t). length (call_batch (ft_procs t) j k))"
    if "i < length (ft_nodes t)" for i
    using that inv(1) sent len sent_sum_grow [OF inv(2) grow(1), of i] by (simp add: sent_inv_def same)
  ultimately show ?thesis unfolding sent_inv_def by blast
qed

lemma calls_inv_acked:
  assumes inv: "calls_inv (t\<lparr>g_acked := as\<rparr>)" and acked: "g_acked t = as @ [a]" and fresh: "snd a \<notin> snd ` set as"
    and other: "\<And>i j k. ft_call t i = Some (j, k) \<Longrightarrow> (j, k) \<noteq> snd a"
    and new: "case a of (i, j, k) \<Rightarrow> i < length (ft_nodes t) \<and> known_call t j k \<and> call_returned (ft_procs t) j k
        \<and> call_batch (ft_procs t) j k \<in> set (g_pushed (nd_sender (ft_nodes t ! i)))"
  shows "calls_inv t"
proof -
  have known: "known_call (t\<lparr>g_acked := as\<rparr>) = known_call t" by (simp add: known_call_def fun_eq_iff)
  have d: "distinct (map snd (g_acked t))" using inv fresh by (simp add: calls_inv_def acked)
  have f: "ft_call t i = Some (j, k) \<longrightarrow> i < length (ft_nodes t) \<and> known_call t j k
        \<and> (\<exists>d. s_worker (nd_sender (ft_nodes t ! i)) = Calling (call_batch (ft_procs t) j k) d)
        \<and> (\<forall>i'. ft_call t i' = Some (j, k) \<longrightarrow> i' = i) \<and> (j, k) \<notin> snd ` set (g_acked t)" for i j k
    using callsD [OF inv, of i j k] other [of i j k] by (auto simp: acked known)
  have a: "\<forall>(i, j, k) \<in> set (g_acked t). i < length (ft_nodes t) \<and> known_call t j k \<and> call_returned (ft_procs t) j k
      \<and> call_batch (ft_procs t) j k \<in> set (g_pushed (nd_sender (ft_nodes t ! i)))"
    using inv new by (simp add: calls_inv_def acked known)
  show ?thesis using d f a unfolding calls_inv_def by blast
qed

lemma sides_inv_step:
  assumes "fleet_step uni P env s t" and "sides_inv uni P env cs ps s"
  shows "sides_inv uni P env cs ps t"
  using assms
proof (elim fleet_stepE, goal_cases)
  case (1 i v)
  then show ?case by (auto simp: sides_inv_def nth_list_update intro: rtranclp.rtrancl_into_rtrancl)
next
  case (2 j q)
  then show ?case by (auto simp: sides_inv_def nth_list_update intro: rtranclp.rtrancl_into_rtrancl)
next
  case (3 i b d j)
  then show ?case by (auto simp: sides_inv_def nth_list_update intro: rtranclp.rtrancl_into_rtrancl call)
next
  case (4 i b d j k)
  then show ?case
    by (auto simp: sides_inv_def nth_list_update intro: rtranclp.rtrancl_into_rtrancl answered_ok_step)
qed

definition fleet_inv ::
  "unicode_lower \<Rightarrow> 'p dns_parser \<Rightarrow> emit_env \<Rightarrow> Collector list \<Rightarrow> Pipeline list \<Rightarrow> fleet \<Rightarrow> bool" where
  "fleet_inv uni P env cs ps s \<longleftrightarrow> sides_inv uni P env cs ps s \<and> calls_inv s \<and> sent_inv s"

lemma sides_node:
  assumes "sides_inv uni P env cs ps s" and "\<forall>c \<in> set cs. node_inv (start_node c)" and "i < length (ft_nodes s)"
  shows "node_inv (ft_nodes s ! i)"
  using assms node_reaches [of uni P "start_node (cs ! i)"] by (auto simp: sides_inv_def)

lemma sides_server:
  assumes "sides_inv uni P env cs ps s" and "j < length (ft_procs s)"
  shows "(server_step env)\<^sup>*\<^sup>* (serving (ps ! j)) (pr_server (ft_procs s ! j))"
  using assms proc_serves by (auto simp: sides_inv_def)

lemma fleet_step_inv:
  assumes step: "fleet_step uni P env s t" and inv: "fleet_inv uni P env cs ps s"
    and fresh: "\<forall>c \<in> set cs. node_inv (start_node c)"
  shows "fleet_inv uni P env cs ps t"
proof -
  have sides: "sides_inv uni P env cs ps s" and c: "calls_inv s" and snt: "sent_inv s" using inv by (auto simp: fleet_inv_def)
  have "calls_inv t \<and> sent_inv t"
    using step
  proof (elim fleet_stepE, goal_cases)
    case (1 i v)
    note grow = nodes_grow_step [OF 1(2,3)]
    have calls: "calls_inv t"
      by (rule calls_inv_grow [OF c]) (use 1 grow in \<open>auto simp: procs_grow_refl nth_list_update split: if_splits\<close>)
    have "sent_inv t"
      by (rule sent_inv_grow [OF snt c]) (use 1 grow in \<open>auto simp: procs_grow_refl nth_list_update\<close>)
    with calls show ?case ..
  next
    case (2 j q)
    note grow = procs_grow_alone [OF 2(2-4)]
    have calls: "calls_inv t"
      by (rule calls_inv_grow [OF c]) (use 2 grow in \<open>auto simp: nodes_grow_refl\<close>)
    have "sent_inv t"
      by (rule sent_inv_grow [OF snt c]) (use 2 grow in \<open>auto simp: nodes_grow_refl nth_list_update split: if_splits\<close>)
    with calls show ?case ..
  next
    case (3 i b d j)
    let ?q = "pr_server (ft_procs s ! j)" and ?u = "t\<lparr>ft_call := ft_call s\<rparr>"
    have e: "events_inv ?q" using server_reaches [OF sides_server [OF sides 3(5)]] by blast
    note grow = procs_grow_call [OF 3(5) e, of b]
    have w: "worker_ok (nd_sender (ft_nodes s ! i))" using sides_node [OF sides fresh 3(2)] by (simp add: node_inv_def feeding_inv_def)
    have u: "calls_inv ?u"
      by (rule calls_inv_grow [OF c]) (use 3 grow in \<open>auto simp: nodes_grow_refl\<close>)
    have new: "known_call t j (length (sv_calls ?q))" "call_batch (ft_procs t) j (length (sv_calls ?q)) = b"
      using 3 e by (auto simp: known_call_def call_batch_def accept_call_def events_inv_def nth_append)
    have old: "\<not> known_call s j (length (sv_calls ?q))" by (simp add: known_call_def)
    have "sent_inv t"
    proof (rule sent_inv_grow [OF snt c])
      fix j' b'
      assume "j' < length (ft_procs s)" "b' \<in> set (g_batches (pr_server (ft_procs t ! j')))"
      then show "b' \<in> set (g_batches (pr_server (ft_procs s ! j'))) \<or>
          (\<exists>i < length (ft_nodes s). b' \<in> set (g_pushed (nd_sender (ft_nodes s ! i))))"
        using 3 w by (auto simp: nth_list_update accept_call_def worker_ok_def split: if_splits)
    qed (use 3 grow in \<open>auto simp: nodes_grow_refl\<close>)
    moreover have "calls_inv t"
    proof -
      have "(j, length (sv_calls ?q)) \<notin> snd ` set (g_acked s)" using c old unfolding calls_inv_def by force
      moreover have "ft_call s i' \<noteq> Some (j, length (sv_calls ?q))" for i' using c old unfolding calls_inv_def by blast
      ultimately show ?thesis
        using u 3 new unfolding calls_inv_def by (auto simp: known_call_def)
    qed
    ultimately show ?case by blast
  next
    case (4 i b d j k)
    let ?v = "with_sender (answered_ok b (nd_sender (ft_nodes s ! i))) (ft_nodes s ! i)"
    have grow: "nodes_grow (ft_nodes s) (ft_nodes t)" "ft_procs t = ft_procs s"
      using nodes_grow_step [OF 4(2) answered_ok_step [OF 4(3)]] 4(1) by auto
    have w: "worker_ok (nd_sender (ft_nodes s ! i))" using sides_node [OF sides fresh 4(2)] by (simp add: node_inv_def feeding_inv_def)
    have k: "known_call s j k" "call_batch (ft_procs s) j k = b" "(j, k) \<notin> snd ` set (g_acked s)"
      "\<And>i'. ft_call s i' = Some (j, k) \<Longrightarrow> i' = i"
      using callsD [OF c 4(4)] 4(3) by auto
    have b: "b \<in> set (g_pushed (nd_sender (ft_nodes s ! i)))" using w 4(3) by (auto simp: worker_ok_def)
    let ?u = "t\<lparr>g_acked := g_acked s\<rparr>"
    have u: "calls_inv ?u"
      by (rule calls_inv_grow [OF c]) (use 4 grow in \<open>auto simp: procs_grow_refl nth_list_update split: if_splits\<close>)
    have bt: "b \<in> set (g_pushed (nd_sender (ft_nodes t ! i)))" using b grow(1) 4(2) by (auto simp: nodes_grow_def)
    have kt: "known_call t j k" using k(1) grow(2) by (simp add: known_call_def)
    have other: "(j', k') \<noteq> (j, k)" if "ft_call t i' = Some (j', k')" for i' j' k'
      using that k(4) [of i'] 4(1) by (auto split: if_splits)
    have new: "i < length (ft_nodes t) \<and> known_call t j k \<and> call_returned (ft_procs t) j k
        \<and> call_batch (ft_procs t) j k \<in> set (g_pushed (nd_sender (ft_nodes t ! i)))"
      using 4(1,2,5) kt bt k(2) grow(2) by simp
    have "calls_inv t" by (rule calls_inv_acked [OF u, of "(i, j, k)"]) (use 4(1) k(3) other new in auto)
    moreover have "sent_inv t"
      using snt 4(2) k(2) unfolding sent_inv_def 4(1)
      by (auto simp: nth_list_update answered_ok_def with_sender_def) blast
    ultimately show ?case by blast
  qed
  with sides_inv_step [OF step sides] show ?thesis by (simp add: fleet_inv_def)
qed

lemma fleet_inv_start:
  assumes "\<forall>c \<in> set cs. m_RecordsSent (col_sender c) = 0"
  shows "fleet_inv uni P env cs ps (start_fleet cs ps)"
  using assms
  by (auto simp: fleet_inv_def sides_inv_def calls_inv_def sent_inv_def start_fleet_def start_node_def start_processor_def serving_def)

definition set_up :: "Collector list \<Rightarrow> bool" where
  \<comment> \<open>each of the collectors has come out of \<open>runCollector\<close>'s preparation\<close>
  "set_up cs \<longleftrightarrow> (\<forall>c \<in> set cs. \<exists>fl grpc_ok ok open. setup_collector fl grpc_ok ok = (Inr c, open))"

lemma fleet_reaches:
  assumes "set_up cs" and "(fleet_step uni P env)\<^sup>*\<^sup>* (start_fleet cs ps) s"
  shows "fleet_inv uni P env cs ps s"
proof -
  have c: "node_inv (start_node c)" "m_RecordsSent (col_sender c) = 0" if "c \<in> set cs" for c
    using assms(1) that node_inv_setup setup_collector_fresh unfolding set_up_def by blast+
  from assms(2) show ?thesis
  proof (induction rule: rtranclp_induct)
    case base
    show ?case by (rule fleet_inv_start) (use c in blast)
  next
    case (step s t)
    then show ?case using fleet_step_inv c(1) by blast
  qed
qed

section \<open>Where a record on the wire comes from\<close>

lemma drained_record_read:
  assumes inv: "node_inv v" and order: "order_inv v" and r: "r \<in> set (drained_records v)"
  obtains raw ev k f where "raw \<in> set (g_reads v)" "Decode raw = Inr ev" "\<not> node_local (Canonical ev)"
    "r = flow_record k f" "reportable k" "k_src k = SrcIP (Canonical ev)" "k_dst k = DstIP (Canonical ev)"
    "k_dstPort k = DstPort (Canonical ev)" "k_proto k = Protocol (Canonical ev)" "k_outbound k = Outbound (Canonical ev)"
proof -
  obtain es rs where e: "(es, rs) \<in> set (g_drained v)" "r \<in> set rs" using r by (auto simp: drained_records_def)
  then have "flushed_by es rs" using inv by (auto simp: node_inv_def events_seen_def)
  then have "set rs = {flow_record k f | k f. summary (of_key k es) = Some f}"
    unfolding flushed_by_def using drain_summary by blast
  then obtain k f where k: "r = flow_record k f" "summary (of_key k es) = Some f" using e(2) by blast
  then obtain x where x: "x \<in> set es" "flow_key (snd x) = k" by (auto simp: summary_def of_key_def filter_empty_conv split: if_splits)
  let ?e = "snd x"
  have t: "?e \<in> set (taken v)" using x(1) e(1) by (force simp: taken_def added_def)
  then have "bare ?e \<in> set (map bare (taken v))" by simp
  then have "bare ?e \<in> set (concat (map accepted_event (g_reads v)))" using order unfolding order_inv_def by metis
  then obtain raw where raw: "raw \<in> set (g_reads v)" "bare ?e \<in> set (accepted_event raw)" by auto
  then obtain ev where ev: "Decode raw = Inr ev" "\<not> node_local (Canonical ev)" "bare ?e = Canonical ev"
    by (cases "Decode raw") (auto simp: accepted_event_def split: if_splits)
  have same: "SrcIP ?e = SrcIP (Canonical ev)" "DstIP ?e = DstIP (Canonical ev)" "DstPort ?e = DstPort (Canonical ev)"
    "Protocol ?e = Protocol (Canonical ev)" "Outbound ?e = Outbound (Canonical ev)"
    unfolding ev(3) [symmetric] by simp_all
  have "Outbound ?e \<or> ?e = bare ?e" using order t unfolding order_inv_def by blast
  then have "Outbound ?e \<or> SrcPodUID ?e = []" using bare_simps(7) [of ?e] by metis
  then have "reportable (flow_key ?e)" by (rule reportable_same [OF ev(1,2) same(1,2)])
  with that [OF raw(1) ev(1,2) k(1)] x(2) same show thesis by (auto simp: flow_key_def)
qed

lemma pushed_drained:
  assumes "node_inv v" and "b \<in> set (g_pushed (nd_sender v))" and "r \<in> set b"
  shows "r \<in> set (drained_records v)"
proof -
  have "mset (concat (g_pushed (nd_sender v))) \<subseteq># mset (drained_records v)"
    using assms(1) unfolding node_inv_def feeding_inv_def by (metis mset_subset_eq_add_left)
  moreover have "r \<in> set (concat (g_pushed (nd_sender v)))" using assms(2,3) by auto
  ultimately show ?thesis by (metis mset_subset_eqD set_mset_mset)
qed

lemma fleet_node:
  assumes "set_up cs" and "fleet_inv uni P env cs ps s" and "i < length (ft_nodes s)"
  shows "node_inv (ft_nodes s ! i) \<and> order_inv (ft_nodes s ! i)"
proof -
  have sides: "sides_inv uni P env cs ps s" using assms(2) by (simp add: fleet_inv_def)
  have "\<forall>c \<in> set cs. node_inv (start_node c)" using assms(1) node_inv_setup unfolding set_up_def by blast
  moreover have "order_inv (ft_nodes s ! i)" using sides assms(3) order_reaches unfolding sides_inv_def by metis
  ultimately show ?thesis using sides_node [OF sides _ assms(3)] by blast
qed

lemma pushed_record_read:
  assumes "set_up cs" and "fleet_inv uni P env cs ps s" and "i < length (ft_nodes s)"
    and "b \<in> set (g_pushed (nd_sender (ft_nodes s ! i)))" and "r \<in> set b"
  obtains raw e ev where "raw \<in> set (g_reads (ft_nodes s ! i))" "Decode raw = Inr e" "\<not> node_local (Canonical e)"
    "toEvent r = Some ev" "SrcIP ev = SrcIP (Canonical e)" "DstIP ev = DstIP (Canonical e)" "DstPort ev = DstPort (Canonical e)"
    "Protocol ev = Protocol (Canonical e)" "Outbound ev = Outbound (Canonical e)"
proof -
  note v = fleet_node [OF assms(1-3)]
  from v obtain raw e k f where r: "raw \<in> set (g_reads (ft_nodes s ! i))" "Decode raw = Inr e" "\<not> node_local (Canonical e)"
    "r = flow_record k f" "reportable k" "k_src k = SrcIP (Canonical e)" "k_dst k = DstIP (Canonical e)"
    "k_dstPort k = DstPort (Canonical e)" "k_proto k = Protocol (Canonical e)" "k_outbound k = Outbound (Canonical e)"
    using drained_record_read [OF _ _ pushed_drained [OF _ assms(4,5)]] by metis
  have "wire_addr (k_src k)" "wire_addr (k_dst k)" "unmap (k_src k) = k_src k" "unmap (k_dst k) = k_dst k"
    using r(5) by (simp_all add: reportable_def)
  with toEvent_flow_record [of k f] that [OF r(1-3)] r(4,6-) show thesis by simp
qed

section \<open>The two sides' counts\<close>

lemma to_count_less: "to_count (fst (call_step env now c p)) \<le> to_count c"
  by (cases "(env, now, c, p)" rule: call_step.cases) (auto simp: Let_def split: option.split prod.split)

definition to_count_inv :: "server \<Rightarrow> bool" where
  "to_count_inv v \<longleftrightarrow> length (g_batches v) = length (sv_calls v)
     \<and> (\<forall>k < length (sv_calls v). to_count (sv_calls v ! k) \<le> length (g_batches v ! k))"

lemma to_count_inv_step: "\<lbrakk>server_step env v u; to_count_inv v\<rbrakk> \<Longrightarrow> to_count_inv u"
proof (erule server_stepE, goal_cases)
  case (2 i now)
  then show ?case using to_count_less [of env now "sv_calls v ! i" "sv_pipeline v"]
    by (auto simp: to_count_inv_def advance_simps nth_list_update intro: order_trans)
qed (auto simp: to_count_inv_def accept_call_def sweep_tick_def cache_becomes_def nth_append less_Suc_eq)

lemma to_count_inv_reaches: "(server_step env)\<^sup>*\<^sup>* (serving p) v \<Longrightarrow> to_count_inv v"
proof (induction rule: rtranclp_induct)
  case base
  show ?case by (simp add: to_count_inv_def serving_def)
qed (blast intro: to_count_inv_step)

lemma returned_counted:
  assumes "(server_step env)\<^sup>*\<^sup>* (serving p) v" and "total_records p = 0"
  shows "(\<Sum>k | k < length (sv_calls v) \<and> fst (sv_calls v ! k) = Returned. length (g_batches v ! k)) \<le> total_records (sv_pipeline v)"
proof -
  let ?n = "length (sv_calls v)" and ?b = "\<lambda>k. length (g_batches v ! k)" and ?c = "\<lambda>k. to_count (sv_calls v ! k)"
  have t: "to_count_inv v" by (rule to_count_inv_reaches [OF assms(1)])
  have none: "?c k = 0" if "fst (sv_calls v ! k) = Returned" for k using that by (cases "sv_calls v ! k") simp
  have "(\<Sum>k | k < ?n \<and> fst (sv_calls v ! k) = Returned. ?b k) + (\<Sum>k < ?n. ?c k) \<le> (\<Sum>k < ?n. ?b k)"
  proof -
    have "(\<Sum>k | k < ?n \<and> fst (sv_calls v ! k) = Returned. ?b k) = (\<Sum>k < ?n. if fst (sv_calls v ! k) = Returned then ?b k else 0)"
      by (simp add: sum.If_cases Int_def conj_commute)
    also have "\<dots> + (\<Sum>k < ?n. ?c k) = (\<Sum>k < ?n. (if fst (sv_calls v ! k) = Returned then ?b k else 0) + ?c k)"
      by (simp add: sum.distrib)
    also have "\<dots> \<le> (\<Sum>k < ?n. ?b k)" by (rule sum_mono) (use t none in \<open>auto simp: to_count_inv_def\<close>)
    finally show ?thesis .
  qed
  moreover have "total_records (sv_pipeline v) + (\<Sum>k < ?n. ?c k) = (\<Sum>k < ?n. ?b k)"
    using count_inv_reaches [OF assms] t
    by (simp add: count_inv_def to_count_inv_def sum_list_sum_nth atLeast0LessThan)
  ultimately show ?thesis by linarith
qed

lemma sum_by_node:
  fixes g :: "'a \<Rightarrow> nat" and n :: nat
  assumes "\<forall>a \<in> set as. f a < n"
  shows "(\<Sum>i < n. \<Sum>a \<leftarrow> filter (\<lambda>a. f a = i) as. g a) = (\<Sum>a \<leftarrow> as. g a)"
  using assms
proof (induction as)
  case (Cons a as)
  have "(\<Sum>i < n. \<Sum>x \<leftarrow> filter (\<lambda>x. f x = i) (a # as). g x)
      = (\<Sum>i < n. (if f a = i then g a else 0) + (\<Sum>x \<leftarrow> filter (\<lambda>x. f x = i) as. g x))"
    by (rule sum.cong) auto
  with Cons show ?case by (simp add: sum.distrib)
qed simp

lemma sent_counted:
  assumes inv: "fleet_inv uni P env cs ps s" and fresh: "\<forall>p \<in> set ps. total_records p = 0"
  shows "(\<Sum>v \<leftarrow> ft_nodes s. m_RecordsSent (nd_sender v)) \<le> (\<Sum>q \<leftarrow> ft_procs s. total_records (sv_pipeline (pr_server q)))"
proof -
  let ?g = "\<lambda>(j, k). length (call_batch (ft_procs s) j k)" and ?n = "length (ft_nodes s)" and ?m = "length (ft_procs s)"
  let ?R = "\<lambda>j. {k. k < length (sv_calls (pr_server (ft_procs s ! j))) \<and> call_returned (ft_procs s) j k}"
  have c: "calls_inv s" and st: "sent_inv s" and sides: "sides_inv uni P env cs ps s" using inv by (auto simp: fleet_inv_def)
  have a: "\<forall>a \<in> set (g_acked s). fst a < ?n" "snd ` set (g_acked s) \<subseteq> Sigma {..<?m} ?R" "distinct (map snd (g_acked s))"
    using c by (auto simp: calls_inv_def known_call_def)
  have "(\<Sum>v \<leftarrow> ft_nodes s. m_RecordsSent (nd_sender v)) = (\<Sum>i < ?n. m_RecordsSent (nd_sender (ft_nodes s ! i)))"
    by (simp add: sum_list_sum_nth atLeast0LessThan)
  also have "\<dots> = (\<Sum>i < ?n. \<Sum>a \<leftarrow> filter (\<lambda>a. fst a = i) (g_acked s). ?g (snd a))"
    using st by (intro sum.cong) (simp_all add: sent_inv_def split_def)
  also have "\<dots> = (\<Sum>x \<leftarrow> map snd (g_acked s). ?g x)" by (simp add: sum_by_node [OF a(1)] comp_def)
  also have "\<dots> = (\<Sum>x \<in> snd ` set (g_acked s). ?g x)" using sum_list_distinct_conv_sum_set [OF a(3)] by simp
  also have "\<dots> \<le> (\<Sum>x \<in> Sigma {..<?m} ?R. ?g x)" by (rule sum_mono2) (use a(2) in auto)
  also have "\<dots> = (\<Sum>j < ?m. \<Sum>k \<in> ?R j. length (call_batch (ft_procs s) j k))" by (subst sum.Sigma) auto
  also have "\<dots> \<le> (\<Sum>j < ?m. total_records (sv_pipeline (pr_server (ft_procs s ! j))))"
  proof (rule sum_mono)
    fix j
    assume "j \<in> {..<?m}"
    then have j: "j < ?m" "j < length ps" using sides by (auto simp: sides_inv_def)
    then have "total_records (ps ! j) = 0" using fresh by simp
    from returned_counted [OF sides_server [OF sides j(1)] this]
    show "(\<Sum>k \<in> ?R j. length (call_batch (ft_procs s) j k)) \<le> total_records (sv_pipeline (pr_server (ft_procs s ! j)))"
      by (simp add: call_returned_def call_batch_def)
  qed
  also have "\<dots> = (\<Sum>q \<leftarrow> ft_procs s. total_records (sv_pipeline (pr_server q)))" by (simp add: sum_list_sum_nth atLeast0LessThan)
  finally show ?thesis .
qed

section \<open>A delivery\<close>

text \<open>That the whole path can be gone: a record read by a collector that nobody disturbs
  reaches an accepting replica, which decides about it, and is acknowledged.\<close>

lemma node_step_sent: "node_step uni P v u \<Longrightarrow> m_RecordsSent (nd_sender v) \<le> m_RecordsSent (nd_sender u)"
proof (erule node_stepE, goal_cases)
  case (2 fs raw now r c)
  then show ?case using begin_event_same(3) [OF 2(3)] by simp
next
  case (19 t)
  then show ?case by (auto elim!: sender_stepE)
qed (auto simp: add_event_simps drain_sender dest: feed_step_same)

lemma node_run_sent: "(node_step uni P)\<^sup>*\<^sup>* v u \<Longrightarrow> m_RecordsSent (nd_sender v) \<le> m_RecordsSent (nd_sender u)"
  by (induction rule: rtranclp_induct) (auto dest: node_step_sent)

lemma server_run_batches: "(server_step env)\<^sup>*\<^sup>* v u \<Longrightarrow> prefix (g_batches v) (g_batches u)"
proof (induction rule: rtranclp_induct)
  case (step y z)
  then show ?case using server_step_grows(1) [OF step.hyps(2)] prefix_order.trans by fastforce
qed simp

lemma fleet_node_run:
  assumes "(node_step uni P)\<^sup>*\<^sup>* (ft_nodes s ! i) u" and "i < length (ft_nodes s)" and "ft_call s = (\<lambda>_. None)"
    and "m_RecordsSent (nd_sender u) = m_RecordsSent (nd_sender (ft_nodes s ! i))"
  shows "(fleet_step uni P env)\<^sup>*\<^sup>* s (s\<lparr>ft_nodes := (ft_nodes s)[i := u]\<rparr>)"
  using assms(1,4)
proof (induction rule: rtranclp_induct)
  case base
  then show ?case by simp
next
  case (step w u)
  let ?t = "s\<lparr>ft_nodes := (ft_nodes s)[i := w]\<rparr>"
  have same: "m_RecordsSent (nd_sender w) = m_RecordsSent (nd_sender (ft_nodes s ! i))"
    using node_run_sent [OF step.hyps(1)] node_step_sent [OF step.hyps(2)] step.prems by linarith
  have "fleet_step uni P env ?t (?t\<lparr>ft_nodes := (ft_nodes ?t)[i := u], ft_call := (ft_call ?t)(i :=
      if s_worker (nd_sender u) = s_worker (nd_sender (ft_nodes ?t ! i)) then ft_call ?t i else None)\<rparr>)"
    by (rule one_node) (use step same assms(2) in simp_all)
  moreover have "(ft_call ?t)(i := if s_worker (nd_sender u) = s_worker (nd_sender (ft_nodes ?t ! i)) then ft_call ?t i else None) = ft_call s"
    by (simp add: assms(3) fun_upd_idem)
  ultimately have "fleet_step uni P env ?t (s\<lparr>ft_nodes := (ft_nodes s)[i := u]\<rparr>)" by simp
  with step.IH [OF same] show ?case by (rule rtranclp.rtrancl_into_rtrancl)
qed

lemma fleet_proc_run:
  assumes "(server_step env)\<^sup>*\<^sup>* (pr_server (ft_procs s ! j)) u" and "j < length (ft_procs s)" and "accepting (ft_procs s ! j)"
    and "g_batches u = g_batches (pr_server (ft_procs s ! j))"
  shows "(fleet_step uni P env)\<^sup>*\<^sup>* s (s\<lparr>ft_procs := (ft_procs s)[j := (ft_procs s ! j)\<lparr>pr_server := u\<rparr>]\<rparr>)"
  using assms(1,4)
proof (induction rule: rtranclp_induct)
  case base
  then show ?case by simp
next
  case (step w u)
  let ?q = "\<lambda>x. (ft_procs s ! j)\<lparr>pr_server := x\<rparr>"
  let ?t = "s\<lparr>ft_procs := (ft_procs s)[j := ?q w]\<rparr>"
  have "prefix (g_batches w) (g_batches u)" by (rule server_run_batches [OF r_into_rtranclp [where r = "server_step env", OF step.hyps(2)]])
  then have same: "g_batches w = g_batches (pr_server (ft_procs s ! j))"
    using server_run_batches [OF step.hyps(1)] step.prems prefix_order.antisym by fastforce
  have "fleet_step uni P env ?t (?t\<lparr>ft_procs := (ft_procs ?t)[j := ?q u]\<rparr>)"
    by (rule one_proc) (use step same assms(2,3) accepting_server_step [of env w u "ft_procs s ! j"] in simp_all)
  then have "fleet_step uni P env ?t (s\<lparr>ft_procs := (ft_procs s)[j := ?q u]\<rparr>)" by simp
  with step.IH [OF same] show ?case by (rule rtranclp.rtrancl_into_rtrancl)
qed

lemma node_adds:
  assumes "Decode raw = Inr e" and "\<not> node_local (Canonical e)" and "col_agg c = NewAggregator"
  obtains v ev where "(node_step uni P)\<^sup>*\<^sup>* (start_node c) v" "SrcIP ev = SrcIP (Canonical e)" "DstIP ev = DstIP (Canonical e)"
    "Outbound ev = Outbound e" "reportable (flow_key ev)" "nd_loop v = AtTick" "nd_sender v = col_sender c"
    "col_cfg (nd_core v) = col_cfg c" "col_agg (nd_core v) = snd (Aggregator_Add ev 0 NewAggregator)" "g_reads v = [raw]"
proof -
  let ?v = "start_node c"
  obtain ev c' where at: "attribute_source uni (\<lambda>_. None) (Canonical e) 0 (nd_core ?v) = (ev, c')" by (metis surj_pair)
  let ?n = "?v\<lparr>nd_core := c', nd_run := AtCount ev 0, g_reads := g_reads ?v @ [raw]\<rparr>"
  let ?k = "?n\<lparr>nd_core := count_event resultAccepted c', nd_run := AtAdd ev 0\<rparr>"
  have "(node_step uni P)\<^sup>*\<^sup>* ?v ?n"
    by (rule node_run_named [OF _ assms(1,2) at]) (simp add: start_node_def)
  moreover have "node_step uni P ?n ?k" using count_accepted [of ?n ev 0 uni P] by simp
  moreover have "node_step uni P ?k (add_event ev 0 ?k)" by (rule add) simp
  ultimately have run: "(node_step uni P)\<^sup>*\<^sup>* ?v (add_event ev 0 ?k)" by (meson rtranclp.rtrancl_into_rtrancl)
  note same = attribute_source_simps(1-3) [of uni "\<lambda>_. None" "Canonical e" 0 "nd_core ?v", unfolded at snd_conv]
  note ev = attribute_source_event [where uni = uni and fs = "\<lambda>_. None" and ev = "Canonical e" and now = 0 and c = "nd_core ?v", unfolded at fst_conv]
  have "Outbound (Canonical e) = Outbound e" by (simp add: Canonical_def)
  with same ev assms(3) show thesis
    by (intro that [OF run, of ev] reportable_accepted [OF assms(1,2) at]) (simp_all add: add_event_simps start_node_def)
qed

lemma node_calls:
  assumes set_up: "setup_collector fl grpc_ok ok = (Inr c, open)" and raw: "Decode raw = Inr e" "\<not> node_local (Canonical e)"
  obtains v r ev where "(node_step uni P)\<^sup>*\<^sup>* (start_node c) v" "s_worker (nd_sender v) = Calling [r] minBackoff"
    "m_RecordsSent (nd_sender v) = 0" "g_reads v = [raw]" "toEvent r = Some ev" "Outbound ev = Outbound e"
proof -
  note c = setup_collector_fresh [OF set_up]
  have inv: "0 < MaxBatch (col_cfg c)" "0 < s_cap (col_sender c)" "sender_inv (col_sender c)"
    using setup_collector_inv [OF set_up] by (simp_all add: collector_inv_def)
  have q: "s_queue (col_sender c) = []" using inv(3) c by (simp add: sender_inv_def)
  obtain v ev where v: "(node_step uni P)\<^sup>*\<^sup>* (start_node c) v" "Outbound ev = Outbound e" "reportable (flow_key ev)"
    "nd_loop v = AtTick" "nd_sender v = col_sender c" "col_cfg (nd_core v) = col_cfg c"
    "col_agg (nd_core v) = snd (Aggregator_Add ev 0 NewAggregator)" "g_reads v = [raw]"
    using node_adds [OF raw, of c] c by metis
  obtain rs w where d: "drain [flow_key ev] v = (rs, w)" by (metis surj_pair)
  note w = drain_simps [OF d]
  have flows: "\<exists>f. a_flows (col_agg (nd_core v)) = fmupd (flow_key ev) f fmempty"
    by (simp add: v(7) Aggregator_Add_def NewAggregator_def Let_def) (rule exI, rule refl)
  then obtain f where f: "rs = [flow_record (flow_key ev) f]"
    by (auto simp: w(1) Aggregator_Drain_def)
  let ?r = "flow_record (flow_key ev) f" and ?s = "col_sender c" and ?mb = "MaxBatch (col_cfg c)"
  let ?u = "?s\<lparr>s_producers := add_mset (Pushing [?r]) (s_producers ?s), g_offered := g_offered ?s + 1\<rparr>"
  let ?x = "(chan_push [?r] ?u)\<lparr>s_producers := s_producers ?u - {#Pushing [?r]#}\<rparr>"
  let ?y = "?x\<lparr>s_queue := [], m_QueueDepth := 0, s_worker := Calling [?r] minBackoff\<rparr>"
  let ?w = "w\<lparr>nd_loop := Flushing (Rest [?r])\<rparr>"
  let ?w1 = "(with_sender ?u ?w)\<lparr>nd_loop := Flushing (Offer (Pushing [?r]) [])\<rparr>"
  let ?w2 = "(with_sender ?x ?w1)\<lparr>nd_loop := Flushing (Rest [])\<rparr>"
  have one: "nat (min 1 ?mb) = 1" using inv(1) by simp
  have "key_order (a_flows (col_agg (nd_core v))) [flow_key ev]" using flows by (auto simp: key_order_def)
  then have "node_step uni P v ?w" using node_step.tick [OF v(4) _ d] f by simp
  moreover have "feed_step ?mb (Rest [?r], ?s) (Offer (Pushing [?r]) [], ?u)"
    using feed_call [of "[?r]" ?mb 1 ?s] inv(1) one by simp
  then have "node_step uni P ?w ?w1"
    using v(5,6) w(2) by (intro loop_feed [where f = "Rest [?r]"]) simp_all
  moreover have "feed_step ?mb (Offer (Pushing [?r]) [], ?u) (Rest [], ?x)"
    by (rule feed_push) (simp add: q inv(2))
  then have "node_step uni P ?w1 ?w2"
    using v(5,6) w(2) by (intro loop_feed [where f = "Offer (Pushing [?r]) []"]) (simp_all add: with_sender_def)
  moreover have "sender_step ?x ?y"
    using run_recv [of ?x "[?r]" "[]"] c q by (simp add: chan_push_def)
  then have "node_step uni P ?w2 (with_sender ?y ?w2)"
    by (intro deliver) (simp_all add: with_sender_def)
  ultimately have run: "(node_step uni P)\<^sup>*\<^sup>* (start_node c) (with_sender ?y ?w2)"
    using v(1) by (meson rtranclp.rtrancl_into_rtrancl)
  obtain ev' where "toEvent ?r = Some ev'" "Outbound ev' = Outbound e"
    using toEvent_reportable [OF v(3), of f] v(2,3) toEvent_flow_record [of "flow_key ev" f]
    by (auto simp: reportable_def flow_key_def)
  with c v(8) w(2) show thesis
    by (intro that [OF run, of ?r ev']) (simp_all add: with_sender_def chan_push_def)
qed

lemma one_delivery:
  assumes set_up: "setup_collector fl grpc_ok ok = (Inr c, open)" and raw: "Decode raw = Inr e" "\<not> node_local (Canonical e)" "Outbound e"
  obtains s r ev where "(fleet_step uni P env)\<^sup>*\<^sup>* (start_fleet [c] [sample_pipeline]) s" "g_acked s = [(0, 0, 0)]"
    "length (ft_procs s) = 1" "length (ft_nodes s) = 1" "g_reads (ft_nodes s ! 0) = [raw]"
    "m_RecordsSent (nd_sender (ft_nodes s ! 0)) = 1"
    "g_sent (pr_server (ft_procs s ! 0)) = [(enriched sample_pipeline ev, LoggerSink)]"
proof -
  let ?p = sample_pipeline and ?s0 = "start_fleet [c] [sample_pipeline]"
  obtain v r ev where v: "(node_step uni P)\<^sup>*\<^sup>* (start_node c) v" "s_worker (nd_sender v) = Calling [r] minBackoff"
    "m_RecordsSent (nd_sender v) = 0" "g_reads v = [raw]" "toEvent r = Some ev" "Outbound ev = Outbound e"
    by (rule node_calls [OF set_up raw(1,2)])
  let ?s1 = "?s0\<lparr>ft_nodes := [v]\<rparr>"
  have s0: "ft_nodes ?s0 = [start_node c]" "ft_procs ?s0 = [start_processor ?p]" "ft_call ?s0 = (\<lambda>_. None)" "g_acked ?s0 = []"
    by (simp_all add: start_fleet_def)
  have run1: "(fleet_step uni P env)\<^sup>*\<^sup>* ?s0 ?s1"
    using fleet_node_run [of uni P ?s0 0 v env] v(1,3) setup_collector_fresh [OF set_up] by (simp add: s0 start_node_def)
  let ?a = "accept_call [r] (serving ?p)" and ?q = "start_processor ?p"
  let ?s2 = "?s1\<lparr>ft_procs := [?q\<lparr>pr_server := ?a\<rparr>], ft_call := (\<lambda>_. None)(0 := Some (0, 0))\<rparr>"
  have q: "accepting ?q" "pr_server ?q = serving ?p" by (simp_all add: accepting_def start_processor_def)
  have run2: "fleet_step uni P env ?s1 ?s2"
    using request [of 0 ?s1 "[r]" minBackoff 0 uni P env] v(2) q by (simp add: s0 serving_def)
  have pass: "passes q ev" if "pl_matcher q = None" for q
    using that v(6) raw(3) by (simp add: passes_def ShouldIgnoreCall_def ShouldIgnore_def)
  have a: "sv_calls ?a = [(Fetch, [r])]" "g_log ?a = []" "g_batches ?a = [[r]]" "pl_cache (sv_pipeline ?a) = pl_cache ?p"
    "pl_matcher (sv_pipeline ?a) = None"
    by (simp_all add: accept_call_def serving_def sample_pipeline_def NewPipeline_def)
  obtain b where b: "(server_step env)\<^sup>*\<^sup>* ?a b" "sv_calls b = [(Fetch, [])]" "g_log b = [Decided 0 ev (enriched ?p ev) 0]"
      "g_batches b = [[r]]"
    using server_record [of 0 ?a r "[]" env 0] a v(5) pass [OF a(5)] enriched_cong [OF a(4)] by auto
  obtain d where d: "(server_step env)\<^sup>*\<^sup>* b d" "sv_calls d = [(Returned, [])]" "g_log d = g_log b" "g_batches d = [[r]]"
    using server_finish [of 0 b env] b by auto
  have ad: "(server_step env)\<^sup>*\<^sup>* ?a d" using b(1) d(1) by simp
  let ?s3 = "?s2\<lparr>ft_procs := [?q\<lparr>pr_server := d\<rparr>]\<rparr>"
  have run3: "(fleet_step uni P env)\<^sup>*\<^sup>* ?s2 ?s3"
    using fleet_proc_run [of env ?s2 0 d uni P] ad d(4) a(3) q(1) by (simp add: accepting_def)
  let ?s4 = "?s3\<lparr>ft_nodes := [with_sender (answered_ok [r] (nd_sender v)) v], ft_call := (\<lambda>_. None), g_acked := [(0, 0, 0)]\<rparr>"
  have run4: "fleet_step uni P env ?s3 ?s4"
    using answer [of 0 ?s3 "[r]" minBackoff 0 0 uni P env] v(2) d(2) by (simp add: s0 call_returned_def fun_upd_idem)
  have run: "(fleet_step uni P env)\<^sup>*\<^sup>* ?s0 ?s4"
    using run1 run2 run3 run4 by (meson rtranclp.rtrancl_into_rtrancl rtranclp_trans)
  have "(server_step env)\<^sup>*\<^sup>* (serving ?p) d" using arrive [of env "serving ?p" "[r]"] ad by (rule converse_rtranclp_into_rtranclp)
  moreover have "answered d" by (simp add: answered_def d(2))
  ultimately have "mset (g_sent d) = mset (sends (pl_sink ?p) (decided_edges env (g_log d) ?p))" by (rule answered_settled)
  moreover have "decided_edges env (g_log d) ?p = [(0, enriched ?p ev)]"
    using pass [of ?p] by (simp add: d(3) b(3) passes_filters_def passes_def IsReversedDuplicate_def sample_pipeline_def NewPipeline_def
        Allow_def Dedup_New_def Let_def)
  ultimately have "g_sent d = [(enriched ?p ev, LoggerSink)]" by (simp add: sample_pipeline_def NewPipeline_def)
  with v(3,4) show thesis
    by (intro that [OF run]) (simp_all add: answered_ok_def with_sender_def)
qed

lemma sample_fleet:
  "\<exists>c (P :: nat dns_parser) s sc raw. set_up [c] \<and> (fleet_step id P env)\<^sup>*\<^sup>* (start_fleet [c] [sample_pipeline]) s
     \<and> g_acked s = [(0, 0, 0)] \<and> length (ft_nodes s) = 1 \<and> length (ft_procs s) = 1
     \<and> m_RecordsSent (nd_sender (ft_nodes s ! 0)) = 1 \<and> g_reads (ft_nodes s ! 0) = [raw]
     \<and> g_sent (pr_server (ft_procs s ! 0)) = [(sc, LoggerSink)]"
proof -
  let ?raw = "replicate 16 1 @ replicate 43 2 :: byte list" and ?fl = default_collector_flags
  obtain c "open" where c: "setup_collector ?fl True (\<lambda>_. True) = (Inr c, open)"
    by (simp add: setup_collector_def default_collector_flags_def Loader_New_def AttachDNS_def second_def Let_def)
  have "case Decode ?raw of Inl _ \<Rightarrow> False | Inr e \<Rightarrow> \<not> node_local (Canonical e) \<and> Outbound e" by code_simp
  then obtain e where e: "Decode ?raw = Inr e" "\<not> node_local (Canonical e)" "Outbound e" by (cases "Decode ?raw") auto
  obtain P :: "nat dns_parser" where "P = P" by blast
  have "set_up [c]" using c by (auto simp: set_up_def)
  with one_delivery [OF c e, of id P env] show ?thesis by metis
qed

section \<open>Properties\<close>

text \<open>C1. What a collector counts as sent has been handled. However collectors, processor
  replicas, retries and timeouts interleave: a collector's count of records sent is the number
  of records in the calls whose success it saw; no call is counted twice; each such call
  carried a batch this collector had queued, and the replica has decided about every record
  of it, in order; no record any replica receives is malformed. So the collectors' counts together
  never exceed the replicas' counts of records.\<close>

theorem acknowledged_handled:
  assumes "set_up cs" and "\<forall>p \<in> set ps. total_records p = 0" and "(fleet_step uni P env)\<^sup>*\<^sup>* (start_fleet cs ps) s"
  shows "(\<forall>i < length (ft_nodes s). m_RecordsSent (nd_sender (ft_nodes s ! i)) =
        (\<Sum>(i', j, k) \<leftarrow> filter (\<lambda>a. fst a = i) (g_acked s). length (g_batches (pr_server (ft_procs s ! j)) ! k)))
    \<and> (\<Sum>v \<leftarrow> ft_nodes s. m_RecordsSent (nd_sender v)) \<le> (\<Sum>q \<leftarrow> ft_procs s. total_records (sv_pipeline (pr_server q)))
    \<and> distinct (map snd (g_acked s))
    \<and> (\<forall>q \<in> set (ft_procs s). \<forall>r \<in> set (concat (g_batches (pr_server q))). toEvent r \<noteq> None)
    \<and> (\<forall>(i, j, k) \<in> set (g_acked s).
         g_batches (pr_server (ft_procs s ! j)) ! k \<in> set (g_pushed (nd_sender (ft_nodes s ! i)))
         \<and> events_of k (g_log (pr_server (ft_procs s ! j))) = map toEvent (g_batches (pr_server (ft_procs s ! j)) ! k))"
proof (intro conjI)
  have inv: "fleet_inv uni P env cs ps s" by (rule fleet_reaches [OF assms(1,3)])
  from sent_counted [OF this assms(2)]
  show "(\<Sum>v \<leftarrow> ft_nodes s. m_RecordsSent (nd_sender v)) \<le> (\<Sum>q \<leftarrow> ft_procs s. total_records (sv_pipeline (pr_server q)))" .
  from inv show "\<forall>i < length (ft_nodes s). m_RecordsSent (nd_sender (ft_nodes s ! i)) =
      (\<Sum>(i', j, k) \<leftarrow> filter (\<lambda>a. fst a = i) (g_acked s). length (g_batches (pr_server (ft_procs s ! j)) ! k))"
    unfolding fleet_inv_def sent_inv_def call_batch_def by blast
  have "toEvent r \<noteq> None" if r: "j < length (ft_procs s)" "b \<in> set (g_batches (pr_server (ft_procs s ! j)))" "r \<in> set b" for j b r
  proof -
    obtain i where "i < length (ft_nodes s)" "b \<in> set (g_pushed (nd_sender (ft_nodes s ! i)))"
      using inv r(1,2) unfolding fleet_inv_def sent_inv_def by blast
    from pushed_record_read [OF assms(1) inv this r(3)] show ?thesis by (metis option.distinct(1))
  qed
  then show "\<forall>q \<in> set (ft_procs s). \<forall>r \<in> set (concat (g_batches (pr_server q))). toEvent r \<noteq> None"
    by (metis UN_E in_set_conv_nth set_concat)
  have c: "calls_inv s" using inv by (simp add: fleet_inv_def)
  then show "distinct (map snd (g_acked s))" by (simp add: calls_inv_def)
  have "g_batches (pr_server (ft_procs s ! j)) ! k \<in> set (g_pushed (nd_sender (ft_nodes s ! i)))
       \<and> events_of k (g_log (pr_server (ft_procs s ! j))) = map toEvent (g_batches (pr_server (ft_procs s ! j)) ! k)"
    if a: "(i, j, k) \<in> set (g_acked s)" for i j k
  proof -
    have k: "i < length (ft_nodes s)" "known_call s j k" "call_returned (ft_procs s) j k"
      "call_batch (ft_procs s) j k \<in> set (g_pushed (nd_sender (ft_nodes s ! i)))"
      using c a unfolding calls_inv_def by blast+
    have "events_inv (pr_server (ft_procs s ! j))"
      using sides_server [of uni P env cs ps s j] inv k(2) server_reaches by (auto simp: fleet_inv_def known_call_def)
    then have "events_of k (g_log (pr_server (ft_procs s ! j))) = map toEvent (call_batch (ft_procs s) j k)"
      using k(2,3) by (cases "sv_calls (pr_server (ft_procs s ! j)) ! k")
        (force simp: events_inv_def known_call_def call_returned_def call_batch_def)
    with k(4) show ?thesis by (simp add: call_batch_def)
  qed
  then show "\<forall>(i, j, k) \<in> set (g_acked s).
       g_batches (pr_server (ft_procs s ! j)) ! k \<in> set (g_pushed (nd_sender (ft_nodes s ! i)))
       \<and> events_of k (g_log (pr_server (ft_procs s ! j))) = map toEvent (g_batches (pr_server (ft_procs s ! j)) ! k)"
    by blast
qed

theorem acknowledged_handled_witness:
  "\<exists>c (P :: nat dns_parser) s. set_up [c] \<and> (fleet_step id P sample_env)\<^sup>*\<^sup>* (start_fleet [c] [sample_pipeline]) s
     \<and> m_RecordsSent (nd_sender (ft_nodes s ! 0)) = 1 \<and> length (events_of 0 (g_log (pr_server (ft_procs s ! 0)))) = 1"
proof -
  obtain c e and P :: "nat dns_parser" where c: "set_up [c]" and s: "\<exists>s. (fleet_step id P sample_env)\<^sup>*\<^sup>* (start_fleet [c] [sample_pipeline]) s
      \<and> g_acked s = [(0, 0, 0)] \<and> length (ft_nodes s) = 1 \<and> m_RecordsSent (nd_sender (ft_nodes s ! 0)) = 1"
    using sample_fleet [where env = sample_env] by metis
  then obtain s where s: "(fleet_step id P sample_env)\<^sup>*\<^sup>* (start_fleet [c] [sample_pipeline]) s" "g_acked s = [(0, 0, 0)]"
    "length (ft_nodes s) = 1" "m_RecordsSent (nd_sender (ft_nodes s ! 0)) = 1" by blast
  have fresh: "\<forall>p \<in> set [sample_pipeline]. total_records p = 0"
    by (simp add: sample_pipeline_def NewPipeline_def total_records_def all_results_def)
  note a = acknowledged_handled [OF c fresh s(1)]
  from a s have "length (g_batches (pr_server (ft_procs s ! 0)) ! 0) = 1" by simp
  with a s have "length (events_of 0 (g_log (pr_server (ft_procs s ! 0)))) = 1" by simp
  with c s show ?thesis by blast
qed

text \<open>C2. No edge is made up. Whatever the interleaving, every edge a replica writes to a sink
  goes back to a record that the probe gave to some collector: it decoded, was not filtered
  as local to the node, and addresses, port, protocol and direction of the event the replica
  enriched are those of the record seen from the caller's side; the edge joins what the
  replica's cache held for that event, and passed its filters.\<close>

theorem edges_observed:
  assumes "set_up cs" and "(fleet_step uni P env)\<^sup>*\<^sup>* (start_fleet cs ps) s"
    and "j < length (ft_procs s)" and "(sc, k) \<in> set (g_sent (pr_server (ft_procs s ! j)))"
  shows "\<exists>i raw e ev. i < length (ft_nodes s) \<and> raw \<in> set (g_reads (ft_nodes s ! i))
    \<and> Decode raw = Inr e \<and> \<not> node_local (Canonical e)
    \<and> SrcIP ev = SrcIP (Canonical e) \<and> DstIP ev = DstIP (Canonical e) \<and> DstPort ev = DstPort (Canonical e)
    \<and> Protocol ev = Protocol (Canonical e) \<and> Outbound ev = Outbound (Canonical e)
    \<and> seen_in (g_caches (pr_server (ft_procs s ! j))) ev sc \<and> passes_filters (pl_matcher (ps ! j)) ev sc"
proof -
  have inv: "fleet_inv uni P env cs ps s" by (rule fleet_reaches [OF assms(1,2)])
  then have sides: "sides_inv uni P env cs ps s" by (simp add: fleet_inv_def)
  obtain l r ev where r: "l < length (g_batches (pr_server (ft_procs s ! j)))" "r \<in> set (g_batches (pr_server (ft_procs s ! j)) ! l)"
    "toEvent r = Some ev" "seen_in (g_caches (pr_server (ft_procs s ! j))) ev sc" "passes_filters (pl_matcher (ps ! j)) ev sc"
    by (rule sent_edge_decided [OF sides_server [OF sides assms(3)] assms(4)])
  then obtain i where i: "i < length (ft_nodes s)" "g_batches (pr_server (ft_procs s ! j)) ! l \<in> set (g_pushed (nd_sender (ft_nodes s ! i)))"
    using inv assms(3) nth_mem unfolding fleet_inv_def sent_inv_def by blast
  obtain raw e ev' where "raw \<in> set (g_reads (ft_nodes s ! i))" "Decode raw = Inr e" "\<not> node_local (Canonical e)"
    "toEvent r = Some ev'" "SrcIP ev' = SrcIP (Canonical e)" "DstIP ev' = DstIP (Canonical e)" "DstPort ev' = DstPort (Canonical e)"
    "Protocol ev' = Protocol (Canonical e)" "Outbound ev' = Outbound (Canonical e)"
    by (rule pushed_record_read [OF assms(1) inv i r(2)])
  with i(1) r(3-5) show ?thesis by auto
qed

theorem edges_observed_witness:
  "\<exists>c (P :: nat dns_parser) s sc raw e ev. set_up [c] \<and> (fleet_step id P sample_env)\<^sup>*\<^sup>* (start_fleet [c] [sample_pipeline]) s
     \<and> g_sent (pr_server (ft_procs s ! 0)) = [(sc, LoggerSink)] \<and> g_reads (ft_nodes s ! 0) = [raw] \<and> Decode raw = Inr e
     \<and> DstIP ev = DstIP (Canonical e) \<and> seen_in (g_caches (pr_server (ft_procs s ! 0))) ev sc"
proof -
  obtain c e and P :: "nat dns_parser" and s sc raw where s: "set_up [c]" "(fleet_step id P sample_env)\<^sup>*\<^sup>* (start_fleet [c] [sample_pipeline]) s"
    "length (ft_nodes s) = 1" "length (ft_procs s) = 1" "g_sent (pr_server (ft_procs s ! 0)) = [(sc, LoggerSink)]"
    "g_reads (ft_nodes s ! 0) = [raw]"
    using sample_fleet [where env = sample_env] by metis
  from edges_observed [OF s(1,2), of 0 sc LoggerSink] s(3-)
  obtain e ev where "Decode raw = Inr e" "DstIP ev = DstIP (Canonical e)" "seen_in (g_caches (pr_server (ft_procs s ! 0))) ev sc"
    by auto
  with s(1,2,5,6) show ?thesis by blast
qed

end
