(* ===== verification/Kafka_Test.thy ===== *)
theory Kafka_Test
  imports Emit
begin

text \<open>
  \<open>internal/kafkatest/kafkatest.go\<close>, the broker of the integration tests: \<open>Start\<close>,
  \<open>Client\<close>, \<open>CreateTopic\<close> and \<open>Consume\<close>. \<open>t.Fatalf\<close> ends the test, so each of them gives
  a failure or a value, and with it the cleanups registered so far, which \<open>testing\<close> runs
  whatever the outcome. The container module, the Kafka client and the broker's answers are
  arguments; a poll of the consumer is what it returned.
\<close>

section \<open>The test and its surroundings\<close>

datatype redpanda_opt = WithEnableSASL | WithNewServiceAccount string string | WithSuperusers string

datatype test_opt = Kgo kgo_opt | ConsumeTopics string | ConsumeResetAtStart

datatype 'c cleanup = TerminateContainer 'c | CloseClient "test_opt list"

datatype test_failure =
    StartRedpanda | SeedBroker | KafkaClient | CreateTopicRequest string | CreateTopicCode string int
  | NoTopicInResponse  \<comment> \<open>\<open>resp.Topics[0]\<close> of an empty list panics\<close>
  | FetchError string

record topic_request =
  rt_Topic :: string
  rt_NumPartitions :: "32 word"
  rt_ReplicationFactor :: "16 word"

record 'c test_world =
  tw_Getenv :: "string \<Rightarrow> string"  \<comment> \<open>empty when it is not set\<close>
  tw_Run :: "string \<Rightarrow> redpanda_opt list \<Rightarrow> 'c \<times> bool"  \<comment> \<open>the container, perhaps nil, and whether it runs\<close>
  tw_KafkaSeedBroker :: "'c \<Rightarrow> string option"
  tw_NewClient :: "test_opt list \<Rightarrow> bool"
  tw_CreateTopics :: "test_opt list \<Rightarrow> topic_request list \<Rightarrow> int list option"  \<comment> \<open>the error codes of the response\<close>
  tw_is_error :: "int \<Rightarrow> bool"

type_synonym ('c, 'a) test = "'c cleanup list \<Rightarrow> (test_failure + 'a) \<times> 'c cleanup list"

definition DefaultImage :: string where "DefaultImage = ''mirror.gcr.io/redpandadata/redpanda:v23.3.3''"
definition ImageEnv :: string where "ImageEnv = ''KAFKATEST_IMAGE''"
definition User :: string where "User = ''sniffer''"
definition Password :: string where "Password = ''sniffer-secret''"

record Broker =
  br_Addr :: string
  br_sasl :: bool

section \<open>Operations\<close>

definition test_image :: "(string \<Rightarrow> string) \<Rightarrow> string" where
  "test_image getenv = (if getenv ImageEnv \<noteq> [] then getenv ImageEnv else DefaultImage)"

definition Start :: "'c test_world \<Rightarrow> bool \<Rightarrow> ('c, Broker) test" where
  "Start W sasl cs =
     (let opts = (if sasl then [WithEnableSASL, WithNewServiceAccount User Password, WithSuperusers User] else [])
      in case tw_Run W (test_image (tw_Getenv W)) opts of (c, runs) \<Rightarrow>
        let cs = cs @ [TerminateContainer c]
        in if \<not> runs then (Inl StartRedpanda, cs)
           else case tw_KafkaSeedBroker W c of
                  None \<Rightarrow> (Inl SeedBroker, cs)
                | Some addr \<Rightarrow> (Inr \<lparr>br_Addr = addr, br_sasl = sasl\<rparr>, cs))"

definition client_opts :: "Broker \<Rightarrow> test_opt list \<Rightarrow> test_opt list" where
  "client_opts b opts =
     [Kgo (SeedBrokers [br_Addr b])] @ (if br_sasl b then [Kgo (SASL (ScramSha256 User Password))] else []) @ opts"

definition Client :: "'c test_world \<Rightarrow> Broker \<Rightarrow> test_opt list \<Rightarrow> ('c, test_opt list) test" where
  \<comment> \<open>a client is given by its options\<close>
  "Client W b opts cs =
     (let cl = client_opts b opts
      in if \<not> tw_NewClient W cl then (Inl KafkaClient, cs) else (Inr cl, cs @ [CloseClient cl]))"

definition CreateTopic :: "'c test_world \<Rightarrow> Broker \<Rightarrow> string \<Rightarrow> ('c, unit) test" where
  "CreateTopic W b topic cs =
     (case Client W b [] cs of
        (Inl err, cs) \<Rightarrow> (Inl err, cs)
      | (Inr cl, cs) \<Rightarrow>
          (case tw_CreateTopics W cl [\<lparr>rt_Topic = topic, rt_NumPartitions = 1, rt_ReplicationFactor = 1\<rparr>] of
             None \<Rightarrow> (Inl (CreateTopicRequest topic), cs)
           | Some [] \<Rightarrow> (Inl NoTopicInResponse, cs)
           | Some (code # codes) \<Rightarrow> (if tw_is_error W code then Inl (CreateTopicCode topic code) else Inr (), cs)))"

record 'r poll =
  po_ctx_done :: bool  \<comment> \<open>\<open>ctx.Err() != nil\<close> when the poll returns\<close>
  po_errors :: "string list"
  po_records :: "'r list"

fun consume_loop :: "int \<Rightarrow> 'r poll list \<Rightarrow> 'r list \<Rightarrow> (test_failure + 'r list) option" where
  \<comment> \<open>\<open>None\<close>: the polls given are used up and the loop goes on\<close>
  "consume_loop want ps got =
     (if want \<le> int (length got) then Some (Inr got)
      else case ps of
             [] \<Rightarrow> None
           | p # ps \<Rightarrow>
               if po_ctx_done p then Some (Inr got)
               else if po_errors p \<noteq> [] then Some (Inl (FetchError (hd (po_errors p))))
               else consume_loop want ps (got @ po_records p))"

declare consume_loop.simps [simp del]

definition Consume :: "'c test_world \<Rightarrow> Broker \<Rightarrow> string \<Rightarrow> int \<Rightarrow> 'r poll list \<Rightarrow>
    'c cleanup list \<Rightarrow> (test_failure + 'r list) option \<times> 'c cleanup list" where
  "Consume W b topic want ps cs =
     (case Client W b [ConsumeTopics topic, ConsumeResetAtStart] cs of
        (Inl err, cs) \<Rightarrow> (Some (Inl err), cs)
      | (Inr cl, cs) \<Rightarrow> (consume_loop want ps [], cs))"

section \<open>Facts\<close>

text \<open>No container and no client outlives the test: what \<open>Start\<close> ran is registered before
  the first failure is looked at, every client built is registered, and no operation takes
  a cleanup away.\<close>

lemma Start_registers:
  assumes "Start W sasl cs = (r, cs')"
  shows "\<exists>opts. cs' = cs @ [TerminateContainer (fst (tw_Run W (test_image (tw_Getenv W)) opts))]"
  using assms by (auto simp: Start_def Let_def split: prod.splits if_splits option.splits) (metis fst_conv)+

lemma Client_registers:
  "Client W b opts cs = (r, cs') \<Longrightarrow> cs' = cs @ (case r of Inl _ \<Rightarrow> [] | Inr cl \<Rightarrow> [CloseClient cl])"
  by (auto simp: Client_def Let_def split: if_splits)

lemma CreateTopic_keeps: "CreateTopic W b topic cs = (r, cs') \<Longrightarrow> prefix cs cs'"
  using Client_registers [of W b "[]" cs]
  by (fastforce simp: CreateTopic_def split: prod.splits sum.splits option.splits list.splits)

lemma Consume_keeps: "Consume W b topic want ps cs = (r, cs') \<Longrightarrow> prefix cs cs'"
  using Client_registers [of W b "[ConsumeTopics topic, ConsumeResetAtStart]" cs]
  by (fastforce simp: Consume_def split: prod.splits sum.splits)

text \<open>A broker with SASL is asked with the account it was started with, and a sink configured
  with that account by \<open>NewKafka\<close> presents the same credentials.\<close>

lemma client_credentials:
  "Kgo (SASL m) \<in> set (client_opts b opts) \<longleftrightarrow> (br_sasl b \<and> m = ScramSha256 User Password) \<or> Kgo (SASL m) \<in> set opts"
  by (auto simp: client_opts_def)

lemma sink_credentials:
  "\<lbrakk>sasl_Mechanism c = SASLMechanismScramSHA256; sasl_Username c = User; sasl_Password c = Password; br_sasl b\<rbrakk> \<Longrightarrow>
     \<exists>m. saslMechanism c = Inr m \<and> Kgo (SASL m) \<in> set (client_opts b opts)"
  by (simp add: saslMechanism_def client_opts_def SASLMechanismPlain_def SASLMechanismScramSHA256_def)

text \<open>What \<open>Consume\<close> returns are all records of the polls before the last one looked at, in
  order, none of which reported an error: at least as many as wanted, unless the deadline
  passed, and then the records of the poll that it cut off are not among them.\<close>

lemma consume_loop_result:
  assumes "consume_loop want ps got = Some (Inr rs)"
  shows "\<exists>n \<le> length ps. rs = got @ concat (map po_records (take n ps)) \<and> (\<forall>p \<in> set (take n ps). po_errors p = [] \<and> \<not> po_ctx_done p)
    \<and> (want \<le> int (length rs) \<or> n < length ps \<and> po_ctx_done (ps ! n))"
  using assms
proof (induction want ps got rule: consume_loop.induct)
  case (1 want ps got)
  show ?case
  proof (cases "want \<le> int (length got)")
    case True
    with 1(2) show ?thesis by (intro exI [of _ 0]) (simp add: consume_loop.simps)
  next
    case False
    with 1(2) obtain p qs where ps: "ps = p # qs" by (auto simp: consume_loop.simps split: list.splits)
    show ?thesis
    proof (cases "po_ctx_done p")
      case True
      with False 1(2) show ?thesis by (intro exI [of _ 0]) (simp add: consume_loop.simps ps)
    next
      case go: False
      with False 1(2) have e: "po_errors p = []" "consume_loop want qs (got @ po_records p) = Some (Inr rs)"
        by (subst (asm) consume_loop.simps, simp add: ps split: if_splits)+
      from 1(1) [OF False ps go] e obtain n where n: "n \<le> length qs" "rs = (got @ po_records p) @ concat (map po_records (take n qs))"
        "\<forall>p \<in> set (take n qs). po_errors p = [] \<and> \<not> po_ctx_done p"
        "want \<le> int (length rs) \<or> n < length qs \<and> po_ctx_done (qs ! n)" by auto
      with e(1) go show ?thesis by (intro exI [of _ "Suc n"]) (simp add: ps)
    qed
  qed
qed

lemma consume_loop_ends: "\<exists>p \<in> set ps. po_ctx_done p \<Longrightarrow> consume_loop want ps got \<noteq> None"
proof (induction want ps got rule: consume_loop.induct)
  case (1 want ps got)
  then show ?case by (subst consume_loop.simps) (auto split: list.split, blast)
qed

lemma Consume_result:
  assumes "Consume W b topic want ps cs = (Some (Inr rs), cs')"
  shows "\<exists>n \<le> length ps. rs = concat (map po_records (take n ps))
    \<and> (want \<le> int (length rs) \<or> n < length ps \<and> po_ctx_done (ps ! n))"
proof -
  have "consume_loop want ps [] = Some (Inr rs)" using assms by (auto simp: Consume_def split: prod.splits sum.splits)
  from consume_loop_result [OF this] show ?thesis by auto
qed

end
