(* ===== verification/Errgroup.thy ===== *)
theory Errgroup
  imports Commands
begin

text \<open>
  What both commands rely on of \<open>golang.org/x/sync/errgroup\<close>, which is not part of the
  repository: the group is an argument \<open>W\<close> of the definitions that use it, its documented
  behaviour the hypothesis \<open>errgroup_contract\<close>. \<open>Wait\<close> returns the first non-nil error a
  task returned, and the derived context is cancelled from then on. \<open>recorded_group\<close> is
  an instance for evaluations.
\<close>

section \<open>The interface\<close>

record ('g, 't) errgroup =
  eg_New :: "'g"  \<comment> \<open>\<open>WithContext\<close>\<close>
  eg_Return :: "'t \<Rightarrow> run_error option \<Rightarrow> 'g \<Rightarrow> 'g"  \<comment> \<open>a task returned\<close>
  eg_Cancelled :: "'g \<Rightarrow> bool"  \<comment> \<open>the group has cancelled the derived context\<close>
  eg_Wait :: "'g \<Rightarrow> run_error option"

fun first_error :: "run_error option list \<Rightarrow> run_error option" where
  "first_error [] = None"
| "first_error (None # rs) = first_error rs"
| "first_error (Some e # rs) = Some e"

definition group_after :: "('g, 't) errgroup \<Rightarrow> ('t \<times> run_error option) list \<Rightarrow> 'g" where
  "group_after W rs = fold (\<lambda>(x, r). eg_Return W x r) rs (eg_New W)"

definition errgroup_contract :: "('g, 't) errgroup \<Rightarrow> bool" where
  "errgroup_contract W \<longleftrightarrow>
     (\<forall>rs. eg_Wait W (group_after W rs) = first_error (map snd rs)
        \<and> (eg_Cancelled W (group_after W rs) \<longleftrightarrow> first_error (map snd rs) \<noteq> None))"

definition recorded_group :: "(('t \<times> run_error option) list, 't) errgroup" where
  "recorded_group =
     \<lparr>eg_New = [], eg_Return = (\<lambda>x r g. g @ [(x, r)]), eg_Cancelled = (\<lambda>g. first_error (map snd g) \<noteq> None),
      eg_Wait = (\<lambda>g. first_error (map snd g))\<rparr>"

section \<open>Facts\<close>

lemma group_after_simps [simp]:
  "group_after W [] = eg_New W"
  "group_after W (rs @ [(x, r)]) = eg_Return W x r (group_after W rs)"
  by (simp_all add: group_after_def)

lemma errgroup_contractD:
  assumes "errgroup_contract W"
  shows "eg_Wait W (group_after W rs) = first_error (map snd rs)"
    and "eg_Cancelled W (group_after W rs) \<longleftrightarrow> first_error (map snd rs) \<noteq> None"
  using assms by (simp_all add: errgroup_contract_def)

lemma first_error_append:
  "first_error (rs @ rs') = (case first_error rs of None \<Rightarrow> first_error rs' | Some e \<Rightarrow> Some e)"
  by (induction rs rule: first_error.induct) simp_all

lemma first_error_None: "first_error rs = None \<longleftrightarrow> set rs \<subseteq> {None}"
  by (induction rs rule: first_error.induct) auto

lemma first_error_Some: "first_error rs = Some e \<Longrightarrow> Some e \<in> set rs"
  by (induction rs rule: first_error.induct) auto

lemma recorded_group_after: "group_after recorded_group rs = rs"
  by (induction rs rule: rev_induct) (auto simp: recorded_group_def group_after_def)

lemma recorded_group_contract: "errgroup_contract recorded_group"
  unfolding errgroup_contract_def recorded_group_after by (simp add: recorded_group_def)

text \<open>
  \<open>telemetry.Serve\<close> returns the listener's error, if it fails, and else the context's: a
  server closed by \<open>Shutdown\<close> is no failure.
\<close>

fun Serve_result :: "string option \<Rightarrow> run_error option \<Rightarrow> run_error option" where
  "Serve_result (Some msg) ctx_error = Some (RunFailed msg)"
| "Serve_result None ctx_error = ctx_error"

text \<open>The exit code of a command from what it returned.\<close>

fun exit_code :: "run_error option \<Rightarrow> nat" where
  "exit_code None = 0"
| "exit_code (Some Canceled) = 0"
| "exit_code (Some (RunFailed m)) = 1"

lemma main_exit_commands:
  "main_exit (\<lambda>_. r) runP (prog # ''collector'' # args) = exit_code r"
  "main_exit runC (\<lambda>_. r) (prog # ''processor'' # args) = exit_code r"
  by (simp_all add: main_exit_def split: option.split run_error.split)

lemma exit_code_0: "exit_code r = 0 \<longleftrightarrow> r = None \<or> r = Some Canceled"
  by (cases r rule: exit_code.cases) simp_all

end
