(* ===== verification/Collector_Run.thy ===== *)
theory Collector_Run
  imports Errgroup
begin

text \<open>
  The second half of \<open>runCollector\<close> in \<open>cmd/sniffer/collector_linux.go\<close>, with the loops
  \<open>Run\<close>, \<open>RunDNS\<close> and \<open>flushLoop\<close> of \<open>internal/collector/collector.go\<close> and \<open>Serve\<close> of
  \<open>internal/telemetry\<close>: the five goroutines of the group and the flush loop, from the
  start to the exit of the process, as a step relation. A loop takes one step to read a
  record and one to handle it. Every goroutine sees the derived context: it is done once
  the signal came or the group cancelled it, and the sender's copy follows. The five are
  started together, the flush loop with them; \<open>g_results\<close> is a ghost, what the tasks
  returned, in order.
\<close>

section \<open>State\<close>

datatype col_task =
    MetricsTask  \<comment> \<open>\<open>telemetry.Serve\<close>\<close>
  | SenderTask  \<comment> \<open>\<open>sender.Run\<close>\<close>
  | CloserTask  \<comment> \<open>waits for the context and closes the loader\<close>
  | RunTask  \<comment> \<open>\<open>coll.Run\<close>\<close>
  | DNSTask  \<comment> \<open>\<open>coll.RunDNS\<close>\<close>

record 'g col_proc =
  cp_core :: Collector
  cp_group :: 'g
  cp_signal :: bool
  cp_open :: bool  \<comment> \<open>the loader's readers\<close>
  cp_live :: "col_task set"
  cp_flushing :: bool
  cp_event :: "byte list option option"  \<comment> \<open>what \<open>Run\<close> has read and not handled; inner \<open>None\<close>: a read error\<close>
  cp_record :: "byte list option option"
  g_results :: "(col_task \<times> run_error option) list"

definition ctx_done :: "('g, col_task) errgroup \<Rightarrow> 'g col_proc \<Rightarrow> bool" where
  "ctx_done W s \<longleftrightarrow> cp_signal s \<or> eg_Cancelled W (cp_group s)"

definition ctx_err :: "('g, col_task) errgroup \<Rightarrow> 'g col_proc \<Rightarrow> run_error option" where
  "ctx_err W s = (if ctx_done W s then Some Canceled else None)"

definition set_cancelled :: "bool \<Rightarrow> Collector \<Rightarrow> Collector" where
  "set_cancelled b c = c\<lparr>col_sender := (col_sender c)\<lparr>s_cancelled := b\<rparr>\<rparr>"

definition propagate :: "('g, col_task) errgroup \<Rightarrow> 'g col_proc \<Rightarrow> 'g col_proc" where
  \<comment> \<open>the sender waits on the same context\<close>
  "propagate W s = s\<lparr>cp_core := set_cancelled (ctx_done W s) (cp_core s)\<rparr>"

definition task_returns ::
  "('g, col_task) errgroup \<Rightarrow> col_task \<Rightarrow> run_error option \<Rightarrow> 'g col_proc \<Rightarrow> 'g col_proc" where
  "task_returns W x r s =
     propagate W (s\<lparr>cp_group := eg_Return W x r (cp_group s), cp_live := cp_live s - {x},
                    g_results := g_results s @ [(x, r)]\<rparr>)"

definition start_collector :: "('g, col_task) errgroup \<Rightarrow> Collector \<Rightarrow> 'g col_proc" where
  "start_collector W c =
     \<lparr>cp_core = c, cp_group = eg_New W, cp_signal = False, cp_open = True, cp_live = UNIV, cp_flushing = True,
      cp_event = None, cp_record = None, g_results = []\<rparr>"

definition delivery_step :: "'a Sender \<Rightarrow> 'a Sender \<Rightarrow> bool" where
  \<comment> \<open>a step of the goroutine in \<open>sender.Run\<close>\<close>
  "delivery_step s t \<longleftrightarrow> sender_step s t \<and> s_worker t \<noteq> s_worker s \<and> s_producers t = s_producers s"

section \<open>Steps\<close>

inductive col_run ::
  "unicode_lower \<Rightarrow> 'p dns_parser \<Rightarrow> ('g, col_task) errgroup \<Rightarrow> 'g col_proc \<Rightarrow> 'g col_proc \<Rightarrow> bool"
  for uni P W where
  signal: "\<not> cp_signal s \<Longrightarrow> col_run uni P W s (propagate W (s\<lparr>cp_signal := True\<rparr>))"
| read_event: "\<lbrakk>RunTask \<in> cp_live s; cp_event s = None; cp_open s\<rbrakk> \<Longrightarrow>
     col_run uni P W s (s\<lparr>cp_event := Some rd\<rparr>)"
| handle_event: "\<lbrakk>cp_event s = Some rd; raw_order uni fs rd now (cp_core s) ks;
     Run_event uni fs ks rd now (cp_core s) = Some c\<rbrakk> \<Longrightarrow>
     col_run uni P W s (s\<lparr>cp_core := c, cp_event := None\<rparr>)"
| run_closed: "\<lbrakk>RunTask \<in> cp_live s; cp_event s = None; \<not> cp_open s\<rbrakk> \<Longrightarrow>
     col_run uni P W s (task_returns W RunTask (ctx_err W s) s)"
| dns_disabled: "\<lbrakk>DNSTask \<in> cp_live s; col_dns (cp_core s) = None\<rbrakk> \<Longrightarrow>
     col_run uni P W s (task_returns W DNSTask None s)"
| read_record: "\<lbrakk>DNSTask \<in> cp_live s; col_dns (cp_core s) \<noteq> None; cp_record s = None; cp_open s\<rbrakk> \<Longrightarrow>
     col_run uni P W s (s\<lparr>cp_record := Some rd\<rparr>)"
| handle_record: "\<lbrakk>cp_record s = Some rd; RunDNS_record uni P rd now (cp_core s) = Some c\<rbrakk> \<Longrightarrow>
     col_run uni P W s (s\<lparr>cp_core := c, cp_record := None\<rparr>)"
| dns_closed: "\<lbrakk>DNSTask \<in> cp_live s; col_dns (cp_core s) \<noteq> None; cp_record s = None; \<not> cp_open s\<rbrakk> \<Longrightarrow>
     col_run uni P W s (task_returns W DNSTask (ctx_err W s) s)"
| tick: "\<lbrakk>cp_flushing s; key_order (a_flows (col_agg (cp_core s))) ks; flush_tick ks now (cp_core s) = Some c\<rbrakk> \<Longrightarrow>
     col_run uni P W s (s\<lparr>cp_core := c\<rparr>)"
| flush_done: "\<lbrakk>cp_flushing s; ctx_done W s\<rbrakk> \<Longrightarrow> col_run uni P W s (s\<lparr>cp_flushing := False\<rparr>)"
| deliver: "\<lbrakk>SenderTask \<in> cp_live s; delivery_step (col_sender (cp_core s)) t\<rbrakk> \<Longrightarrow>
     col_run uni P W s (s\<lparr>cp_core := (cp_core s)\<lparr>col_sender := t\<rparr>\<rparr>)"
| sender_done: "\<lbrakk>SenderTask \<in> cp_live s; s_worker (col_sender (cp_core s)) = Stopped b\<rbrakk> \<Longrightarrow>
     col_run uni P W s (task_returns W SenderTask (ctx_err W s) s)"
| close_loader: "\<lbrakk>CloserTask \<in> cp_live s; ctx_done W s; cp_open s\<rbrakk> \<Longrightarrow>
     col_run uni P W s (s\<lparr>cp_open := False\<rparr>)"
| closer_done: "\<lbrakk>CloserTask \<in> cp_live s; \<not> cp_open s\<rbrakk> \<Longrightarrow>
     col_run uni P W s (task_returns W CloserTask (map_option RunFailed err) s)"
| metrics_failed: "MetricsTask \<in> cp_live s \<Longrightarrow>
     col_run uni P W s (task_returns W MetricsTask (Serve_result (Some msg) (ctx_err W s)) s)"
| metrics_done: "\<lbrakk>MetricsTask \<in> cp_live s; ctx_done W s\<rbrakk> \<Longrightarrow>
     col_run uni P W s (task_returns W MetricsTask (Serve_result None (ctx_err W s)) s)"

inductive_cases col_runE: "col_run uni P W s t"

definition collector_exit_code :: "('g, col_task) errgroup \<Rightarrow> 'g col_proc \<Rightarrow> nat" where
  \<comment> \<open>what \<open>main\<close> makes of the result of \<open>g.Wait\<close>\<close>
  "collector_exit_code W s = main_exit (\<lambda>_. eg_Wait W (cp_group s)) (\<lambda>_. None) [''sniffer'', ''collector'']"

section \<open>Invariant\<close>

fun task_result :: "bool \<Rightarrow> col_task \<Rightarrow> run_error option \<Rightarrow> bool" where
  \<comment> \<open>what a task can return; the flag says that DNS naming is off\<close>
  "task_result off MetricsTask r \<longleftrightarrow> r \<noteq> None"
| "task_result off CloserTask r \<longleftrightarrow> r \<noteq> Some Canceled"
| "task_result off DNSTask r \<longleftrightarrow> r = (if off then None else Some Canceled)"
| "task_result off x r \<longleftrightarrow> r = Some Canceled"

definition results_ok :: "('g, col_task) errgroup \<Rightarrow> 'g col_proc \<Rightarrow> bool" where
  "results_ok W s \<longleftrightarrow> cp_group s = group_after W (g_results s)
     \<and> cp_live s = - fst ` set (g_results s)
     \<and> (\<forall>(x, r) \<in> set (g_results s). task_result (col_dns (cp_core s) = None) x r)"

definition col_run_inv :: "('g, col_task) errgroup \<Rightarrow> 'g col_proc \<Rightarrow> bool" where
  "col_run_inv W s \<longleftrightarrow> collector_inv (cp_core s)
     \<and> s_cancelled (col_sender (cp_core s)) = ctx_done W s
     \<and> results_ok W s
     \<and> (cp_open s \<and> cp_flushing s \<or> ctx_done W s)
     \<and> (cp_open s \<longrightarrow> {CloserTask, RunTask} \<subseteq> cp_live s)
     \<and> (cp_open s \<and> col_dns (cp_core s) \<noteq> None \<longrightarrow> DNSTask \<in> cp_live s)
     \<and> (SenderTask \<in> cp_live s \<or> ctx_done W s)
     \<and> (\<forall>b. s_worker (col_sender (cp_core s)) = Stopped b \<longrightarrow> ctx_done W s)
     \<and> (cp_event s \<noteq> None \<longrightarrow> RunTask \<in> cp_live s)
     \<and> (cp_record s \<noteq> None \<longrightarrow> DNSTask \<in> cp_live s \<and> col_dns (cp_core s) \<noteq> None)"

section \<open>Facts\<close>

lemma set_cancelled_simps [simp]:
  "col_cfg (set_cancelled b c) = col_cfg c" "col_agg (set_cancelled b c) = col_agg c"
  "col_dns (set_cancelled b c) = col_dns c" "m_Events (set_cancelled b c) = m_Events c"
  "s_cancelled (col_sender (set_cancelled b c)) = b" "s_worker (col_sender (set_cancelled b c)) = s_worker (col_sender c)"
  "s_queue (col_sender (set_cancelled b c)) = s_queue (col_sender c)"
  "s_cap (col_sender (set_cancelled b c)) = s_cap (col_sender c)"
  by (simp_all add: set_cancelled_def)

lemma set_cancelled_inv [simp]: "collector_inv (set_cancelled b c) \<longleftrightarrow> collector_inv c"
  by (simp add: collector_inv_def set_cancelled_def sender_inv_def records_accounted_def all_offered_def pushed_total_def)

lemma ctx_done_simps [simp]:
  "ctx_done W (s\<lparr>cp_core := c\<rparr>) = ctx_done W s" "ctx_done W (s\<lparr>cp_event := e\<rparr>) = ctx_done W s"
  "ctx_done W (s\<lparr>cp_record := e\<rparr>) = ctx_done W s" "ctx_done W (s\<lparr>cp_open := b\<rparr>) = ctx_done W s"
  "ctx_done W (s\<lparr>cp_flushing := b\<rparr>) = ctx_done W s" "ctx_done W (s\<lparr>cp_signal := True\<rparr>)"
  "ctx_done W (propagate W s) = ctx_done W s"
  by (simp_all add: ctx_done_def propagate_def)

lemma propagate_simps [simp]:
  "cp_core (propagate W s) = set_cancelled (ctx_done W s) (cp_core s)" "cp_group (propagate W s) = cp_group s"
  "cp_open (propagate W s) = cp_open s" "cp_live (propagate W s) = cp_live s"
  "cp_flushing (propagate W s) = cp_flushing s" "cp_event (propagate W s) = cp_event s"
  "cp_record (propagate W s) = cp_record s" "g_results (propagate W s) = g_results s"
  "cp_signal (propagate W s) = cp_signal s"
  by (simp_all add: propagate_def)

lemma results_ok_simps [simp]:
  "results_ok W (s\<lparr>cp_event := e\<rparr>) = results_ok W s" "results_ok W (s\<lparr>cp_record := e\<rparr>) = results_ok W s"
  "results_ok W (s\<lparr>cp_open := b\<rparr>) = results_ok W s" "results_ok W (s\<lparr>cp_flushing := b\<rparr>) = results_ok W s"
  "results_ok W (s\<lparr>cp_signal := b\<rparr>) = results_ok W s" "results_ok W (propagate W s) = results_ok W s"
  by (simp_all add: results_ok_def)

lemma results_ok_core: "col_dns c = None \<longleftrightarrow> col_dns (cp_core s) = None \<Longrightarrow> results_ok W (s\<lparr>cp_core := c\<rparr>) = results_ok W s"
  by (simp add: results_ok_def)

lemma ctx_done_results:
  assumes "errgroup_contract W" and "results_ok W s"
  shows "ctx_done W s \<longleftrightarrow> cp_signal s \<or> first_error (map snd (g_results s)) \<noteq> None"
  using assms(2) errgroup_contractD(2) [OF assms(1)] by (simp add: ctx_done_def results_ok_def)

lemma task_returns_simps [simp]:
  "cp_live (task_returns W x r s) = cp_live s - {x}" "cp_open (task_returns W x r s) = cp_open s"
  "cp_flushing (task_returns W x r s) = cp_flushing s" "cp_event (task_returns W x r s) = cp_event s"
  "cp_record (task_returns W x r s) = cp_record s" "g_results (task_returns W x r s) = g_results s @ [(x, r)]"
  "cp_signal (task_returns W x r s) = cp_signal s"
  "cp_core (task_returns W x r s) = set_cancelled (ctx_done W (task_returns W x r s)) (cp_core s)"
  by (simp_all add: task_returns_def)

lemma results_ok_returns:
  assumes "results_ok W s" and "task_result (col_dns (cp_core s) = None) x r"
  shows "results_ok W (task_returns W x r s)"
proof -
  have "cp_group (task_returns W x r s) = eg_Return W x r (cp_group s)" by (simp add: task_returns_def)
  with assms show ?thesis by (auto simp: results_ok_def)
qed

lemma ctx_done_returns:
  assumes "errgroup_contract W" and "results_ok W s" and "task_result (col_dns (cp_core s) = None) x r"
  shows "ctx_done W (task_returns W x r s) \<longleftrightarrow> ctx_done W s \<or> r \<noteq> None"
  using ctx_done_results [OF assms(1,2)] ctx_done_results [OF assms(1) results_ok_returns [OF assms(2,3)]]
  by (cases r) (auto simp: first_error_append split: option.split)

text \<open>Which task may return when.\<close>

fun may_return :: "('g, col_task) errgroup \<Rightarrow> 'g col_proc \<Rightarrow> col_task \<Rightarrow> bool" where
  "may_return W s MetricsTask \<longleftrightarrow> True"
| "may_return W s SenderTask \<longleftrightarrow> ctx_done W s"
| "may_return W s CloserTask \<longleftrightarrow> \<not> cp_open s"
| "may_return W s RunTask \<longleftrightarrow> \<not> cp_open s \<and> cp_event s = None"
| "may_return W s DNSTask \<longleftrightarrow> (col_dns (cp_core s) = None \<or> \<not> cp_open s) \<and> cp_record s = None"

lemma task_returns_inv:
  assumes "errgroup_contract W" and "col_run_inv W s" and "task_result (col_dns (cp_core s) = None) x r"
    and "may_return W s x"
  shows "col_run_inv W (task_returns W x r s)"
proof -
  have ok: "results_ok W s" using assms(2) by (simp add: col_run_inv_def)
  have mono: "ctx_done W s \<Longrightarrow> ctx_done W (task_returns W x r s)"
    using ctx_done_returns [OF assms(1) ok assms(3)] by blast
  show ?thesis
    using assms(2,4) mono results_ok_returns [OF ok assms(3)] unfolding col_run_inv_def
    by (cases x; simp; blast)
qed

lemma signal_inv: "\<lbrakk>col_run_inv W s; \<not> cp_signal s\<rbrakk> \<Longrightarrow> col_run_inv W (propagate W (s\<lparr>cp_signal := True\<rparr>))"
  by (simp add: col_run_inv_def)

lemma core_inv:
  assumes "col_run_inv W s" and "collector_inv c" and "col_dns c = None \<longleftrightarrow> col_dns (cp_core s) = None"
    and "s_cancelled (col_sender c) = s_cancelled (col_sender (cp_core s))"
    and "\<forall>b. s_worker (col_sender c) = Stopped b \<longrightarrow> ctx_done W s"
  shows "col_run_inv W (s\<lparr>cp_core := c\<rparr>)"
  using assms results_ok_core [OF assms(3)] by (simp add: col_run_inv_def)

lemma same_service_core:
  assumes "col_run_inv W s" and "collector_inv c" and "same_service (cp_core s) c"
  shows "col_run_inv W (s\<lparr>cp_core := c\<rparr>)"
proof -
  obtain bs where "enqueued bs (col_sender (cp_core s)) (col_sender c)" using assms(3) by (auto simp: same_service_def)
  from enqueuedD(4,5) [OF this] assms show ?thesis
    by (intro core_inv) (auto simp: same_service_def col_run_inv_def)
qed

lemma done_reading:
  "col_run_inv W s \<Longrightarrow> col_run_inv W (s\<lparr>cp_event := None\<rparr>) \<and> col_run_inv W (s\<lparr>cp_record := None\<rparr>)"
  by (simp add: col_run_inv_def)

lemma delivery_stepD:
  assumes "delivery_step s t"
  shows "sender_step s t" and "s_producers t = s_producers s" and "g_pushed t = g_pushed s"
    and "s_cancelled t = s_cancelled s" and "s_worker t = Stopped b \<Longrightarrow> s_cancelled s" and "s_cap t = s_cap s"
  using assms by (auto simp: delivery_step_def elim!: sender_stepE)

lemma deliver_core_inv:
  assumes "col_run_inv W s" and "delivery_step (col_sender (cp_core s)) t"
  shows "col_run_inv W (s\<lparr>cp_core := (cp_core s)\<lparr>col_sender := t\<rparr>\<rparr>)"
proof -
  note d = delivery_stepD [OF assms(2)]
  have "collector_inv (cp_core s)" "s_cancelled (col_sender (cp_core s)) = ctx_done W s"
    using assms(1) by (simp_all add: col_run_inv_def)
  with d show ?thesis
    by (intro core_inv [OF assms(1)] deliver_inv) simp_all
qed

lemma ctx_err_done: "ctx_done W s \<Longrightarrow> ctx_err W s = Some Canceled"
  by (simp add: ctx_err_def)

lemma col_run_inv_step:
  assumes "errgroup_contract W" and "col_run uni P W s t" and "col_run_inv W s"
  shows "col_run_inv W t"
  using assms(2)
proof cases
  case (handle_event rd fs now ks c)
  have "collector_inv c \<and> same_service (cp_core s) c"
    using Run_event_inv [of "cp_core s" uni fs rd now ks] handle_event assms(3) by (auto simp: col_run_inv_def)
  then have "col_run_inv W (s\<lparr>cp_core := c\<rparr>)" using same_service_core [OF assms(3)] by blast
  from done_reading [OF this] show ?thesis unfolding handle_event(1) by blast
next
  case (handle_record rd now c)
  have "collector_inv c \<and> same_service (cp_core s) c"
    using RunDNS_record_inv [OF _ handle_record(3)] assms(3) unfolding col_run_inv_def by blast
  then have "col_run_inv W (s\<lparr>cp_core := c\<rparr>)" using same_service_core [OF assms(3)] by blast
  from done_reading [OF this] show ?thesis unfolding handle_record(1) by blast
next
  case (tick ks now c)
  have "collector_inv c \<and> same_service (cp_core s) c"
    using flush_tick_inv [of "cp_core s" ks now] tick assms(3) by (auto simp: col_run_inv_def)
  with same_service_core [OF assms(3)] show ?thesis unfolding tick(1) by blast
next
  case signal
  with signal_inv [OF assms(3)] show ?thesis by simp
next
  case (deliver u)
  with deliver_core_inv [OF assms(3)] show ?thesis by simp
next
  case run_closed
  with assms(3) have "ctx_done W s" by (auto simp: col_run_inv_def)
  with task_returns_inv [OF assms(1,3)] run_closed show ?thesis by (simp add: ctx_err_done)
next
  case dns_disabled
  with assms(3) have "cp_record s = None" by (auto simp: col_run_inv_def)
  with task_returns_inv [OF assms(1,3)] dns_disabled show ?thesis by simp
next
  case dns_closed
  with assms(3) have "ctx_done W s" by (auto simp: col_run_inv_def)
  with task_returns_inv [OF assms(1,3)] dns_closed show ?thesis by (simp add: ctx_err_done)
next
  case (sender_done b)
  with assms(3) have "ctx_done W s" by (auto simp: col_run_inv_def)
  with task_returns_inv [OF assms(1,3)] sender_done show ?thesis by (simp add: ctx_err_done)
next
  case (closer_done err)
  with task_returns_inv [OF assms(1,3), of CloserTask] show ?thesis by (cases err) simp_all
next
  case (metrics_failed msg)
  with task_returns_inv [OF assms(1,3), of MetricsTask] show ?thesis by simp
next
  case metrics_done
  with task_returns_inv [OF assms(1,3), of MetricsTask] show ?thesis by (simp add: ctx_err_done)
qed (use assms(3) in \<open>simp_all add: col_run_inv_def\<close>)

lemma col_run_inv_start:
  assumes "errgroup_contract W" and "setup_collector fl grpc_ok ok = (Inr c, open)"
  shows "col_run_inv W (start_collector W c)"
proof -
  have "collector_inv c" by (rule setup_collector_inv [OF assms(2)])
  moreover have "s_cancelled (col_sender c) = False" "s_worker (col_sender c) = Idle"
    using assms(2) unfolding setup_collector_def Let_def
    by (auto simp: Collector_New_def NewSender_def split: if_splits prod.splits sum.splits)
  moreover have "\<not> eg_Cancelled W (eg_New W)"
    using errgroup_contractD(2) [OF assms(1), of "[]"] by simp
  ultimately show ?thesis
    by (simp add: col_run_inv_def start_collector_def ctx_done_def results_ok_def)
qed

lemma col_run_inv_reach:
  "\<lbrakk>(col_run uni P W)\<^sup>*\<^sup>* s t; errgroup_contract W; col_run_inv W s\<rbrakk> \<Longrightarrow> col_run_inv W t"
  by (induction rule: rtranclp_induct) (auto intro: col_run_inv_step)

section \<open>A signal while nothing is being delivered\<close>

definition sent :: "'g col_proc \<Rightarrow> nat" where
  "sent s = m_RecordsSent (col_sender (cp_core s))"

lemma sent_simps [simp]:
  "sent (s\<lparr>cp_event := e\<rparr>) = sent s" "sent (s\<lparr>cp_record := e\<rparr>) = sent s" "sent (s\<lparr>cp_open := b\<rparr>) = sent s"
  "sent (s\<lparr>cp_flushing := b\<rparr>) = sent s" "sent (s\<lparr>cp_signal := b\<rparr>) = sent s"
  "sent (propagate W s) = sent s" "sent (task_returns W x r s) = sent s"
  "sent (s\<lparr>cp_core := c\<rparr>) = m_RecordsSent (col_sender c)"
  by (simp_all add: sent_def set_cancelled_def propagate_def task_returns_def)

definition idle_sender :: "'g col_proc \<Rightarrow> bool" where
  "idle_sender s \<longleftrightarrow> (\<exists>b. s_worker (col_sender (cp_core s)) = Stopped b)"

lemma idle_sender_simps [simp]:
  "idle_sender (s\<lparr>cp_event := e\<rparr>) = idle_sender s" "idle_sender (s\<lparr>cp_record := e\<rparr>) = idle_sender s"
  "idle_sender (s\<lparr>cp_open := b\<rparr>) = idle_sender s" "idle_sender (s\<lparr>cp_flushing := b\<rparr>) = idle_sender s"
  "idle_sender (s\<lparr>cp_signal := b\<rparr>) = idle_sender s"
  "idle_sender (propagate W s) = idle_sender s" "idle_sender (task_returns W x r s) = idle_sender s"
  by (simp_all add: idle_sender_def)

lemma same_service_idle:
  "same_service (cp_core s) c \<Longrightarrow>
     idle_sender (s\<lparr>cp_core := c\<rparr>) = idle_sender s \<and> m_RecordsSent (col_sender c) = sent s"
  by (auto simp: same_service_def idle_sender_def sent_def dest: enqueuedD(4,8))

lemma idle_sender_step:
  assumes "col_run uni P W s t" and "col_run_inv W s" and "idle_sender s"
  shows "idle_sender t \<and> sent t = sent s"
proof -
  have core: "collector_inv (cp_core s)" using assms(2) by (simp add: col_run_inv_def)
  show ?thesis
    using assms(1)
  proof cases
    case (handle_event rd fs now ks c)
    with Run_event_inv [OF core handle_event(3)] have "same_service (cp_core s) c" by simp
    from same_service_idle [OF this] handle_event(1) assms(3) show ?thesis by simp
  next
    case (handle_record rd now c)
    with RunDNS_record_inv [OF core handle_record(3)] have "same_service (cp_core s) c" by simp
    from same_service_idle [OF this] handle_record(1) assms(3) show ?thesis by simp
  next
    case (tick ks now c)
    with flush_tick_inv [OF core tick(3), of now] have "same_service (cp_core s) c" by auto
    from same_service_idle [OF this] tick(1) assms(3) show ?thesis by simp
  next
    case (deliver u)
    with assms(3) show ?thesis by (auto simp: delivery_step_def idle_sender_def elim!: sender_stepE)
  qed (use assms(3) in simp_all)
qed

lemma idle_sender_run:
  "\<lbrakk>(col_run uni P W)\<^sup>*\<^sup>* s t; errgroup_contract W; col_run_inv W s; idle_sender s\<rbrakk> \<Longrightarrow> idle_sender t \<and> sent t = sent s"
proof (induction rule: rtranclp_induct)
  case (step t u)
  with col_run_inv_reach [of uni P W s t] idle_sender_step [OF step.hyps(2)] show ?case by simp
qed simp

text \<open>The first error is what \<open>Wait\<close> returns, whatever comes after it.\<close>

lemma first_error_step:
  "\<lbrakk>col_run uni P W s t; first_error (map snd (g_results s)) = Some e\<rbrakk> \<Longrightarrow>
     first_error (map snd (g_results t)) = Some e"
  by (erule col_runE) (simp_all add: first_error_append)

lemma first_error_run:
  "\<lbrakk>(col_run uni P W)\<^sup>*\<^sup>* s t; first_error (map snd (g_results s)) = Some e\<rbrakk> \<Longrightarrow>
     first_error (map snd (g_results t)) = Some e"
  by (induction rule: rtranclp_induct) (auto dest: first_error_step)

lemma sender_stops:
  assumes "s_cancelled s" and "\<forall>b. s_worker s \<noteq> Stopped b"
  shows "\<exists>t b. delivery_step s t \<and> s_worker t = Stopped b \<and> m_RecordsSent t = m_RecordsSent s"
proof (cases "s_worker s")
  case Idle
  from run_done [OF this assms(1)] Idle show ?thesis unfolding delivery_step_def
    by (intro exI [of _ "s\<lparr>s_worker := Stopped []\<rparr>"]) simp
next
  case (Calling b d)
  from report_done [OF this assms(1)] Calling show ?thesis unfolding delivery_step_def
    by (intro exI [of _ "s\<lparr>s_worker := Stopped b\<rparr>"]) simp
next
  case (Waiting b d)
  from wait_done [OF this assms(1)] Waiting show ?thesis unfolding delivery_step_def
    by (intro exI [of _ "s\<lparr>s_worker := Stopped b\<rparr>"]) simp
qed (use assms(2) in blast)

section \<open>What is left after the signal\<close>

fun worker_weight :: "'a worker \<Rightarrow> nat" where
  "worker_weight (Stopped b) = 0"
| "worker_weight Idle = 1"
| "worker_weight (Calling b d) = 2"
| "worker_weight (Waiting b d) = 3"

definition sender_left :: "'a Sender \<Rightarrow> nat" where
  "sender_left s = worker_weight (s_worker s) + 2 * length (s_queue s)"

definition steps_left :: "'g col_proc \<Rightarrow> nat" where
  \<comment> \<open>tasks to return, batches to send, records read and not handled, the signal\<close>
  "steps_left s = card (cp_live s) + sender_left (col_sender (cp_core s))
     + (if cp_event s = None then 0 else 2 * s_cap (col_sender (cp_core s)) + 1)
     + (if cp_record s = None then 0 else 1) + (if cp_signal s then 0 else 1)"

definition quiet :: "('g, col_task) errgroup \<Rightarrow> 'g col_proc \<Rightarrow> bool" where
  \<comment> \<open>the context is done, the loader closed and the flush loop has ended\<close>
  "quiet W s \<longleftrightarrow> ctx_done W s \<and> \<not> cp_open s \<and> \<not> cp_flushing s"

lemma finite_tasks [simp]: "finite (A :: col_task set)"
proof (rule finite_subset)
  show "A \<subseteq> {MetricsTask, SenderTask, CloserTask, RunTask, DNSTask}" using col_task.exhaust by blast
qed simp

lemma remove_member: "p \<in># ps \<Longrightarrow> ps - {#p#} \<noteq> ps"
  by (metis insert_DiffM multi_self_add_other_not_self)

lemma delivery_step_left: "\<lbrakk>delivery_step s t; s_cancelled s\<rbrakk> \<Longrightarrow> sender_left t < sender_left s"
  by (auto simp: delivery_step_def sender_left_def remove_member elim!: sender_stepE)

lemma enqueued_left:
  assumes "enqueued bs s t"
  shows "sender_left t \<le> worker_weight (s_worker s) + 2 * s_cap s"
  using enqueuedD(1,2,4) [OF assms] by (simp add: sender_left_def sender_inv_def)

lemma task_returns_left:
  assumes "x \<in> cp_live s"
  shows "steps_left (task_returns W x r s) < steps_left s"
  using card_Diff1_less [OF finite_tasks assms] by (simp add: steps_left_def sender_left_def)

lemma quiet_returns:
  assumes "errgroup_contract W" and "col_run_inv W s" and "task_result (col_dns (cp_core s) = None) x r" and "quiet W s"
  shows "quiet W (task_returns W x r s)"
  using assms ctx_done_returns [OF assms(1) _ assms(3)] by (simp add: quiet_def col_run_inv_def)

lemma quiet_step:
  assumes "errgroup_contract W" and "col_run_inv W s" and "quiet W s" and "col_run uni P W s t"
  shows "quiet W t \<and> steps_left t < steps_left s"
proof -
  have q: "ctx_done W s" "\<not> cp_open s" "\<not> cp_flushing s" using assms(3) by (simp_all add: quiet_def)
  note ret = quiet_returns [OF assms(1,2) _ assms(3)] task_returns_left ctx_err_done [OF q(1)]
  show ?thesis
    using assms(4)
  proof cases
    case signal
    then show ?thesis using q by (simp add: quiet_def steps_left_def sender_left_def)
  next
    case (handle_event rd fs now ks c)
    obtain bs where e: "enqueued bs (col_sender (cp_core s)) (col_sender c)"
      using Run_event_inv [of "cp_core s" uni fs rd now ks] handle_event assms(2)
      by (auto simp: col_run_inv_def same_service_def)
    from enqueued_left [OF e] enqueuedD(2) [OF e] handle_event q show ?thesis
      by (simp add: quiet_def steps_left_def sender_left_def)
  next
    case (handle_record rd now c)
    with RunDNS_record_same [OF handle_record(3)] q show ?thesis
      by (simp add: quiet_def steps_left_def same_but_dns_def)
  next
    case (deliver u)
    have "s_cancelled (col_sender (cp_core s))" using assms(2) q(1) by (simp add: col_run_inv_def)
    with delivery_step_left [OF deliver(3)] delivery_stepD(6) [OF deliver(3)] deliver(1) q show ?thesis
      by (simp add: quiet_def steps_left_def)
  next
    case (closer_done err)
    with ret(1) [of CloserTask "map_option RunFailed err"] ret(2) show ?thesis by (cases err) simp_all
  qed (use q ret in \<open>simp_all\<close>)
qed

lemma worker_weight_le: "worker_weight w \<le> 3"
  by (cases w) simp_all

lemma steps_left_bound:
  assumes "col_run_inv W s"
  shows "steps_left s \<le> 4 * s_cap (col_sender (cp_core s)) + 11"
proof -
  have "card (cp_live s) \<le> card {MetricsTask, SenderTask, CloserTask, RunTask, DNSTask}"
    using col_task.exhaust by (intro card_mono) auto
  then have "card (cp_live s) \<le> 5" by simp
  moreover have "length (s_queue (col_sender (cp_core s))) \<le> s_cap (col_sender (cp_core s))"
    using assms by (simp add: col_run_inv_def collector_inv_def sender_inv_def)
  ultimately show ?thesis
    using worker_weight_le [of "s_worker (col_sender (cp_core s))"] by (auto simp: steps_left_def sender_left_def)
qed

text \<open>Something can always be done until every task has returned.\<close>

lemma RunDNS_record_returns:
  assumes "parser_progress P left" and "col_dns c \<noteq> None"
  shows "\<exists>c'. RunDNS_record uni P rd now c = Some c'"
proof -
  obtain d where d: "col_dns c = Some d" using assms(2) by blast
  have "\<exists>c'. handleDNS uni P raw now c = Some c'" for raw
  proof -
    obtain res where "DecodeDNS uni P raw = Some res" using DecodeDNS_returns [OF assms(1)] by blast
    then show ?thesis by (cases res) (simp_all add: handleDNS_def d split: prod.split)
  qed
  then show ?thesis by (cases rd) (simp_all add: RunDNS_record_def d)
qed

lemma run_goes_on:
  assumes "col_run_inv W s" and "RunTask \<in> cp_live s" and "\<not> cp_open s"
  shows "\<exists>t. col_run uni P W s t"
proof (cases "cp_event s")
  case None
  from run_closed [OF assms(2) this assms(3)] show ?thesis ..
next
  case (Some rd)
  obtain ks where ks: "raw_order uni (\<lambda>_. None) rd 0 (cp_core s) ks" using raw_order_exists by blast
  then obtain c where "Run_event uni (\<lambda>_. None) ks rd 0 (cp_core s) = Some c"
    using Run_event_inv [OF _ ks] assms(1) unfolding col_run_inv_def by blast
  from handle_event [OF Some ks this] show ?thesis ..
qed

lemma dns_goes_on:
  assumes "DNSTask \<in> cp_live s" and "\<not> cp_open s" and "parser_progress P left"
  shows "\<exists>t. col_run uni P W s t"
proof (cases "col_dns (cp_core s)")
  case None
  from dns_disabled [OF assms(1) this] show ?thesis ..
next
  case d: (Some d)
  show ?thesis
  proof (cases "cp_record s")
    case None
    from dns_closed [OF assms(1) _ this assms(2)] d show ?thesis by auto
  next
    case (Some rd)
    obtain c where "RunDNS_record uni P rd 0 (cp_core s) = Some c"
      using RunDNS_record_returns [OF assms(3), of "cp_core s" uni rd 0] d by auto
    from handle_record [OF Some this] show ?thesis ..
  qed
qed

lemma shutdown_goes_on:
  assumes "col_run_inv W s" and "parser_progress P left" and "quiet W s" and "cp_live s \<noteq> {}"
  shows "\<exists>t. col_run uni P W s t"
proof -
  have q: "ctx_done W s" "\<not> cp_open s" using assms(3) by (simp_all add: quiet_def)
  have "s_cancelled (col_sender (cp_core s))" using assms(1) q(1) by (simp add: col_run_inv_def)
  note sender = sender_stops [OF this]
  obtain x where x: "x \<in> cp_live s" using assms(4) by blast
  show ?thesis
  proof (cases x)
    case MetricsTask
    with metrics_done [OF _ q(1)] x show ?thesis by blast
  next
    case SenderTask
    with x sender show ?thesis by (meson deliver sender_done)
  next
    case CloserTask
    with closer_done [OF _ q(2)] x show ?thesis by blast
  next
    case RunTask
    with run_goes_on [OF assms(1) _ q(2)] x show ?thesis by blast
  next
    case DNSTask
    with dns_goes_on [OF _ q(2) assms(2)] x show ?thesis by blast
  qed
qed

text \<open>From any state in which the context is done: close the loader, end the flush loop.\<close>

lemma reach_quiet:
  assumes "errgroup_contract W" and "col_run_inv W s" and "ctx_done W s"
  shows "\<exists>t. (col_run uni P W)\<^sup>*\<^sup>* s t \<and> quiet W t"
proof -
  have "\<exists>t. (col_run uni P W)\<^sup>*\<^sup>* s t \<and> ctx_done W t \<and> \<not> cp_open t"
  proof (cases "cp_open s")
    case True
    with assms(2) have "CloserTask \<in> cp_live s" by (simp add: col_run_inv_def)
    note r_into_rtranclp [where r = "col_run uni P W", OF close_loader [OF this assms(3) True]]
    with assms(3) show ?thesis by (intro exI [of _ "s\<lparr>cp_open := False\<rparr>"]) simp
  qed (use assms(3) in blast)
  then obtain u where u: "(col_run uni P W)\<^sup>*\<^sup>* s u" "ctx_done W u" "\<not> cp_open u" by blast
  show ?thesis
  proof (cases "cp_flushing u")
    case True
    from rtranclp.rtrancl_into_rtrancl [OF u(1) flush_done [OF True u(2)]] u(2,3) show ?thesis
      by (intro exI [of _ "u\<lparr>cp_flushing := False\<rparr>"]) (simp add: quiet_def)
  qed (use u in \<open>auto simp: quiet_def\<close>)
qed

interpretation shutdown: winding_down "col_run uni P W"
  "\<lambda>s. errgroup_contract W \<and> parser_progress P left \<and> col_run_inv W s \<and> quiet W s" "\<lambda>s. cp_live s = {}" steps_left
  for uni :: unicode_lower and P :: "'p dns_parser" and W :: "('g, col_task) errgroup" and left :: "'p \<Rightarrow> nat"
  by unfold_locales (blast intro: col_run_inv_step quiet_step shutdown_goes_on dest: quiet_step)+

lemma shutdown_ends:
  assumes "errgroup_contract W" and "parser_progress P left" and "col_run_inv W s" and "ctx_done W s"
  shows "\<exists>t. (col_run uni P W)\<^sup>*\<^sup>* s t \<and> cp_live t = {}"
proof -
  obtain u where u: "(col_run uni P W)\<^sup>*\<^sup>* s u" "quiet W u" using reach_quiet [OF assms(1,3,4)] by blast
  with col_run_inv_reach [OF u(1) assms(1,3)] assms(1,2)
    have "errgroup_contract W \<and> parser_progress P left \<and> col_run_inv W u \<and> quiet W u" by blast
  from shutdown.comes_to_rest [OF this] obtain t where "(col_run uni P W)\<^sup>*\<^sup>* u t" "cp_live t = {}" by blast
  with u(1) show ?thesis by (meson rtranclp_trans)
qed

lemma shutdown_may_drop_all:
  assumes W: "errgroup_contract W" and P: "parser_progress P left" and inv: "col_run_inv W s"
    and up: "\<not> ctx_done W s"
  shows "\<exists>t. (col_run uni P W)\<^sup>*\<^sup>* s t \<and> cp_live t = {} \<and> first_error (map snd (g_results t)) = Some Canceled
    \<and> sent t = sent s"
proof -
  have live: "SenderTask \<in> cp_live s" and fresh: "first_error (map snd (g_results s)) = None"
    and run: "\<forall>b. s_worker (col_sender (cp_core s)) \<noteq> Stopped b"
    using inv up ctx_done_results [OF W, of s] by (auto simp: col_run_inv_def)
  let ?a = "propagate W (s\<lparr>cp_signal := True\<rparr>)"
  have a: "col_run uni P W s ?a" using up by (intro signal) (simp add: ctx_done_def)
  have ia: "col_run_inv W ?a" by (rule col_run_inv_step [OF W a inv])
  obtain u b where u: "delivery_step (col_sender (cp_core ?a)) u" "s_worker u = Stopped b"
      "m_RecordsSent u = m_RecordsSent (col_sender (cp_core ?a))"
    using sender_stops [of "col_sender (cp_core ?a)"] run by auto
  let ?b = "?a\<lparr>cp_core := (cp_core ?a)\<lparr>col_sender := u\<rparr>\<rparr>"
  have b: "col_run uni P W ?a ?b" using live by (intro deliver u(1)) simp
  have ib: "col_run_inv W ?b" by (rule col_run_inv_step [OF W b ia])
  let ?c = "task_returns W SenderTask (ctx_err W ?b) ?b"
  have c: "col_run uni P W ?b ?c" using live u(2) by (intro sender_done) simp_all
  have ic: "col_run_inv W ?c" by (rule col_run_inv_step [OF W c ib])
  have done_b: "ctx_done W ?b" by simp
  then have e: "first_error (map snd (g_results ?c)) = Some Canceled"
    using fresh by (simp add: first_error_append ctx_err_done)
  have idle: "idle_sender ?c" "sent ?c = sent s"
    using u(2,3) by (simp_all add: idle_sender_def sent_def set_cancelled_def)
  have "ctx_done W ?c" using ic ctx_done_results [OF W, of ?c] e by (simp add: col_run_inv_def)
  from shutdown_ends [OF W P ic this] obtain t where t: "(col_run uni P W)\<^sup>*\<^sup>* ?c t" "cp_live t = {}" by blast
  have "(col_run uni P W)\<^sup>*\<^sup>* s t" using a b c t(1) by (meson converse_rtranclp_into_rtranclp)
  with t(2) first_error_run [OF t(1) e] idle_sender_run [OF t(1) W ic idle(1)] idle(2) show ?thesis by auto
qed

section \<open>Properties\<close>

text \<open>C13. The collector as a process: as long as no signal came and no task failed, the loader is
  open and every goroutine runs (the DNS loop when naming is on), so capture never stops
  silently. When the last task has returned, the context was done, and the exit code is
  that of the first error a task returned: it is not zero only when the metrics server
  failed or the loader could not be closed.\<close>

theorem collector_exit:
  assumes "errgroup_contract W" and "setup_collector fl grpc_ok ok = (Inr c, open)"
    and "(col_run uni P W)\<^sup>*\<^sup>* (start_collector W c) s"
  shows "(\<not> ctx_done W s \<longrightarrow> cp_open s \<and> cp_flushing s \<and> - {DNSTask} \<subseteq> cp_live s
        \<and> (DNSTask \<in> cp_live s \<or> col_dns (cp_core s) = None))
    \<and> (cp_live s = {} \<longrightarrow> ctx_done W s \<and> collector_exit_code W s = exit_code (first_error (map snd (g_results s)))
        \<and> (collector_exit_code W s \<noteq> 0 \<longrightarrow> (\<exists>m. (MetricsTask, Some (RunFailed m)) \<in> set (g_results s)
              \<or> (CloserTask, Some (RunFailed m)) \<in> set (g_results s))))"
proof -
  have inv: "col_run_inv W s"
    by (rule col_run_inv_reach [OF assms(3,1) col_run_inv_start [OF assms(1,2)]])
  then have ok: "results_ok W s" by (simp add: col_run_inv_def)
  then have wait: "eg_Wait W (cp_group s) = first_error (map snd (g_results s))"
    using errgroup_contractD(1) [OF assms(1)] by (simp add: results_ok_def)
  have res: "task_result (col_dns (cp_core s) = None) x r" if "(x, r) \<in> set (g_results s)" for x r
    using ok that by (auto simp: results_ok_def)
  have "- {DNSTask} \<subseteq> cp_live s" if up: "\<not> ctx_done W s"
  proof
    fix x assume x: "x \<in> - {DNSTask}"
    have none: "r = None" if "(y, r) \<in> set (g_results s)" for y r
      using up ctx_done_results [OF assms(1) ok] first_error_None [of "map snd (g_results s)"] that by force
    have "MetricsTask \<in> cp_live s" using none res ok by (fastforce simp: results_ok_def)
    with x inv up show "x \<in> cp_live s" by (cases x) (auto simp: col_run_inv_def)
  qed
  moreover have "\<exists>m. (MetricsTask, Some (RunFailed m)) \<in> set (g_results s) \<or> (CloserTask, Some (RunFailed m)) \<in> set (g_results s)"
    if failed: "exit_code (first_error (map snd (g_results s))) \<noteq> 0"
  proof -
    obtain m where "first_error (map snd (g_results s)) = Some (RunFailed m)"
      using failed by (cases "first_error (map snd (g_results s))" rule: exit_code.cases) auto
    from first_error_Some [OF this] obtain x where x: "(x, Some (RunFailed m)) \<in> set (g_results s)" by auto
    with res [OF x] show ?thesis by (cases x) (auto split: if_splits)
  qed
  moreover have "ctx_done W s" if "cp_live s = {}" using inv that by (auto simp: col_run_inv_def)
  ultimately show ?thesis using inv by (auto simp: col_run_inv_def collector_exit_code_def main_exit_commands wait)
qed

lemma default_set_up:
  obtains c where "setup_collector default_collector_flags True (\<lambda>_. True) = (Inr c, UNIV)"
proof -
  have "UNIV = {ConnObjs, TracepointLink, FentryLink, EventsReader, DnsObjs, CgroupLink, DnsReader}"
    using bpf_resource.exhaust by blast
  then show thesis
    by (intro that) (auto simp: setup_collector_def default_collector_flags_def Loader_New_def AttachDNS_def second_def Let_def)
qed

theorem collector_exit_witness:
  "\<exists>c s. setup_collector default_collector_flags True (\<lambda>_. True) = (Inr c, UNIV)
     \<and> (col_run id (list_parser \<lparr>h_Response = True, h_RCode = 0\<rparr> [] []) recorded_group)\<^sup>*\<^sup>*
         (start_collector recorded_group c) s \<and> cp_live s = {}
     \<and> collector_exit_code recorded_group s = 0"
proof -
  obtain c where c: "setup_collector default_collector_flags True (\<lambda>_. True) = (Inr c, UNIV)" by (rule default_set_up)
  note start = col_run_inv_start [OF recorded_group_contract c]
  have "\<not> ctx_done recorded_group (start_collector recorded_group c)"
    by (simp add: ctx_done_def start_collector_def recorded_group_def)
  from shutdown_may_drop_all [OF recorded_group_contract list_parser_progress start this] obtain s where s:
    "(col_run id (list_parser \<lparr>h_Response = True, h_RCode = 0\<rparr> [] []) recorded_group)\<^sup>*\<^sup>* (start_collector recorded_group c) s"
    "cp_live s = {}" "first_error (map snd (g_results s)) = Some Canceled" by blast
  from collector_exit [OF recorded_group_contract c s(1)] s c show ?thesis by auto
qed

text \<open>C15. A shutdown of the collector ends: from any state in which the context is done some run
  leads to the exit; once the loader is closed and the flush loop has ended every run has
  at most four steps per batch the queue can hold and eleven more, and until the exit a
  step is always possible. The parser of DNS messages is supposed to consume what it
  returns.\<close>

theorem collector_shutdown_ends:
  assumes "errgroup_contract W" and "parser_progress P left"
    and "setup_collector fl grpc_ok ok = (Inr c, open)"
    and "(col_run uni P W)\<^sup>*\<^sup>* (start_collector W c) s" and "ctx_done W s"
  shows "(\<exists>t. (col_run uni P W)\<^sup>*\<^sup>* s t \<and> cp_live t = {})
    \<and> (\<not> cp_open s \<and> \<not> cp_flushing s \<and> (col_run uni P W ^^ k) s t \<longrightarrow>
         k \<le> 4 * s_cap (col_sender (cp_core s)) + 11 \<and> (cp_live t \<noteq> {} \<longrightarrow> (\<exists>u. col_run uni P W t u)))"
proof (intro conjI impI)
  have inv: "col_run_inv W s"
    by (rule col_run_inv_reach [OF assms(4,1) col_run_inv_start [OF assms(1,3)]])
  show "\<exists>t. (col_run uni P W)\<^sup>*\<^sup>* s t \<and> cp_live t = {}" by (rule shutdown_ends [OF assms(1,2) inv assms(5)])
  assume q: "\<not> cp_open s \<and> \<not> cp_flushing s \<and> (col_run uni P W ^^ k) s t"
  with assms(1,2,5) inv have "errgroup_contract W \<and> parser_progress P left \<and> col_run_inv W s \<and> quiet W s"
    by (simp add: quiet_def)
  with q shutdown.runs_bounded [of k uni P W s t left]
    have t: "errgroup_contract W \<and> parser_progress P left \<and> col_run_inv W t \<and> quiet W t" "k + steps_left t \<le> steps_left s"
    by blast+
  then show "cp_live t \<noteq> {} \<Longrightarrow> \<exists>u. col_run uni P W t u" using shutdown.step_on by blast
  have "steps_left s \<le> 4 * s_cap (col_sender (cp_core s)) + 11" by (rule steps_left_bound [OF inv])
  with t(2) show "k \<le> 4 * s_cap (col_sender (cp_core s)) + 11" by simp
qed

theorem collector_shutdown_ends_witness:
  "\<exists>c t. setup_collector default_collector_flags True (\<lambda>_. True) = (Inr c, UNIV)
     \<and> (col_run id (list_parser \<lparr>h_Response = True, h_RCode = 0\<rparr> [] []) recorded_group)\<^sup>*\<^sup>*
         (propagate recorded_group ((start_collector recorded_group c)\<lparr>cp_signal := True\<rparr>)) t \<and> cp_live t = {}"
proof -
  let ?P = "list_parser \<lparr>h_Response = True, h_RCode = 0\<rparr> [] []" and ?W = "recorded_group"
  obtain c where c: "setup_collector default_collector_flags True (\<lambda>_. True) = (Inr c, UNIV)" by (rule default_set_up)
  let ?s = "propagate ?W ((start_collector ?W c)\<lparr>cp_signal := True\<rparr>)"
  have "(col_run id ?P ?W)\<^sup>*\<^sup>* (start_collector ?W c) ?s"
    by (intro r_into_rtranclp signal) (simp add: start_collector_def)
  moreover have "ctx_done ?W ?s" by simp
  ultimately show ?thesis
    using collector_shutdown_ends [OF recorded_group_contract list_parser_progress c] c by blast
qed

text \<open>Nothing flushes at the shutdown: whenever the collector is running, a signal can end it
  with exit code 0 without a single further record being sent. What is then held in the
  aggregator, in the queue and by the delivery goroutine is lost; of the records queued
  these are exactly the ones counted neither as sent nor as dropped.\<close>

lemma shutdown_discards_flows:
  assumes "errgroup_contract W" and "parser_progress P left"
    and "setup_collector fl grpc_ok ok = (Inr c, open)"
    and "(col_run uni P W)\<^sup>*\<^sup>* (start_collector W c) s" and "\<not> ctx_done W s"
  shows "\<exists>t. (col_run uni P W)\<^sup>*\<^sup>* s t \<and> cp_live t = {}
    \<and> collector_exit_code W t = 0
    \<and> m_RecordsSent (col_sender (cp_core t)) = m_RecordsSent (col_sender (cp_core s))
    \<and> of_nat (m_Events (cp_core t) resultAccepted) =
        agg_total (col_agg (cp_core t)) + records_total (concat (g_pushed (col_sender (cp_core t))))
    \<and> (case col_sender (cp_core t) of S \<Rightarrow> length (concat (g_pushed S)) =
        m_RecordsSent S + m_RecordsDropped S + queued_records (s_queue S) + length (worker_batch (s_worker S)))"
proof -
  have inv: "col_run_inv W s"
    by (rule col_run_inv_reach [OF assms(4,1) col_run_inv_start [OF assms(1,3)]])
  obtain t where t: "(col_run uni P W)\<^sup>*\<^sup>* s t" "cp_live t = {}" "first_error (map snd (g_results t)) = Some Canceled"
    "sent t = sent s" using shutdown_may_drop_all [OF assms(1,2) inv assms(5)] by blast
  have it: "col_run_inv W t" by (rule col_run_inv_reach [OF t(1) assms(1) inv])
  then have "eg_Wait W (cp_group t) = Some Canceled"
    using errgroup_contractD(1) [OF assms(1)] t(3) by (simp add: col_run_inv_def results_ok_def)
  moreover have "collector_inv (cp_core t)" using it by (simp add: col_run_inv_def)
  ultimately show ?thesis using t by (auto simp: collector_exit_code_def main_exit_commands sent_def
        collector_inv_def pushed_total_def all_offered_def sender_inv_def records_accounted_def)
qed

end
