(* ===== verification/Startup.thy ===== *)
theory Startup
  imports Controller
begin

text \<open>
  \<open>Controller.Run\<close> of \<open>internal/resolver/k8s_linux.go\<close>: the two phases of the informers'
  start, the full ClusterIP pass and the signal \<open>WaitForSync\<close> waits for, as a step
  relation. The informers are client-go's. They deliver events one at a time, each with
  the contents their stores then have; \<open>WaitForCacheSync\<close> reports that the stores hold a
  first listing, or that the context was cancelled. As client-go documents of
  \<open>HasSynced\<close>, a store that has synced says nothing about which events the handlers have
  been given yet. Two fields are ghosts: whether the owner stores have synced, and the
  events handled so far.
\<close>

section \<open>State and steps\<close>

datatype run_result = HandlerFailed | SyncFailed | CtxDone

datatype run_phase =
    RunInit  \<comment> \<open>no informer runs\<close>
  | OwnersStarted  \<comment> \<open>in the first \<open>WaitForCacheSync\<close>\<close>
  | OwnersSynced  \<comment> \<open>registering the handlers\<close>
  | HandlersStarted  \<comment> \<open>in the second \<open>WaitForCacheSync\<close>\<close>
  | Serving  \<comment> \<open>waiting for the context\<close>
  | Returned run_result

record ctrl_run =
  cr_phase :: run_phase
  cr_cache :: WCache
  cr_synced :: bool
  cr_running :: bool
  cr_cancelled :: bool
  g_owners_synced :: bool
  g_handled :: "(listers \<times> informer_event) list"

definition NewController :: ctrl_run where
  "NewController =
     \<lparr>cr_phase = RunInit, cr_cache = NewCache, cr_synced = False, cr_running = False,
      cr_cancelled = False, g_owners_synced = False, g_handled = []\<rparr>"

definition finish_sync :: "listers \<Rightarrow> ctrl_run \<Rightarrow> ctrl_run" where
  \<comment> \<open>the full pass and \<open>close(c.syncedChan)\<close>\<close>
  "finish_sync L s =
     s\<lparr>cr_phase := Serving, cr_cache := reindexAllClusterIPs L (cr_cache s), cr_synced := True\<rparr>"

definition deliver_event :: "unicode_lower \<Rightarrow> listers \<Rightarrow> informer_event \<Rightarrow> ctrl_run \<Rightarrow> ctrl_run" where
  "deliver_event uni L ev s =
     s\<lparr>cr_cache := dispatch uni L ev (cr_cache s), g_handled := g_handled s @ [(L, ev)]\<rparr>"

inductive run_step :: "unicode_lower \<Rightarrow> ctrl_run \<Rightarrow> ctrl_run \<Rightarrow> bool" for uni where
  owner_handler_error: "cr_phase s = RunInit \<Longrightarrow>
     run_step uni s (s\<lparr>cr_phase := Returned HandlerFailed\<rparr>)"
| start_owners: "cr_phase s = RunInit \<Longrightarrow> run_step uni s (s\<lparr>cr_phase := OwnersStarted\<rparr>)"
| owners_synced: "cr_phase s = OwnersStarted \<Longrightarrow>
     run_step uni s (s\<lparr>cr_phase := OwnersSynced, g_owners_synced := True\<rparr>)"
| owners_not_synced: "\<lbrakk>cr_phase s = OwnersStarted; cr_cancelled s\<rbrakk> \<Longrightarrow>
     run_step uni s (s\<lparr>cr_phase := Returned SyncFailed\<rparr>)"
| handler_error: "cr_phase s = OwnersSynced \<Longrightarrow>
     run_step uni s (s\<lparr>cr_phase := Returned HandlerFailed\<rparr>)"
| start_handlers: "cr_phase s = OwnersSynced \<Longrightarrow>
     run_step uni s (s\<lparr>cr_phase := HandlersStarted, cr_running := True\<rparr>)"
| event: "cr_running s \<Longrightarrow> run_step uni s (deliver_event uni L ev s)"
| synced: "cr_phase s = HandlersStarted \<Longrightarrow> run_step uni s (finish_sync L s)"
| not_synced: "\<lbrakk>cr_phase s = HandlersStarted; cr_cancelled s\<rbrakk> \<Longrightarrow>
     run_step uni s (s\<lparr>cr_phase := Returned SyncFailed\<rparr>)"
| ctx_done: "\<lbrakk>cr_phase s = Serving; cr_cancelled s\<rbrakk> \<Longrightarrow>
     run_step uni s (s\<lparr>cr_phase := Returned CtxDone\<rparr>)"
| cancel: "run_step uni s (s\<lparr>cr_cancelled := True\<rparr>)"

inductive_cases run_stepE: "run_step uni s t"

section \<open>Invariant\<close>

fun phase_flags :: "run_phase \<Rightarrow> bool \<Rightarrow> bool \<Rightarrow> bool \<Rightarrow> bool" where
  \<comment> \<open>owner stores synced, informers running, signal given\<close>
  "phase_flags RunInit own run sig \<longleftrightarrow> \<not> own \<and> \<not> run \<and> \<not> sig"
| "phase_flags OwnersStarted own run sig \<longleftrightarrow> \<not> own \<and> \<not> run \<and> \<not> sig"
| "phase_flags OwnersSynced own run sig \<longleftrightarrow> own \<and> \<not> run \<and> \<not> sig"
| "phase_flags HandlersStarted own run sig \<longleftrightarrow> own \<and> run \<and> \<not> sig"
| "phase_flags Serving own run sig \<longleftrightarrow> own \<and> run \<and> sig"
| "phase_flags (Returned HandlerFailed) own run sig \<longleftrightarrow> \<not> run \<and> \<not> sig"
| "phase_flags (Returned SyncFailed) own run sig \<longleftrightarrow> (run \<longrightarrow> own) \<and> \<not> sig"
| "phase_flags (Returned CtxDone) own run sig \<longleftrightarrow> own \<and> run \<and> sig"

definition startup_inv :: "unicode_lower \<Rightarrow> ctrl_run \<Rightarrow> bool" where
  "startup_inv uni s \<longleftrightarrow>
     phase_flags (cr_phase s) (g_owners_synced s) (cr_running s) (cr_synced s)
     \<and> (g_handled s \<noteq> [] \<longrightarrow> cr_running s)
     \<and> LookupUID (cr_cache s) = LookupUID (run_events uni (g_handled s) NewCache)"

lemma phase_flagsD:
  assumes "phase_flags ph own run sig"
  shows "run \<longrightarrow> own" and "sig \<longleftrightarrow> ph = Serving \<or> ph = Returned CtxDone" and "ph = Returned HandlerFailed \<longrightarrow> \<not> run"
  using assms by (induction ph own run sig rule: phase_flags.induct) auto

lemma reindexAll_UID: "LookupUID (reindexAllClusterIPs L c) = LookupUID c"
proof -
  have "LookupUID (fold (\<lambda>svc. syncServiceClusterIPs L (Some svc)) svcs c) = LookupUID c" for svcs
    by (induction svcs arbitrary: c) simp_all
  then show ?thesis by (simp add: reindexAllClusterIPs_def split: option.split)
qed

lemma dispatch_UID_cong:
  "LookupUID c = LookupUID c' \<Longrightarrow> LookupUID (dispatch uni L ev c) = LookupUID (dispatch uni L ev c')"
  by (intro ext) (simp add: dispatch_UID split: option.split)

lemma startup_inv_step: "\<lbrakk>run_step uni s t; startup_inv uni s\<rbrakk> \<Longrightarrow> startup_inv uni t"
proof (erule run_stepE)
  fix L ev
  assume inv: "startup_inv uni s" and r: "cr_running s" and t: "t = deliver_event uni L ev s"
  have "LookupUID (cr_cache s) = LookupUID (run_events uni (g_handled s) NewCache)"
    using inv by (simp add: startup_inv_def)
  from dispatch_UID_cong [OF this, of uni L ev]
  have "LookupUID (cr_cache t) = LookupUID (run_events uni (g_handled t) NewCache)"
    by (simp add: t deliver_event_def run_events_def)
  with inv r show "startup_inv uni t" by (simp add: startup_inv_def t deliver_event_def)
qed (simp_all add: startup_inv_def finish_sync_def reindexAll_UID; blast)+

lemma startup_inv_New: "startup_inv uni NewController"
  by (simp add: startup_inv_def NewController_def run_events_def)

lemma startup_inv_run: "(run_step uni)\<^sup>*\<^sup>* NewController s \<Longrightarrow> startup_inv uni s"
  by (induction rule: rtranclp_induct) (auto intro: startup_inv_New startup_inv_step)

section \<open>A run that signals too early\<close>

definition early_pod :: Pod where
  "early_pod = \<lparr>pod_Namespace = ''shop'', pod_Name = ''web-0'', pod_UID = ''u'', pod_OwnerReferences = [],
     pod_HostNetwork = False, pod_PodIP = ''10.0.0.7'', pod_PodIPs = [''10.0.0.7''], pod_unread = []\<rparr>"

definition early_service :: Service where
  "early_service = \<lparr>svc_Namespace = ''shop'', svc_Name = ''web'', svc_ClusterIP = ''10.96.0.1'',
     svc_ClusterIPs = [''10.96.0.1''], svc_Ports = [], svc_unread = []\<rparr>"

definition early_slice :: EndpointSlice where
  "early_slice = \<lparr>es_Namespace = ''shop'', es_Name = ''web-x'',
     es_Labels = fmap_of_list [(endpointSliceServiceNameLabel, ''web'')], es_Ports = [],
     es_Endpoints = [\<lparr>ep_Addresses = [''10.0.0.7''], ep_unread = []\<rparr>], es_unread = []\<rparr>"

definition early_listers :: listers where
  "early_listers = \<lparr>ls_Pod = (\<lambda>ns n. if (ns, n) = (''shop'', ''web-0'') then Some early_pod else None),
     ls_ReplicaSet = (\<lambda>_ _. None), ls_Job = (\<lambda>_ _. None),
     ls_Service = (\<lambda>ns n. if (ns, n) = (''shop'', ''web'') then Some early_service else None),
     ls_Services = Some [early_service],
     ls_Slices = (\<lambda>ns n. Some (if (ns, n) = (''shop'', ''web'') then [early_slice] else []))\<rparr>"

definition early_cache :: "unicode_lower \<Rightarrow> WCache" where
  \<comment> \<open>after the events of the Service and the EndpointSlice, and the full pass\<close>
  "early_cache uni = reindexAllClusterIPs early_listers
     (dispatch uni early_listers (Added EndpointSlices (EndpointSliceObj early_slice))
       (dispatch uni early_listers (Added Services (ServiceObj early_service)) NewCache))"

lemma early_addresses:
  "parse_addr ''10.96.0.1'' = Some (Addr4 0x0A600001)" "parse_addr ''10.0.0.7'' = Some (Addr4 0x0A000007)"
  by code_simp+

lemma early_run:
  "\<exists>s. (run_step uni)\<^sup>*\<^sup>* NewController s \<and> cr_synced s \<and> cr_cache s = early_cache uni"
proof -
  let ?ev1 = "Added Services (ServiceObj early_service)"
  let ?ev2 = "Added EndpointSlices (EndpointSliceObj early_slice)"
  let ?a = "NewController\<lparr>cr_phase := OwnersStarted\<rparr>"
  let ?b = "?a\<lparr>cr_phase := OwnersSynced, g_owners_synced := True\<rparr>"
  let ?c = "?b\<lparr>cr_phase := HandlersStarted, cr_running := True\<rparr>"
  let ?d = "deliver_event uni early_listers ?ev2 (deliver_event uni early_listers ?ev1 ?c)"
  have "run_step uni NewController ?a" by (rule start_owners) (simp add: NewController_def)
  moreover have "run_step uni ?a ?b" by (rule owners_synced) simp
  moreover have "run_step uni ?b ?c" by (rule start_handlers) simp
  moreover have "run_step uni ?c (deliver_event uni early_listers ?ev1 ?c)" by (rule event) simp
  moreover have "run_step uni (deliver_event uni early_listers ?ev1 ?c) ?d"
    by (rule event) (simp add: deliver_event_def)
  moreover have "run_step uni ?d (finish_sync early_listers ?d)"
    by (rule synced) (simp add: deliver_event_def)
  ultimately have "(run_step uni)\<^sup>*\<^sup>* NewController (finish_sync early_listers ?d)"
    by (meson converse_rtranclp_into_rtranclp rtranclp.rtrancl_refl)
  then show ?thesis
    by (intro exI conjI, assumption)
      (simp_all add: finish_sync_def deliver_event_def early_cache_def NewController_def)
qed

lemma early_lookups:
  "LookupIP (early_cache uni) (Addr4 0x0A600001) = None"
  "LookupIP (dispatch uni early_listers (Added Pods (PodObj early_pod)) (early_cache uni)) (Addr4 0x0A600001) = None"
  "LookupIP (dispatch uni early_listers
       (Updated EndpointSlices (EndpointSliceObj early_slice) (EndpointSliceObj early_slice))
       (dispatch uni early_listers (Added Pods (PodObj early_pod)) (early_cache uni))) (Addr4 0x0A600001)
     = Some \<lparr>w_Name = ''web-0'', w_Namespace = ''shop'', w_Kind = ''Pod''\<rparr>"
  by code_simp+

section \<open>Properties\<close>

text \<open>C22. The start-up order of the resolver: whatever the informers deliver and whenever the
  context ends, no event is handled before the owner stores have synced; the sync signal
  is given exactly when both phases have passed, never after an error; no handler runs
  after a failed registration; and at any time the UID index is what the events handled
  so far leave, the full ClusterIP pass included.\<close>

theorem startup_order:
  assumes "(run_step uni)\<^sup>*\<^sup>* NewController s"
  shows "(g_handled s \<noteq> [] \<longrightarrow> g_owners_synced s)
    \<and> (cr_synced s \<longleftrightarrow> cr_phase s = Serving \<or> cr_phase s = Returned CtxDone)
    \<and> (cr_phase s = Returned HandlerFailed \<longrightarrow> g_handled s = [])
    \<and> LookupUID (cr_cache s) u = LookupUID (run_events uni (g_handled s) NewCache) u"
proof -
  have flags: "phase_flags (cr_phase s) (g_owners_synced s) (cr_running s) (cr_synced s)"
    and "g_handled s \<noteq> [] \<longrightarrow> cr_running s"
    and "LookupUID (cr_cache s) = LookupUID (run_events uni (g_handled s) NewCache)"
    using startup_inv_run [OF assms] by (simp_all add: startup_inv_def)
  with phase_flagsD [OF flags] show ?thesis by auto
qed

theorem startup_order_witness:
  "\<exists>s. (run_step id)\<^sup>*\<^sup>* NewController s \<and> cr_phase s = Returned HandlerFailed \<and> g_handled s = []"
proof -
  let ?s = "NewController\<lparr>cr_phase := Returned HandlerFailed\<rparr>"
  have "run_step id NewController ?s" by (rule owner_handler_error) (simp add: NewController_def)
  then have r: "(run_step id)\<^sup>*\<^sup>* NewController ?s" by (rule r_into_rtranclp)
  with startup_order [OF r] show ?thesis by (intro exI [of _ ?s]) simp
qed

text \<open>The full ClusterIP pass can come too early: a store that has synced has not given its
  events to the handlers, so there is a run in which the resolver signals that it is
  ready although a Service, its EndpointSlice and the running pod behind it are all in
  the stores and the Service's ClusterIP is unknown. Handling the pod's event later does
  not repair it; the next event of the EndpointSlice does.\<close>

lemma synced_misses_clusterIP:
  "\<exists>s L ip pod slice svc wl. (run_step uni)\<^sup>*\<^sup>* NewController s \<and> cr_synced s
     \<and> ls_Pod L (pod_Namespace pod) (pod_Name pod) = Some pod \<and> ls_Services L = Some [svc]
     \<and> ls_Slices L (svc_Namespace svc) (svc_Name svc) = Some [slice]
     \<and> clusterIPs svc = [ip] \<and> podIPs pod = parseable (slice_addresses (Some slice))
     \<and> LookupIP (cr_cache s) ip = None
     \<and> LookupIP (dispatch uni L (Added Pods (PodObj pod)) (cr_cache s)) ip = None
     \<and> LookupIP (dispatch uni L (Updated EndpointSlices (EndpointSliceObj slice) (EndpointSliceObj slice))
         (dispatch uni L (Added Pods (PodObj pod)) (cr_cache s))) ip = Some wl"
proof -
  obtain s where s: "(run_step uni)\<^sup>*\<^sup>* NewController s" "cr_synced s" "cr_cache s = early_cache uni"
    using early_run by blast
  have "ls_Pod early_listers (pod_Namespace early_pod) (pod_Name early_pod) = Some early_pod"
    "ls_Services early_listers = Some [early_service]"
    "ls_Slices early_listers (svc_Namespace early_service) (svc_Name early_service) = Some [early_slice]"
    "clusterIPs early_service = [Addr4 0x0A600001]"
    "podIPs early_pod = parseable (slice_addresses (Some early_slice))"
    by (simp_all add: early_listers_def early_pod_def early_service_def clusterIPs_def early_addresses
        ClusterIPNone_def podIPs_def slice_addresses_def early_slice_def)
  with s early_lookups [of uni] show ?thesis by metis
qed

end
