(* ===== verification/Processor_Run.thy ===== *)
theory Processor_Run
  imports Errgroup Startup
begin

text \<open>
  \<open>runProcessor\<close> of \<open>cmd/sniffer/processor_linux.go\<close> as a process, from the start of the
  resolver to the exit code: the goroutines of the group, the main goroutine that waits
  for the sync, sets the sinks and the listener up and joins the group. The resolver is
  the step relation of \<open>Startup\<close>; the theory \<open>Lifecycle\<close> has what the server does to the
  records meanwhile.
\<close>

section \<open>State\<close>

datatype proc_task =
    ServeTask  \<comment> \<open>\<open>telemetry.Serve\<close>\<close>
  | ResolverTask  \<comment> \<open>\<open>ctrl.Run\<close>\<close>
  | GrpcTask  \<comment> \<open>\<open>srv.Serve\<close>\<close>
  | StopTask  \<comment> \<open>waits for the context and stops the server\<close>
  | SweepTask

datatype main_phase =
    AwaitSync  \<comment> \<open>selects between the context and \<open>syncDone\<close>\<close>
  | SettingUp  \<comment> \<open>sinks and listener\<close>
  | Joining  \<comment> \<open>in \<open>g.Wait\<close>\<close>
  | Exited "run_error option"

record 'g boot =
  bt_group :: 'g
  bt_signal :: bool
  bt_live :: "proc_task set"
  bt_ctrl :: ctrl_run
  bt_main :: main_phase
  g_ended :: "(proc_task \<times> run_error option) list"
  g_setup_failed :: bool

definition boot_done :: "('g, proc_task) errgroup \<Rightarrow> 'g boot \<Rightarrow> bool" where
  "boot_done W s \<longleftrightarrow> bt_signal s \<or> eg_Cancelled W (bt_group s)"

definition boot_start :: "('g, proc_task) errgroup \<Rightarrow> 'g boot" where
  "boot_start W =
     \<lparr>bt_group = eg_New W, bt_signal = False, bt_live = {ServeTask, ResolverTask}, bt_ctrl = NewController,
      bt_main = AwaitSync, g_ended = [], g_setup_failed = False\<rparr>"

definition boot_returns ::
  "('g, proc_task) errgroup \<Rightarrow> proc_task \<Rightarrow> run_error option \<Rightarrow> 'g boot \<Rightarrow> 'g boot" where
  "boot_returns W x r s =
     s\<lparr>bt_group := eg_Return W x r (bt_group s), bt_live := bt_live s - {x}, g_ended := g_ended s @ [(x, r)]\<rparr>"

fun resolver_result :: "run_result \<Rightarrow> run_error option" where
  \<comment> \<open>the function around \<open>ctrl.Run\<close>: \<open>context.Canceled\<close> is no error\<close>
  "resolver_result HandlerFailed = Some (RunFailed ''handler'')"
| "resolver_result SyncFailed = Some (RunFailed ''failed to sync'')"
| "resolver_result CtxDone = None"

section \<open>Steps\<close>

inductive boot_step :: "unicode_lower \<Rightarrow> ('g, proc_task) errgroup \<Rightarrow> 'g boot \<Rightarrow> 'g boot \<Rightarrow> bool" for uni W where
  signal: "boot_step uni W s (s\<lparr>bt_signal := True\<rparr>)"
| resolver: "\<lbrakk>run_step uni ((bt_ctrl s)\<lparr>cr_cancelled := boot_done W s\<rparr>) c; cr_cancelled c = boot_done W s\<rbrakk> \<Longrightarrow>
     boot_step uni W s (s\<lparr>bt_ctrl := c\<rparr>)"
| resolver_done: "\<lbrakk>ResolverTask \<in> bt_live s; cr_phase (bt_ctrl s) = Returned r\<rbrakk> \<Longrightarrow>
     boot_step uni W s (boot_returns W ResolverTask (resolver_result r) s)"
| serve_failed: "ServeTask \<in> bt_live s \<Longrightarrow>
     boot_step uni W s (boot_returns W ServeTask (Serve_result (Some msg) (Some Canceled)) s)"
| serve_done: "\<lbrakk>ServeTask \<in> bt_live s; boot_done W s\<rbrakk> \<Longrightarrow>
     boot_step uni W s (boot_returns W ServeTask (Serve_result None (Some Canceled)) s)"
| give_up: "\<lbrakk>bt_main s = AwaitSync; boot_done W s\<rbrakk> \<Longrightarrow> boot_step uni W s (s\<lparr>bt_main := Joining\<rparr>)"
| synced: "\<lbrakk>bt_main s = AwaitSync; cr_synced (bt_ctrl s)\<rbrakk> \<Longrightarrow> boot_step uni W s (s\<lparr>bt_main := SettingUp\<rparr>)"
| setup_failed: "bt_main s = SettingUp \<Longrightarrow>
     boot_step uni W s (s\<lparr>bt_main := Exited (Some err), g_setup_failed := True\<rparr>)"
| started: "bt_main s = SettingUp \<Longrightarrow>
     boot_step uni W s (s\<lparr>bt_main := Joining, bt_live := bt_live s \<union> {GrpcTask, StopTask, SweepTask}\<rparr>)"
| grpc_failed: "GrpcTask \<in> bt_live s \<Longrightarrow>
     boot_step uni W s (boot_returns W GrpcTask (Some (RunFailed msg)) s)"
| grpc_done: "\<lbrakk>GrpcTask \<in> bt_live s; boot_done W s\<rbrakk> \<Longrightarrow> boot_step uni W s (boot_returns W GrpcTask None s)"
| stop_done: "\<lbrakk>StopTask \<in> bt_live s; boot_done W s\<rbrakk> \<Longrightarrow> boot_step uni W s (boot_returns W StopTask None s)"
| sweep_done: "\<lbrakk>SweepTask \<in> bt_live s; boot_done W s\<rbrakk> \<Longrightarrow> boot_step uni W s (boot_returns W SweepTask None s)"
| joined: "\<lbrakk>bt_main s = Joining; bt_live s = {}\<rbrakk> \<Longrightarrow>
     boot_step uni W s (s\<lparr>bt_main := Exited (eg_Wait W (bt_group s))\<rparr>)"

inductive_cases boot_stepE: "boot_step uni W s t"

definition processor_exit_code :: "run_error option \<Rightarrow> nat" where
  "processor_exit_code r = main_exit (\<lambda>_. None) (\<lambda>_. r) [''sniffer'', ''processor'']"

section \<open>Invariant\<close>

fun boot_result :: "ctrl_run \<Rightarrow> proc_task \<Rightarrow> run_error option \<Rightarrow> bool" where
  "boot_result c ServeTask r \<longleftrightarrow> r \<noteq> None"
| "boot_result c ResolverTask r \<longleftrightarrow> (\<exists>x. cr_phase c = Returned x \<and> r = resolver_result x)"
| "boot_result c GrpcTask r \<longleftrightarrow> cr_synced c \<and> r \<noteq> Some Canceled"
| "boot_result c x r \<longleftrightarrow> cr_synced c \<and> r = None"

definition boot_inv :: "unicode_lower \<Rightarrow> ('g, proc_task) errgroup \<Rightarrow> 'g boot \<Rightarrow> bool" where
  "boot_inv uni W s \<longleftrightarrow> startup_inv uni (bt_ctrl s)
     \<and> bt_group s = group_after W (g_ended s)
     \<and> (\<forall>(x, r) \<in> set (g_ended s). boot_result (bt_ctrl s) x r)
     \<and> (bt_live s \<inter> {GrpcTask, StopTask, SweepTask} \<noteq> {} \<or> bt_main s = SettingUp \<longrightarrow> cr_synced (bt_ctrl s))
     \<and> (ResolverTask \<in> bt_live s \<or> ResolverTask \<in> fst ` set (g_ended s))
     \<and> (\<forall>r. bt_main s = Exited r \<and> \<not> g_setup_failed s \<longrightarrow>
          bt_live s = {} \<and> r = first_error (map snd (g_ended s)))"

lemma run_step_returned:
  "\<lbrakk>run_step uni c c'; cr_phase c = Returned x\<rbrakk> \<Longrightarrow> cr_phase c' = Returned x \<and> cr_synced c' = cr_synced c"
  by (erule run_stepE) (simp_all add: deliver_event_def)

lemma run_step_synced: "\<lbrakk>run_step uni c c'; cr_synced c\<rbrakk> \<Longrightarrow> cr_synced c'"
  by (erule run_stepE) (simp_all add: deliver_event_def finish_sync_def)

lemma boot_result_step:
  assumes "run_step uni (c\<lparr>cr_cancelled := b\<rparr>) c'" and "boot_result c x r"
  shows "boot_result c' x r"
  using assms(2) run_step_returned [OF assms(1)] run_step_synced [OF assms(1)] by (cases x) auto

lemma startup_inv_cancelled [simp]: "startup_inv uni (c\<lparr>cr_cancelled := b\<rparr>) \<longleftrightarrow> startup_inv uni c"
  by (simp add: startup_inv_def)

lemma boot_returns_inv:
  assumes "boot_inv uni W s" and "boot_result (bt_ctrl s) x r" and "x \<in> bt_live s"
  shows "boot_inv uni W (boot_returns W x r s)"
  using assms by (auto simp: boot_inv_def boot_returns_def)

lemma boot_step_inv:
  assumes "errgroup_contract W" and "boot_step uni W s t" and "boot_inv uni W s"
  shows "boot_inv uni W t"
  using assms(2)
proof cases
  case (resolver c)
  have "startup_inv uni c" using startup_inv_step [OF resolver(2)] assms(3) by (simp add: boot_inv_def)
  moreover have "boot_result c x r" if "(x, r) \<in> set (g_ended s)" for x r
    using boot_result_step [OF resolver(2)] assms(3) that by (auto simp: boot_inv_def)
  moreover have "cr_synced (bt_ctrl s) \<Longrightarrow> cr_synced c" using run_step_synced [OF resolver(2)] by simp
  ultimately show ?thesis using assms(3) resolver(1) by (auto simp: boot_inv_def)
next
  case (resolver_done r)
  with boot_returns_inv [OF assms(3), of ResolverTask] show ?thesis by simp
next
  case (serve_failed msg)
  with boot_returns_inv [OF assms(3), of ServeTask] show ?thesis by simp
next
  case serve_done
  with boot_returns_inv [OF assms(3), of ServeTask] show ?thesis by simp
next
  case (grpc_failed msg)
  with boot_returns_inv [OF assms(3), of GrpcTask] assms(3) show ?thesis by (simp add: boot_inv_def)
next
  case grpc_done
  with boot_returns_inv [OF assms(3), of GrpcTask] assms(3) show ?thesis by (simp add: boot_inv_def)
next
  case stop_done
  with boot_returns_inv [OF assms(3), of StopTask] assms(3) show ?thesis by (simp add: boot_inv_def)
next
  case sweep_done
  with boot_returns_inv [OF assms(3), of SweepTask] assms(3) show ?thesis by (simp add: boot_inv_def)
next
  case joined
  with assms(3) errgroup_contractD(1) [OF assms(1)] show ?thesis by (auto simp: boot_inv_def)
qed (use assms(3) in \<open>auto simp: boot_inv_def\<close>)

lemma boot_inv_start: "boot_inv uni W (boot_start W)"
  by (simp add: boot_inv_def boot_start_def startup_inv_New)

lemma boot_inv_reach: "\<lbrakk>(boot_step uni W)\<^sup>*\<^sup>* (boot_start W) s; errgroup_contract W\<rbrakk> \<Longrightarrow> boot_inv uni W s"
  by (induction rule: rtranclp_induct) (auto intro: boot_inv_start boot_step_inv)

lemma boot_done_results:
  assumes "errgroup_contract W" and "boot_inv uni W s"
  shows "boot_done W s \<longleftrightarrow> bt_signal s \<or> first_error (map snd (g_ended s)) \<noteq> None"
  using assms(2) errgroup_contractD(2) [OF assms(1)] by (simp add: boot_done_def boot_inv_def)

lemma resolver_outcome:
  assumes "boot_inv uni W s" and "(ResolverTask, r) \<in> set (g_ended s)"
  shows "r = None \<longleftrightarrow> cr_synced (bt_ctrl s)" and "r \<noteq> Some Canceled"
proof -
  obtain x where x: "cr_phase (bt_ctrl s) = Returned x" "r = resolver_result x"
    using assms by (fastforce simp: boot_inv_def)
  have flags: "phase_flags (Returned x) (g_owners_synced (bt_ctrl s)) (cr_running (bt_ctrl s)) (cr_synced (bt_ctrl s))"
    using assms(1) x(1) by (metis boot_inv_def startup_inv_def)
  then show "r = None \<longleftrightarrow> cr_synced (bt_ctrl s)" by (cases x) (simp_all add: x(2))
  show "r \<noteq> Some Canceled" by (cases x) (simp_all add: x(2))
qed

lemma processor_exit_code_eq: "processor_exit_code r = exit_code r"
  by (simp add: processor_exit_code_def main_exit_commands)

section \<open>A signal before the sync\<close>

lemma early_signal:
  assumes "errgroup_contract W"
  shows "\<exists>s. (boot_step uni W)\<^sup>*\<^sup>* (boot_start W) s \<and> bt_main s = Exited (Some (RunFailed ''failed to sync''))
    \<and> g_ended s = [(ResolverTask, Some (RunFailed ''failed to sync'')), (ServeTask, Some Canceled)]
    \<and> bt_signal s \<and> \<not> g_setup_failed s"
proof -
  let ?a = "(boot_start W)\<lparr>bt_signal := True\<rparr>"
  let ?c1 = "NewController\<lparr>cr_cancelled := True, cr_phase := OwnersStarted\<rparr>"
  let ?b = "?a\<lparr>bt_ctrl := ?c1\<rparr>"
  let ?c2 = "?c1\<lparr>cr_phase := Returned SyncFailed\<rparr>"
  let ?c = "?b\<lparr>bt_ctrl := ?c2\<rparr>"
  let ?d = "boot_returns W ResolverTask (resolver_result SyncFailed) ?c"
  let ?e = "boot_returns W ServeTask (Some Canceled) ?d"
  let ?f = "?e\<lparr>bt_main := Joining\<rparr>"
  let ?g = "?f\<lparr>bt_main := Exited (eg_Wait W (bt_group ?f))\<rparr>"
  have up: "boot_done W ?a" "boot_done W ?b" "boot_done W ?c" "boot_done W ?d" "boot_done W ?e"
    by (simp_all add: boot_done_def boot_returns_def)
  have "run_step uni (NewController\<lparr>cr_cancelled := True\<rparr>) ?c1"
    using start_owners [of "NewController\<lparr>cr_cancelled := True\<rparr>" uni] by (simp add: NewController_def)
  then have b: "boot_step uni W ?a ?b" using up(1) by (intro resolver) (simp_all add: boot_start_def)
  have "run_step uni ?c1 ?c2" using owners_not_synced [of ?c1 uni] by simp
  then have c: "boot_step uni W ?b ?c" using up(2) by (intro resolver) (simp_all add: NewController_def)
  have d: "boot_step uni W ?c ?d" by (rule resolver_done) (simp_all add: boot_start_def)
  have e: "boot_step uni W ?d ?e" using up(4) serve_done [of ?d W uni] by (simp_all add: boot_returns_def boot_start_def)
  have f: "boot_step uni W ?e ?f" using up(5) by (intro give_up) (simp_all add: boot_returns_def boot_start_def)
  have g: "boot_step uni W ?f ?g" by (rule joined) (simp_all add: boot_returns_def boot_start_def, blast)
  have "bt_group ?f = group_after W [(ResolverTask, resolver_result SyncFailed), (ServeTask, Some Canceled)]"
    by (simp add: boot_returns_def boot_start_def group_after_def)
  with errgroup_contractD(1) [OF assms] have w: "eg_Wait W (bt_group ?f) = Some (RunFailed ''failed to sync'')"
    by simp
  have "(boot_step uni W)\<^sup>*\<^sup>* (boot_start W) ?g"
    using signal [of uni W "boot_start W"] b c d e f g by (meson converse_rtranclp_into_rtranclp rtranclp.rtrancl_refl)
  moreover have "g_ended ?g = [(ResolverTask, Some (RunFailed ''failed to sync'')), (ServeTask, Some Canceled)]"
    "bt_signal ?g" "\<not> g_setup_failed ?g" by (simp_all add: boot_returns_def boot_start_def)
  moreover have "bt_main ?g = Exited (Some (RunFailed ''failed to sync''))" using w by simp
  ultimately show ?thesis by blast
qed

section \<open>Properties\<close>

text \<open>C26. The processor as a process: the server, its stopper and the sweep loop run only after
  the resolver's sync; the main goroutine never waits for a sync that cannot come, since
  a resolver that ended without one has cancelled the context; and when the process ends
  with a non-zero code after its set-up, a task failed: the metrics server, the gRPC
  server, or the resolver before its sync. A plain signal before the sync is such a
  case: the informers' \<open>failed to sync\<close> is not \<open>context.Canceled\<close>, so the processor may
  exit with code 1.\<close>

theorem processor_exit:
  assumes "errgroup_contract W" and "(boot_step uni W)\<^sup>*\<^sup>* (boot_start W) s"
  shows "(bt_live s \<inter> {GrpcTask, StopTask, SweepTask} \<noteq> {} \<longrightarrow> cr_synced (bt_ctrl s))
    \<and> (bt_main s = AwaitSync \<and> ResolverTask \<notin> bt_live s \<longrightarrow> boot_done W s \<or> cr_synced (bt_ctrl s))
    \<and> (\<forall>r. bt_main s = Exited r \<and> \<not> g_setup_failed s \<and> processor_exit_code r \<noteq> 0 \<longrightarrow>
         (\<exists>x m. (x, Some (RunFailed m)) \<in> set (g_ended s) \<and> x \<in> {ServeTask, GrpcTask, ResolverTask}
            \<and> (x = ResolverTask \<longrightarrow> \<not> cr_synced (bt_ctrl s))))
    \<and> (\<exists>u m. (boot_step uni W)\<^sup>*\<^sup>* (boot_start W) u \<and> bt_main u = Exited (Some (RunFailed m))
         \<and> processor_exit_code (Some (RunFailed m)) = 1 \<and> bt_signal u
         \<and> g_ended u = [(ResolverTask, resolver_result SyncFailed), (ServeTask, Some Canceled)])"
proof -
  have inv: "boot_inv uni W s" by (rule boot_inv_reach [OF assms(2,1)])
  have "boot_done W s \<or> cr_synced (bt_ctrl s)" if gone: "ResolverTask \<notin> bt_live s"
  proof -
    obtain r where r: "(ResolverTask, r) \<in> set (g_ended s)" using inv gone by (auto simp: boot_inv_def)
    show ?thesis
    proof (cases r)
      case (Some e)
      with r have "Some e \<in> set (map snd (g_ended s))" by force
      then have "first_error (map snd (g_ended s)) \<noteq> None" unfolding first_error_None by blast
      with boot_done_results [OF assms(1) inv] show ?thesis by simp
    qed (use resolver_outcome(1) [OF inv r] in simp)
  qed
  moreover have "\<exists>x m. (x, Some (RunFailed m)) \<in> set (g_ended s) \<and> x \<in> {ServeTask, GrpcTask, ResolverTask}
      \<and> (x = ResolverTask \<longrightarrow> \<not> cr_synced (bt_ctrl s))"
    if r: "bt_main s = Exited r" "\<not> g_setup_failed s" "processor_exit_code r \<noteq> 0" for r
  proof -
    obtain m where "r = Some (RunFailed m)"
      using r(3) unfolding processor_exit_code_eq by (cases r rule: exit_code.cases) auto
    with inv r(1,2) have "first_error (map snd (g_ended s)) = Some (RunFailed m)" by (auto simp: boot_inv_def)
    from first_error_Some [OF this] obtain x where x: "(x, Some (RunFailed m)) \<in> set (g_ended s)" by auto
    with inv have "boot_result (bt_ctrl s) x (Some (RunFailed m))" by (auto simp: boot_inv_def)
    with x resolver_outcome(1) [OF inv, of "Some (RunFailed m)"] show ?thesis
      by (intro exI [of _ x] exI [of _ m]) (cases x, auto)
  qed
  ultimately show ?thesis
    using inv early_signal [OF assms(1), of uni] by (auto simp: boot_inv_def processor_exit_code_eq)
qed

theorem processor_exit_witness:
  "errgroup_contract recorded_group
   \<and> (\<exists>u m. (boot_step id recorded_group)\<^sup>*\<^sup>* (boot_start recorded_group) u
        \<and> bt_main u = Exited (Some (RunFailed m)) \<and> processor_exit_code (Some (RunFailed m)) = 1)"
  using processor_exit [OF recorded_group_contract rtranclp.rtrancl_refl, of id] recorded_group_contract by blast

end
