(* ===== verification/Dns_Probe.thy ===== *)
theory Dns_Probe
  imports Dns_Decode
begin

unbundle bit_operations_syntax

text \<open>
  \<open>bpf/sniffer.c\<close>, the DNS capture: the program \<open>handle_dns_ingress\<close> on the bytes of a
  packet, from the network header on, and the record it submits. The ring buffer is
  the list of the records submitted so far; a reserved record's payload starts with
  whatever was in the buffer (\<open>junk\<close>).
\<close>

section \<open>The program\<close>

definition skb_load_bytes :: "byte list \<Rightarrow> nat \<Rightarrow> nat \<Rightarrow> byte list option" where
  \<comment> \<open>the helper \<open>bpf_skb_load_bytes\<close>: \<open>None\<close> is a negative result\<close>
  "skb_load_bytes skb off n = (if off + n \<le> length skb then Some (take n (drop off skb)) else None)"

definition dns_event_bytes :: "nat \<Rightarrow> byte list \<Rightarrow> byte list" where
  \<comment> \<open>the packed record: length in host byte order, payload array\<close>
  "dns_event_bytes n payload = le_bytes 2 n @ payload"

definition udp_offset :: "byte list \<Rightarrow> (nat \<times> byte) option" where
  \<comment> \<open>offset of the transport header and the protocol; \<open>None\<close> passes the packet on\<close>
  "udp_offset skb =
     (case skb_load_bytes skb 0 1 of
        None \<Rightarrow> None
      | Some v \<Rightarrow>
          let vihl = v ! 0 in
          if drop_bit 4 vihl = 4 then
            let l4off = unat (vihl AND 0x0f) * 4 in
            if l4off < 20 then None
            else map_option (\<lambda>p. (l4off, p ! 0)) (skb_load_bytes skb 9 1)
          else if drop_bit 4 vihl = 6 then map_option (\<lambda>p. (40, p ! 0)) (skb_load_bytes skb 6 1)
          else None)"

definition handle_dns_ingress ::
  "bool \<Rightarrow> byte list \<Rightarrow> byte list \<Rightarrow> byte list list \<Rightarrow> nat \<times> byte list list" where
  \<comment> \<open>the verdict (1 passes the packet) and the records submitted\<close>
  "handle_dns_ingress reserved junk skb evs =
     (case udp_offset skb of
        None \<Rightarrow> (1, evs)
      | Some (l4off, proto) \<Rightarrow>
          if proto \<noteq> 17 then (1, evs)
          else
            case skb_load_bytes skb l4off 2 of
              None \<Rightarrow> (1, evs)
            | Some sport \<Rightarrow>
                if le_nat sport \<noteq> unat (bpf_htons 53) then (1, evs)
                else
                  let off = l4off + 8 in
                  if length skb \<le> off then (1, evs)
                  else
                    let len = min (length skb - off) 512 in
                    if len < 12 then (1, evs)
                    else if \<not> reserved then (1, evs)
                    else
                      let n = unat ((of_nat len :: 64 word) AND 0x3ff) in
                      if n = 0 \<or> 512 < n then (1, evs)
                      else
                        case skb_load_bytes skb off n of
                          None \<Rightarrow> (1, evs)
                        | Some bytes \<Rightarrow>
                            (1, evs @ [dns_event_bytes (n mod 2 ^ 16) (bytes @ drop n junk)]))"

section \<open>Packets\<close>

definition ip_header :: "byte list \<Rightarrow> bool" where
  \<comment> \<open>an IPv4 header of its declared length, or an IPv6 header without extensions, in front of UDP\<close>
  "ip_header h \<longleftrightarrow>
     (length h = 4 * unat (hd h AND 0x0f) \<and> 20 \<le> length h \<and> drop_bit 4 (hd h) = 4 \<and> h ! 9 = 17)
     \<or> (length h = 40 \<and> drop_bit 4 (hd h) = 6 \<and> h ! 6 = 17)"

definition from_dns_port :: "byte list \<Rightarrow> bool" where
  \<comment> \<open>a UDP header with source port 53\<close>
  "from_dns_port u \<longleftrightarrow> length u = 8 \<and> be_nat (take 2 u) = 53"

lemma udp_offset_header:
  assumes "ip_header h"
  shows "udp_offset (h @ r) = Some (length h, 17)"
proof -
  have ne: "h \<noteq> []" using assms by (auto simp: ip_header_def)
  then have hd: "hd h = h ! 0" by (rule hd_conv_nth)
  have load: "skb_load_bytes (h @ r) i 1 = Some [h ! i]" if "i < length h" for i
    using that by (simp add: skb_load_bytes_def nth_append take_Suc_conv_app_nth flip: Cons_nth_drop_Suc)
  have "skb_load_bytes (h @ r) 0 1 = Some [hd h]" using ne hd load [of 0] by simp
  with assms load [of 9] load [of 6] show ?thesis
    unfolding ip_header_def by (auto simp: udp_offset_def Let_def)
qed

lemma mask_1023: "n \<le> 512 \<Longrightarrow> unat ((of_nat n :: 64 word) AND 0x3ff) = n"
proof -
  assume n: "n \<le> 512"
  have "(0x3ff :: 64 word) = mask 10" by (simp add: mask_eq_exp_minus_1)
  then have "unat ((of_nat n :: 64 word) AND 0x3ff) = take_bit 10 (unat (of_nat n :: 64 word))"
    by (metis take_bit_eq_mask unsigned_take_bit_eq)
  also have "unat (of_nat n :: 64 word) = n" using n by (simp add: unat_of_nat take_bit_nat_eq_self)
  finally show ?thesis using n by (simp add: take_bit_nat_eq_self)
qed

lemma le_nat_inj: "\<lbrakk>length bs = length cs; le_nat bs = le_nat cs\<rbrakk> \<Longrightarrow> bs = cs"
  unfolding le_nat_def by (metis be_bytes_be_nat length_rev rev_rev_ident)

lemma port_bytes:
  assumes "length bs = 2"
  shows "le_nat bs = unat (bpf_htons w) \<longleftrightarrow> be_nat bs = unat w"
proof -
  have "unat (bpf_htons w) < 256 ^ 2" using unsigned_less [of "bpf_htons w", where ?'a = nat] by simp
  then have h: "unat (bpf_htons w) = le_nat (be_bytes 2 (unat w))"
    using le_nat_le_bytes [of 2 "unat (bpf_htons w)"] by (simp add: le_bytes_bpf_htons del: be_bytes.simps)
  have "unat w < 256 ^ 2" using unsigned_less [of w, where ?'a = nat] by simp
  then have w: "be_nat (be_bytes 2 (unat w)) = unat w" by (simp add: be_nat_be_bytes del: be_bytes.simps)
  show ?thesis
  proof
    assume "le_nat bs = unat (bpf_htons w)"
    with h assms have "bs = be_bytes 2 (unat w)" by (metis le_nat_inj length_be_bytes)
    with w show "be_nat bs = unat w" by (simp del: be_bytes.simps)
  next
    assume "be_nat bs = unat w"
    then have "bs = be_bytes 2 (unat w)" using assms by (metis be_bytes_be_nat)
    with h show "le_nat bs = unat (bpf_htons w)" by (simp del: be_bytes.simps)
  qed
qed

lemma capture_record:
  assumes "ip_header h" and "from_dns_port u" and "12 \<le> length p"
  shows "handle_dns_ingress True junk (h @ u @ p) evs =
     (1, evs @ [dns_event_bytes (min (length p) 512) (take 512 p @ drop (min (length p) 512) junk)])"
proof -
  have u: "length u = 8" "be_nat (take 2 u) = 53" using assms(2) by (simp_all add: from_dns_port_def)
  then have src: "le_nat (take 2 u) = unat (bpf_htons 53)" by (simp add: port_bytes)
  let ?n = "min (length p) 512"
  have load: "skb_load_bytes (h @ u @ p) (length h) 2 = Some (take 2 u)"
    "skb_load_bytes (h @ u @ p) (length h + 8) ?n = Some (take 512 p)"
    using u(1) by (simp_all add: skb_load_bytes_def min_def)
  have len: "length (h @ u @ p) - (length h + 8) = length p" "\<not> length (h @ u @ p) \<le> length h + 8"
    using u(1) assms(3) by auto
  have n: "unat ((of_nat ?n :: 64 word) AND 0x3ff) = ?n" "?n \<noteq> 0" "\<not> ?n < 12" "\<not> 512 < ?n" "?n mod 2 ^ 16 = ?n"
    using mask_1023 [of ?n] assms(3) by auto
  show ?thesis
    unfolding handle_dns_ingress_def udp_offset_header [OF assms(1)]
    by (simp only: option.case prod.case load src len n Let_def if_False if_True not_True_eq_False simp_thms)
qed

lemma record_decodes:
  assumes "12 \<le> length p" and "length junk = 512"
  shows "DecodeDNS uni P (dns_event_bytes (min (length p) 512) (take 512 p @ drop (min (length p) 512) junk))
      = parse_message uni P (take 512 p)"
proof -
  let ?n = "min (length p) 512"
  let ?b = "dns_event_bytes ?n (take 512 p @ drop ?n junk)"
  have "le_nat (take 2 ?b) = ?n"
    by (simp add: dns_event_bytes_def le_nat_le_bytes)
  moreover have "length ?b = 514" using assms(2) by (simp add: dns_event_bytes_def min_def)
  moreover have "go_slice 2 (2 + ?n) ?b = take 512 p"
    by (simp add: dns_event_bytes_def go_slice_def min_def)
  ultimately have "dns_message ?b = Inr (take 512 p)" using assms(1) by (auto simp: dns_message_eq)
  then show ?thesis by (simp add: DecodeDNS_def)
qed

lemma other_port:
  assumes "ip_header h" and "length u = 8" and "\<not> from_dns_port u"
  shows "handle_dns_ingress reserved junk (h @ u @ p) evs = (1, evs)"
proof -
  have "skb_load_bytes (h @ u @ p) (length h) 2 = Some (take 2 u)" using assms(2) by (simp add: skb_load_bytes_def)
  moreover have "le_nat (take 2 u) \<noteq> unat (bpf_htons 53)"
    using assms(2,3) by (simp add: from_dns_port_def port_bytes)
  ultimately show ?thesis by (simp add: handle_dns_ingress_def udp_offset_header [OF assms(1)])
qed

section \<open>Properties\<close>



end
