(* ===== verification/Istio.thy ===== *)
theory Istio
  imports Controller
begin

text \<open>
  \<open>internal/resolver/istio.go\<close> and \<open>istio_linux.go\<close>: ServiceEntry objects, held as
  the nested maps that unstructured decoding gives, trimmed on their way into the
  informer store, and the virtual IPs their handlers write into the workload cache.
  A \<open>map[string]any\<close> is an association list (the first binding of a key counts);
  the values the code only passes on are \<open>JOther\<close>.
\<close>

section \<open>Unstructured content\<close>

datatype json = JStr string | JArr "json list" | JObj "(string \<times> json) list" | JOther string

type_synonym json_map = "(string \<times> json) list"

datatype istio_object =
    Unstructured json_map
  | IstioTombstone istio_object
  | IstioOther string

fun as_map :: "json \<Rightarrow> json_map option" where
  \<comment> \<open>the type assertions of \<open>v\<close> to a map, a slice and a string\<close>
  "as_map (JObj m) = Some m"
| "as_map _ = None"

fun as_arr :: "json \<Rightarrow> json list" where
  "as_arr (JArr xs) = xs"
| "as_arr _ = []"

fun as_str :: "json \<Rightarrow> string option" where
  "as_str (JStr s) = Some s"
| "as_str _ = None"

section \<open>Reading paths\<close>

fun nestedString :: "json_map \<Rightarrow> string list \<Rightarrow> string \<times> bool \<times> bool" where
  "nestedString cur [] = ([], False, False)"
| "nestedString cur [key] =
     (case map_of cur key of
        None \<Rightarrow> ([], False, False)
      | Some v \<Rightarrow> (case as_str v of None \<Rightarrow> ([], False, False) | Some s \<Rightarrow> (s, True, True)))"
| "nestedString cur (key # k # path) =
     (case map_of cur key of
        None \<Rightarrow> ([], False, False)
      | Some v \<Rightarrow> (case as_map v of None \<Rightarrow> ([], False, False) | Some m \<Rightarrow> nestedString m (k # path)))"

fun nestedSlice :: "json_map \<Rightarrow> string list \<Rightarrow> json list" where
  "nestedSlice cur [] = []"
| "nestedSlice cur [key] = (case map_of cur key of None \<Rightarrow> [] | Some v \<Rightarrow> as_arr v)"
| "nestedSlice cur (key # k # path) =
     (case map_of cur key of
        None \<Rightarrow> []
      | Some v \<Rightarrow> (case as_map v of None \<Rightarrow> [] | Some m \<Rightarrow> nestedSlice m (k # path)))"

definition nestedStringSlice :: "json_map \<Rightarrow> string list \<Rightarrow> string list" where
  "nestedStringSlice obj path = List.map_filter as_str (nestedSlice obj path)"

section \<open>Bindings\<close>

record vipBinding =
  vb_ip :: addr
  vb_wl :: Workload

definition se_workload :: "string \<Rightarrow> string \<Rightarrow> Workload" where
  "se_workload host namespace = \<lparr>w_Name = host, w_Namespace = namespace, w_Kind = KindServiceEntry\<rparr>"

definition string_field :: "json_map \<Rightarrow> string \<Rightarrow> string" where
  \<comment> \<open>\<open>s, _ := m[key].(string)\<close>\<close>
  "string_field m key =
     (case map_of m key of None \<Rightarrow> [] | Some v \<Rightarrow> (case as_str v of None \<Rightarrow> [] | Some s \<Rightarrow> s))"

fun status_bindings :: "string \<Rightarrow> string \<Rightarrow> json list \<Rightarrow> vipBinding list" where
  "status_bindings primaryHost namespace [] = []"
| "status_bindings primaryHost namespace (entry # es) =
     (case as_map entry of
        None \<Rightarrow> []
      | Some m \<Rightarrow>
          (case parse_addr (string_field m ''value'') of
             None \<Rightarrow> []
           | Some ip \<Rightarrow>
               let host = string_field m ''host''; host = (if host = [] then primaryHost else host)
               in if host = [] then [] else [\<lparr>vb_ip = ip, vb_wl = se_workload host namespace\<rparr>]))
     @ status_bindings primaryHost namespace es"

fun spec_bindings :: "string \<Rightarrow> string \<Rightarrow> string list \<Rightarrow> vipBinding list" where
  "spec_bindings primaryHost namespace [] = []"
| "spec_bindings primaryHost namespace (a # as) =
     (if CHR ''/'' \<in> set a then []
      else case parse_addr a of
          None \<Rightarrow> []
        | Some ip \<Rightarrow> [\<lparr>vb_ip = ip, vb_wl = se_workload primaryHost namespace\<rparr>])
     @ spec_bindings primaryHost namespace as"

definition parseServiceEntryVIPs :: "json_map \<Rightarrow> vipBinding list" where
  "parseServiceEntryVIPs obj =
     (let namespace = fst (nestedString obj [''metadata'', ''namespace'']);
          hosts = nestedStringSlice obj [''spec'', ''hosts''];
          primaryHost = (if hosts = [] then [] else hosts ! 0)
      in status_bindings primaryHost namespace (nestedSlice obj [''status'', ''addresses''])
         @ (if primaryHost = [] then []
            else spec_bindings primaryHost namespace (nestedStringSlice obj [''spec'', ''addresses''])))"

section \<open>Trimming\<close>

definition copy_key :: "json_map \<Rightarrow> string \<Rightarrow> json_map" where
  \<comment> \<open>\<open>if v, ok := m[key]; ok { keep[key] = v }\<close>\<close>
  "copy_key m key = (case map_of m key of None \<Rightarrow> [] | Some v \<Rightarrow> [(key, v)])"

definition sub_map :: "json_map \<Rightarrow> string \<Rightarrow> json_map option" where
  \<comment> \<open>\<open>m[key].(map[string]any)\<close>\<close>
  "sub_map m key = (case map_of m key of None \<Rightarrow> None | Some v \<Rightarrow> as_map v)"

definition trim_content :: "json_map \<Rightarrow> json_map" where
  "trim_content obj =
     (case sub_map obj ''metadata'' of
        None \<Rightarrow> [] | Some md \<Rightarrow> [(''metadata'', JObj (copy_key md ''namespace'' @ copy_key md ''name''))])
     @ (case sub_map obj ''spec'' of
          None \<Rightarrow> [] | Some spec \<Rightarrow> [(''spec'', JObj (copy_key spec ''hosts'' @ copy_key spec ''addresses''))])
     @ (case sub_map obj ''status'' of
          None \<Rightarrow> []
        | Some status \<Rightarrow>
            (case map_of status ''addresses'' of
               None \<Rightarrow> [] | Some v \<Rightarrow> [(''status'', JObj [(''addresses'', v)])]))"

fun trimServiceEntry :: "istio_object \<Rightarrow> istio_object" where
  "trimServiceEntry (Unstructured obj) = Unstructured (trim_content obj)"
| "trimServiceEntry obj = obj"

section \<open>Handlers\<close>

definition istio_api_version :: "string \<Rightarrow> string" where
  \<comment> \<open>the version \<open>NewIstioController\<close> watches\<close>
  "istio_api_version apiVersion = (if apiVersion = [] then ''v1beta1'' else apiVersion)"

fun asUnstructured :: "istio_object \<Rightarrow> json_map option" where
  "asUnstructured (Unstructured u) = Some u"
| "asUnstructured (IstioTombstone (Unstructured u)) = Some u"
| "asUnstructured _ = None"

definition onServiceEntry :: "istio_object \<Rightarrow> WCache \<Rightarrow> WCache" where
  "onServiceEntry obj c =
     (case asUnstructured obj of
        None \<Rightarrow> c
      | Some u \<Rightarrow> fold (\<lambda>b. Upsert (vb_ip b) (vb_wl b)) (parseServiceEntryVIPs u) c)"

definition onServiceEntryDelete :: "istio_object \<Rightarrow> WCache \<Rightarrow> WCache" where
  "onServiceEntryDelete obj c =
     (case asUnstructured obj of
        None \<Rightarrow> c
      | Some u \<Rightarrow> fold (\<lambda>b. Delete (vb_ip b)) (parseServiceEntryVIPs u) c)"

section \<open>The informer\<close>

text \<open>
  The dynamic informer is client-go's. What it delivers has gone through the transform;
  \<open>Run\<close> registers the transform and the handlers, starts it, waits for its store and then
  for the context.
\<close>

datatype entry_event = EntryAdded istio_object | EntryUpdated istio_object istio_object | EntryDeleted istio_object

fun entry_dispatch :: "entry_event \<Rightarrow> WCache \<Rightarrow> WCache" where
  "entry_dispatch (EntryAdded obj) c = onServiceEntry (trimServiceEntry obj) c"
| "entry_dispatch (EntryUpdated old obj) c = onServiceEntry (trimServiceEntry obj) c"
| "entry_dispatch (EntryDeleted obj) c = onServiceEntryDelete (trimServiceEntry obj) c"

datatype istio_run = TransformNotSet | HandlerNotAdded | EntriesNotSynced | IstioCancelled

definition IstioController_Run :: "bool \<Rightarrow> bool \<Rightarrow> bool \<Rightarrow> istio_run" where
  \<comment> \<open>how \<open>Run\<close> ends, once the context is done\<close>
  "IstioController_Run transform_ok handler_ok synced =
     (if \<not> transform_ok then TransformNotSet
      else if \<not> handler_ok then HandlerNotAdded
      else if \<not> synced then EntriesNotSynced
      else IstioCancelled)"

section \<open>Facts\<close>

lemma map_of_copy_keys:
  "j \<noteq> k \<Longrightarrow> map_of (copy_key m j @ copy_key m k) x = (if x = j \<or> x = k then map_of m x else None)"
  by (auto simp: copy_key_def split: option.split)

lemma trim_content_lookup:
  "sub_map (trim_content obj) ''metadata'' =
     map_option (\<lambda>md. copy_key md ''namespace'' @ copy_key md ''name'') (sub_map obj ''metadata'')"
  "sub_map (trim_content obj) ''spec'' =
     map_option (\<lambda>s. copy_key s ''hosts'' @ copy_key s ''addresses'') (sub_map obj ''spec'')"
  "sub_map (trim_content obj) ''status'' =
     (case sub_map obj ''status'' of None \<Rightarrow> None
      | Some s \<Rightarrow> (case map_of s ''addresses'' of None \<Rightarrow> None | Some v \<Rightarrow> Some [(''addresses'', v)]))"
  by (cases "sub_map obj ''metadata''"; cases "sub_map obj ''spec''"; cases "sub_map obj ''status''";
      simp add: trim_content_def sub_map_def split: option.split)+

lemma nested_sub_map:
  "nestedString obj [k, j] =
     (case sub_map obj k of None \<Rightarrow> ([], False, False) | Some m \<Rightarrow> nestedString m [j])"
  "nestedSlice obj [k, j] = (case sub_map obj k of None \<Rightarrow> [] | Some m \<Rightarrow> nestedSlice m [j])"
  by (simp_all add: sub_map_def split: option.split)

lemma parse_trim: "parseServiceEntryVIPs (trim_content obj) = parseServiceEntryVIPs obj"
proof -
  have ns: "nestedString (trim_content obj) [''metadata'', ''namespace''] = nestedString obj [''metadata'', ''namespace'']"
    unfolding nested_sub_map trim_content_lookup
    by (cases "sub_map obj ''metadata''") (simp_all add: map_of_copy_keys del: map_of_append)
  have spec: "nestedSlice (trim_content obj) [''spec'', k] = nestedSlice obj [''spec'', k]"
    if "k = ''hosts'' \<or> k = ''addresses''" for k
    using that unfolding nested_sub_map trim_content_lookup
    by (cases "sub_map obj ''spec''") (auto simp: map_of_copy_keys simp del: map_of_append)
  have status: "nestedSlice (trim_content obj) [''status'', ''addresses''] = nestedSlice obj [''status'', ''addresses'']"
    unfolding nested_sub_map trim_content_lookup by (simp split: option.split)
  show ?thesis
    by (simp only: parseServiceEntryVIPs_def nestedStringSlice_def ns spec status simp_thms)
qed

lemma trimServiceEntry_handlers:
  "onServiceEntry (trimServiceEntry obj) c = onServiceEntry obj c"
  "onServiceEntryDelete (trimServiceEntry obj) c = onServiceEntryDelete obj c"
  by (cases obj; simp add: onServiceEntry_def onServiceEntryDelete_def parse_trim)+

lemma status_bindings_ok:
  "b \<in> set (status_bindings p ns es) \<Longrightarrow>
     (\<exists>s. parse_addr s = Some (vb_ip b)) \<and> (\<exists>h. h \<noteq> [] \<and> vb_wl b = se_workload h ns)"
  by (induction p ns es rule: status_bindings.induct)
    (auto simp: Let_def split: option.splits if_splits)

lemma spec_bindings_iff:
  "b \<in> set (spec_bindings p ns as) \<longleftrightarrow>
     (\<exists>a \<in> set as. CHR ''/'' \<notin> set a \<and> parse_addr a = Some (vb_ip b)) \<and> vb_wl b = se_workload p ns"
  by (induction p ns as rule: spec_bindings.induct) (auto split: option.splits)

lemma binding_ok:
  assumes "b \<in> set (parseServiceEntryVIPs obj)"
  shows "\<exists>s h. parse_addr s = Some (vb_ip b) \<and> h \<noteq> []
    \<and> vb_wl b = se_workload h (fst (nestedString obj [''metadata'', ''namespace'']))"
  using assms unfolding parseServiceEntryVIPs_def Let_def
  by (auto simp: spec_bindings_iff dest!: status_bindings_ok split: if_splits)

lemma onServiceEntry_IP:
  "LookupIP (onServiceEntry (Unstructured u) c) ip =
     (case find (\<lambda>b. unmap (vb_ip b) = unmap ip) (rev (parseServiceEntryVIPs u)) of
        None \<Rightarrow> LookupIP c ip | Some b \<Rightarrow> Some (vb_wl b))"
  by (simp add: onServiceEntry_def ips.lookup_upserts)

lemma onServiceEntryDelete_IP:
  "LookupIP (onServiceEntryDelete obj c) ip =
     (case asUnstructured obj of None \<Rightarrow> LookupIP c ip
      | Some u \<Rightarrow> if unmap ip \<in> (\<lambda>b. unmap (vb_ip b)) ` set (parseServiceEntryVIPs u) then None else LookupIP c ip)"
  by (simp add: onServiceEntryDelete_def ips.lookup_deletes split: option.split)

section \<open>Properties\<close>


definition sample_entry :: json_map where
  "sample_entry = [(''metadata'', JObj [(''name'', JStr ''db''), (''namespace'', JStr ''shop'')]),
     (''spec'', JObj [(''hosts'', JArr [JStr ''db.example.com'']), (''addresses'', JArr [JStr ''10.1.2.3'', JStr ''10.0.0.0/24'']),
        (''ports'', JArr [])])]"


end
