(* ===== verification/Handlers_Concurrent.thy ===== *)
theory Handlers_Concurrent
  imports Istio
begin

text \<open>
  The informer handlers of \<open>internal/resolver/k8s_linux.go\<close>, \<open>endpoints_linux.go\<close> and
  \<open>istio_linux.go\<close>, which share one cache, as concurrent code. client-go runs the handlers of one informer in one goroutine, one event
  after the other, and \<open>Run\<close> calls \<open>reindexAllClusterIPs\<close> in a goroutine of its own. A
  handler is a list of accesses still to make: a cache operation under the cache's lock, or
  a read of a lister, whose answer decides what follows. Between two accesses of a
  goroutine any other may run, and the listers may have changed.
\<close>

section \<open>Accesses\<close>

datatype access =
    Walk nat Pod string string
      \<comment> \<open>iterations left of the ownership walk, the pod, the kind and name reached\<close>
  | PutUID string Workload
  | DropUID string
  | PutIP addr Workload
  | DropIP addr
  | PutPort portEntry
  | DropPort portEntry
  | SyncSlice EndpointSlice  \<comment> \<open>\<open>syncServiceForSlice\<close>\<close>
  | SyncService Service  \<comment> \<open>\<open>syncServiceClusterIPs\<close>\<close>
  | Scan Service "string list" scan  \<comment> \<open>in \<open>serviceWorkload\<close>, the addresses still to look up\<close>
  | SyncAll  \<comment> \<open>\<open>reindexAllClusterIPs\<close>\<close>

definition pod_writes :: "Pod \<Rightarrow> Workload \<Rightarrow> access list" where
  \<comment> \<open>\<open>onPod\<close> after \<open>ResolveTopOwner\<close>\<close>
  "pod_writes pod wl =
     (if pod_UID pod \<noteq> [] then [PutUID (pod_UID pod) wl] else [])
     @ (if pod_HostNetwork pod then [] else map (\<lambda>ip. PutIP ip wl) (podIPs pod))"

definition scan_result :: "Service \<Rightarrow> scan \<Rightarrow> Workload option" where
  \<comment> \<open>the end of \<open>serviceWorkload\<close>\<close>
  "scan_result svc s =
     (case sc_first s of
        None \<Rightarrow> None
      | Some first \<Rightarrow>
          if sc_multiple s
          then Some \<lparr>w_Name = svc_Name svc, w_Namespace = svc_Namespace svc, w_Kind = KindService\<rparr>
          else Some first)"

definition map_ips :: "Service \<Rightarrow> Workload option \<Rightarrow> access list" where
  \<comment> \<open>the loop at the end of \<open>syncServiceClusterIPs\<close>\<close>
  "map_ips svc wl = map (\<lambda>ip. case wl of Some w \<Rightarrow> PutIP ip w | None \<Rightarrow> DropIP ip) (clusterIPs svc)"

fun act_step :: "listers \<Rightarrow> access \<Rightarrow> WCache \<Rightarrow> access list \<times> WCache" where
  \<comment> \<open>what an access leaves to do before the rest of its goroutine, and the cache\<close>
  "act_step L (Walk 0 pod kind name) c =
     (pod_writes pod \<lparr>w_Name = name, w_Namespace = pod_Namespace pod, w_Kind = kind\<rparr>, c)"
| "act_step L (Walk (Suc n) pod kind name) c =
     (case GetController L kind (pod_Namespace pod) name of
        None \<Rightarrow> (pod_writes pod \<lparr>w_Name = name, w_Namespace = pod_Namespace pod, w_Kind = kind\<rparr>, c)
      | Some (ownerKind, ownerName) \<Rightarrow> ([Walk n pod ownerKind ownerName], c))"
| "act_step L (PutUID u w) c = ([], UpsertUID u w c)"
| "act_step L (DropUID u) c = ([], DeleteUID u c)"
| "act_step L (PutIP ip w) c = ([], Upsert ip w c)"
| "act_step L (DropIP ip) c = ([], Delete ip c)"
| "act_step L (PutPort e) c = ([], UpsertPort (pe_ip e) (pe_port e) (pe_l7 e) c)"
| "act_step L (DropPort e) c = ([], DeletePort (pe_ip e) (pe_port e) c)"
| "act_step L (SyncSlice es) c =
     (let serviceName = service_name_label es in
      if serviceName = [] then ([], c)
      else case ls_Service L (es_Namespace es) serviceName of
          None \<Rightarrow> ([], c)
        | Some svc \<Rightarrow> ([SyncService svc], c))"
| "act_step L (SyncService svc) c =
     (if clusterIPs svc = [] then ([], c)
      else case ls_Slices L (svc_Namespace svc) (svc_Name svc) of
          None \<Rightarrow> ([], c)
        | Some slices \<Rightarrow>
            ([Scan svc (concat (map (\<lambda>es. slice_addresses (Some es)) slices)) \<lparr>sc_first = None, sc_multiple = False\<rparr>], c))"
| "act_step L (Scan svc [] s) c = (map_ips svc (scan_result svc s), c)"
| "act_step L (Scan svc (a # as) s) c = ([Scan svc as (scan_address (LookupIP c) a s)], c)"
| "act_step L SyncAll c =
     (case ls_Services L of None \<Rightarrow> ([], c) | Some services \<Rightarrow> (map SyncService services, c))"

section \<open>Handlers\<close>

definition reindex_acts :: "portEntry list \<Rightarrow> portEntry list \<Rightarrow> access list" where
  "reindex_acts old updated = map PutPort updated @ map DropPort (filter (\<lambda>e. entry_key e \<notin> entry_key ` set updated) old)"

definition evict_acts :: "addr list \<Rightarrow> addr list \<Rightarrow> access list" where
  "evict_acts old new = map DropIP (filter (\<lambda>ip. unmap ip \<notin> unmap ` set new) old)"

definition pod_acts :: "kube_object \<Rightarrow> access list" where
  "pod_acts obj = (case obj of PodObj pod \<Rightarrow> [Walk maxOwnerDepth pod ''Pod'' (pod_Name pod)] | _ \<Rightarrow> [])"

definition pod_delete_acts :: "kube_object \<Rightarrow> access list" where
  "pod_delete_acts obj =
     (case as_pod obj of
        None \<Rightarrow> []
      | Some pod \<Rightarrow> map DropIP (podIPs pod) @ (if pod_UID pod \<noteq> [] then [DropUID (pod_UID pod)] else []))"

definition node_acts :: "kube_object \<Rightarrow> access list" where
  "node_acts obj =
     (case obj of
        NodeObj node \<Rightarrow>
          map (\<lambda>ip. PutIP ip \<lparr>w_Name = node_Name node, w_Namespace = [], w_Kind = KindNode\<rparr>) (nodeInternalIPs node)
      | _ \<Rightarrow> [])"

definition node_delete_acts :: "kube_object \<Rightarrow> access list" where
  "node_delete_acts obj = (case as_node obj of None \<Rightarrow> [] | Some node \<Rightarrow> map DropIP (nodeInternalIPs node))"

definition service_acts :: "unicode_lower \<Rightarrow> kube_object \<Rightarrow> access list" where
  "service_acts uni obj =
     (case only_service obj of
        None \<Rightarrow> [] | Some svc \<Rightarrow> map PutPort (serviceEntries uni (Some svc)) @ [SyncService svc])"

definition service_update_acts :: "unicode_lower \<Rightarrow> kube_object \<Rightarrow> kube_object \<Rightarrow> access list" where
  "service_update_acts uni old obj =
     reindex_acts (serviceEntries uni (only_service old)) (serviceEntries uni (only_service obj))
     @ (case only_service obj of
          None \<Rightarrow> []
        | Some new \<Rightarrow>
            (case only_service old of None \<Rightarrow> [] | Some o' \<Rightarrow> evict_acts (clusterIPs o') (clusterIPs new))
            @ [SyncService new])"

definition service_delete_acts :: "unicode_lower \<Rightarrow> kube_object \<Rightarrow> access list" where
  "service_delete_acts uni obj =
     (case as_service obj of
        None \<Rightarrow> [] | Some svc \<Rightarrow> map DropPort (serviceEntries uni (Some svc)) @ map DropIP (clusterIPs svc))"

definition slice_acts :: "unicode_lower \<Rightarrow> kube_object \<Rightarrow> access list" where
  "slice_acts uni obj =
     (case only_slice obj of
        None \<Rightarrow> [] | Some es \<Rightarrow> map PutPort (endpointSliceEntries uni (Some es)) @ [SyncSlice es])"

definition slice_update_acts :: "unicode_lower \<Rightarrow> kube_object \<Rightarrow> kube_object \<Rightarrow> access list" where
  "slice_update_acts uni old obj =
     reindex_acts (endpointSliceEntries uni (only_slice old)) (endpointSliceEntries uni (only_slice obj))
     @ (case only_slice obj of None \<Rightarrow> [] | Some n \<Rightarrow> [SyncSlice n])
     @ (case (only_slice old, only_slice obj) of
          (Some o', Some n) \<Rightarrow> if service_name_label o' \<noteq> service_name_label n then [SyncSlice o'] else []
        | _ \<Rightarrow> [])"

definition slice_delete_acts :: "unicode_lower \<Rightarrow> kube_object \<Rightarrow> access list" where
  "slice_delete_acts uni obj =
     (case as_slice_obj obj of
        None \<Rightarrow> [] | Some es \<Rightarrow> map DropPort (endpointSliceEntries uni (Some es)) @ [SyncSlice es])"

definition put_entry :: "istio_object \<Rightarrow> access list" where
  \<comment> \<open>\<open>onServiceEntry\<close>\<close>
  "put_entry obj =
     (case asUnstructured obj of None \<Rightarrow> [] | Some u \<Rightarrow> map (\<lambda>b. PutIP (vb_ip b) (vb_wl b)) (parseServiceEntryVIPs u))"

definition drop_entry :: "istio_object \<Rightarrow> access list" where
  \<comment> \<open>\<open>onServiceEntryDelete\<close>\<close>
  "drop_entry obj =
     (case asUnstructured obj of None \<Rightarrow> [] | Some u \<Rightarrow> map (\<lambda>b. DropIP (vb_ip b)) (parseServiceEntryVIPs u))"

fun handler :: "unicode_lower \<Rightarrow> informer_event \<Rightarrow> access list" where
  "handler uni (Added Pods obj) = pod_acts obj"
| "handler uni (Updated Pods old obj) = pod_acts obj"
| "handler uni (Deleted Pods obj) = pod_delete_acts obj"
| "handler uni (Added Nodes obj) = node_acts obj"
| "handler uni (Updated Nodes old obj) = node_acts obj"
| "handler uni (Deleted Nodes obj) = node_delete_acts obj"
| "handler uni (Added Services obj) = service_acts uni obj"
| "handler uni (Updated Services old obj) = service_update_acts uni old obj"
| "handler uni (Deleted Services obj) = service_delete_acts uni obj"
| "handler uni (Added EndpointSlices obj) = slice_acts uni obj"
| "handler uni (Updated EndpointSlices old obj) = slice_update_acts uni old obj"
| "handler uni (Deleted EndpointSlices obj) = slice_delete_acts uni obj"
| "handler uni (Added Owners obj) = []"
| "handler uni (Updated Owners old obj) = []"
| "handler uni (Deleted Owners obj) = []"

fun entry_acts :: "entry_event \<Rightarrow> access list" where
  \<comment> \<open>the handlers of ServiceEntries, which the transform has trimmed\<close>
  "entry_acts (EntryAdded obj) = put_entry (trimServiceEntry obj)"
| "entry_acts (EntryUpdated old obj) = put_entry (trimServiceEntry obj)"
| "entry_acts (EntryDeleted obj) = drop_entry (trimServiceEntry obj)"

section \<open>The controllers' goroutines\<close>

datatype goroutine = Handler resource | EntryHandler | Main

record controller =
  ct_cache :: WCache
  ct_todo :: "goroutine \<Rightarrow> access list"

fun event_resource :: "informer_event \<Rightarrow> resource" where
  "event_resource (Added r obj) = r"
| "event_resource (Updated r old obj) = r"
| "event_resource (Deleted r obj) = r"

datatype label =
    Deliver informer_event
  | DeliverEntry entry_event
  | Reindex
  | Act goroutine listers  \<comment> \<open>the next access of a goroutine, with the listers as they are\<close>

inductive controller_step :: "unicode_lower \<Rightarrow> label \<Rightarrow> controller \<Rightarrow> controller \<Rightarrow> bool" for uni where
  deliver: "ct_todo s (Handler (event_resource ev)) = [] \<Longrightarrow>
     controller_step uni (Deliver ev) s (s\<lparr>ct_todo := (ct_todo s)(Handler (event_resource ev) := handler uni ev)\<rparr>)"
| deliver_entry: "ct_todo s EntryHandler = [] \<Longrightarrow>
     controller_step uni (DeliverEntry ev) s (s\<lparr>ct_todo := (ct_todo s)(EntryHandler := entry_acts ev)\<rparr>)"
| reindex: "ct_todo s Main = [] \<Longrightarrow> controller_step uni Reindex s (s\<lparr>ct_todo := (ct_todo s)(Main := [SyncAll])\<rparr>)"
| act: "\<lbrakk>ct_todo s g = a # as; act_step L a (ct_cache s) = (as', c)\<rbrakk> \<Longrightarrow>
     controller_step uni (Act g L) s (s\<lparr>ct_cache := c, ct_todo := (ct_todo s)(g := as' @ as)\<rparr>)"

inductive controller_run :: "unicode_lower \<Rightarrow> label list \<Rightarrow> controller \<Rightarrow> controller \<Rightarrow> bool" for uni where
  at_rest: "controller_run uni [] s s"
| and_then: "\<lbrakk>controller_run uni ls s t; controller_step uni l t u\<rbrakk> \<Longrightarrow> controller_run uni (ls @ [l]) s u"

definition idle :: "WCache \<Rightarrow> controller" where
  "idle c = \<lparr>ct_cache = c, ct_todo = (\<lambda>_. [])\<rparr>"

section \<open>A handler alone\<close>

inductive alone :: "listers \<Rightarrow> access list \<Rightarrow> WCache \<Rightarrow> WCache \<Rightarrow> bool" for L where
  nothing: "alone L [] c c"
| next_act: "\<lbrakk>act_step L a c = (as', c'); alone L (as' @ as) c' c''\<rbrakk> \<Longrightarrow> alone L (a # as) c c''"

lemma alone_append: "\<lbrakk>alone L as c c'; alone L bs c' c''\<rbrakk> \<Longrightarrow> alone L (as @ bs) c c''"
  by (induction rule: alone.induct) (auto intro: alone.intros)

lemma alone_write: "act_step L a c = ([], c') \<Longrightarrow> alone L [a] c c'"
  by (rule alone.next_act) (auto intro: alone.nothing)

lemma alone_writes:
  "(\<And>x c. x \<in> set xs \<Longrightarrow> act_step L (f x) c = ([], g x c)) \<Longrightarrow> alone L (map f xs) c (fold g xs c)"
proof (induction xs arbitrary: c)
  case Nil
  show ?case by (simp add: alone.nothing)
next
  case (Cons x xs)
  then show ?case by (auto intro!: alone.next_act)
qed

lemma run_append: "\<lbrakk>controller_run uni ls' t u; controller_run uni ls s t\<rbrakk> \<Longrightarrow> controller_run uni (ls @ ls') s u"
proof (induction rule: controller_run.induct)
  case (and_then ls' t u l v)
  then show ?case using controller_run.and_then [of uni "ls @ ls'" s u l v] by simp
qed simp

lemma run_step: "controller_step uni l s t \<Longrightarrow> controller_run uni [l] s t"
  using controller_run.and_then [OF controller_run.at_rest, of uni l s t] by simp

lemma alone_run:
  "\<lbrakk>alone L as c c'; ct_todo s g = as @ bs; ct_cache s = c\<rbrakk> \<Longrightarrow>
     \<exists>n. controller_run uni (replicate n (Act g L)) s (s\<lparr>ct_cache := c', ct_todo := (ct_todo s)(g := bs)\<rparr>)"
proof (induction arbitrary: s rule: alone.induct)
  case (nothing c)
  then have "s\<lparr>ct_cache := c, ct_todo := (ct_todo s)(g := bs)\<rparr> = s" by (simp add: fun_upd_idem)
  then show ?case by (intro exI [of _ 0]) (simp only: replicate_0 controller_run.at_rest)
next
  case (next_act a c as' c' as c'')
  let ?t = "s\<lparr>ct_cache := c', ct_todo := (ct_todo s)(g := as' @ as @ bs)\<rparr>"
  have "controller_step uni (Act g L) s ?t"
    using next_act.prems next_act.hyps(1) by (intro controller_step.act) auto
  from run_step [OF this] next_act.IH [of ?t] obtain n where
    "controller_run uni ([Act g L] @ replicate n (Act g L)) s (?t\<lparr>ct_cache := c'', ct_todo := (ct_todo ?t)(g := bs)\<rparr>)"
    using run_append by fastforce
  then show ?case by (intro exI [of _ "Suc n"]) (simp del: fun_upd_apply)
qed

lemma alone_walk: "alone L [Walk n pod kind name] c
    (fold (\<lambda>a. snd \<circ> act_step L a) (pod_writes pod
      (case owner_walk n (GetController L) kind (pod_Namespace pod) name of
         (k, m) \<Rightarrow> \<lparr>w_Name = m, w_Namespace = pod_Namespace pod, w_Kind = k\<rparr>)) c)"
proof -
  have writes: "alone L (pod_writes pod wl) c (fold (\<lambda>a. snd \<circ> act_step L a) (pod_writes pod wl) c)" for wl
  proof -
    have "act_step L a c = ([], (snd \<circ> act_step L a) c)" if "a \<in> set (pod_writes pod wl)" for a c
      using that by (auto simp: pod_writes_def split: if_splits)
    then have "alone L (map (\<lambda>a. a) (pod_writes pod wl)) c (fold (\<lambda>a. snd \<circ> act_step L a) (pod_writes pod wl) c)"
      by (rule alone_writes)
    then show ?thesis by simp
  qed
  show ?thesis
  proof (induction n "GetController L" kind "pod_Namespace pod" name rule: owner_walk.induct)
    case (1 kind name)
    show ?case by (rule alone.next_act) (use writes in auto)
  next
    case (2 n kind name)
    show ?case
      by (cases "GetController L kind (pod_Namespace pod) name")
        (use writes 2 in \<open>auto intro!: alone.next_act\<close>)
  qed
qed

lemma alone_pod: "alone L (pod_acts obj) c (onPod L obj c)"
proof (cases "\<exists>pod. obj = PodObj pod")
  case True
  then obtain pod where obj: "obj = PodObj pod" by blast
  let ?wl = "ResolveTopOwner ''Pod'' (pod_Namespace pod) (pod_Name pod) (GetController L)"
  have "fold (\<lambda>a. snd \<circ> act_step L a) (map (\<lambda>ip. PutIP ip wl) ips) c = fold (\<lambda>ip. Upsert ip wl) ips c" for wl ips c
    by (induction ips arbitrary: c) simp_all
  then have "fold (\<lambda>a. snd \<circ> act_step L a) (pod_writes pod ?wl) c = onPod L obj c"
    by (simp add: obj pod_writes_def onPod_def Let_def)
  with alone_walk [of L maxOwnerDepth pod "''Pod''" "pod_Name pod" c] show ?thesis
    by (simp add: obj pod_acts_def ResolveTopOwner_def)
next
  case False
  then show ?thesis by (cases obj) (auto simp: pod_acts_def onPod_def intro: alone.nothing)
qed

lemma alone_loops:
  "alone L (map PutPort es) c (fold (\<lambda>e. UpsertPort (pe_ip e) (pe_port e) (pe_l7 e)) es c)"
  "alone L (map DropPort es) c (fold (\<lambda>e. DeletePort (pe_ip e) (pe_port e)) es c)"
  "alone L (map DropIP ips) c (fold Delete ips c)"
  "alone L (map (\<lambda>ip. PutIP ip w) ips) c (fold (\<lambda>ip. Upsert ip w) ips c)"
  by (rule alone_writes; simp)+

lemma alone_scan: "alone L [Scan svc as s] c
    (case scan_result svc (fold (scan_address (LookupIP c)) as s) of
       Some wl \<Rightarrow> fold (\<lambda>ip. Upsert ip wl) (clusterIPs svc) c
     | None \<Rightarrow> fold Delete (clusterIPs svc) c)"
proof (induction as arbitrary: s)
  case Nil
  have "alone L (map_ips svc wl) c (case wl of Some wl \<Rightarrow> fold (\<lambda>ip. Upsert ip wl) (clusterIPs svc) c
      | None \<Rightarrow> fold Delete (clusterIPs svc) c)" for wl
    by (cases wl) (simp_all add: map_ips_def alone_loops)
  then show ?case by (intro alone.next_act) auto
next
  case (Cons a as)
  then show ?case by (intro alone.next_act) auto
qed

lemma fold_scan_slices:
  "fold (scan_slice store) (map Some slices) s = fold (scan_address store) (concat (map (\<lambda>es. slice_addresses (Some es)) slices)) s"
  by (simp add: fold_nested fold_map comp_def scan_slice_addresses)

lemma alone_sync: "alone L [SyncService svc] c (syncServiceClusterIPs L (Some svc) c)"
proof (cases "clusterIPs svc = [] \<or> ls_Slices L (svc_Namespace svc) (svc_Name svc) = None")
  case True
  then have "syncServiceClusterIPs L (Some svc) c = c" by (auto simp: syncServiceClusterIPs_def Let_def)
  with True show ?thesis by (intro alone_write) auto
next
  case False
  then obtain slices where s: "ls_Slices L (svc_Namespace svc) (svc_Name svc) = Some slices" "clusterIPs svc \<noteq> []" by auto
  have "serviceWorkload (Some svc) (map Some slices) (LookupIP c) =
      scan_result svc (fold (scan_address (LookupIP c)) (concat (map (\<lambda>es. slice_addresses (Some es)) slices))
        \<lparr>sc_first = None, sc_multiple = False\<rparr>)"
    by (simp add: serviceWorkload_def scan_result_def fold_scan_slices Let_def)
  then have "alone L [Scan svc (concat (map (\<lambda>es. slice_addresses (Some es)) slices)) \<lparr>sc_first = None, sc_multiple = False\<rparr>]
      c (syncServiceClusterIPs L (Some svc) c)"
    using alone_scan [of L svc _ _ c] s by (simp add: syncServiceClusterIPs_def Let_def)
  with s show ?thesis by (intro alone.next_act) auto
qed

lemma alone_sync_slice: "alone L [SyncSlice es] c (syncServiceForSlice L (Some es) c)"
proof (cases "ls_Service L (es_Namespace es) (service_name_label es)")
  case None
  then show ?thesis by (intro alone_write) (auto simp: syncServiceForSlice_def Let_def)
next
  case (Some svc)
  show ?thesis
  proof (cases "service_name_label es = []")
    case True
    then show ?thesis by (intro alone_write) (auto simp: syncServiceForSlice_def Let_def)
  next
    case False
    with Some alone_sync [of L svc c] show ?thesis
      by (intro alone.next_act) (auto simp: syncServiceForSlice_def Let_def)
  qed
qed

lemma alone_sync_all: "alone L [SyncAll] c (reindexAllClusterIPs L c)"
proof (cases "ls_Services L")
  case None
  then show ?thesis by (intro alone_write) (simp add: reindexAllClusterIPs_def)
next
  case (Some services)
  have "alone L (map SyncService services) c (fold (\<lambda>svc. syncServiceClusterIPs L (Some svc)) services c)" for services
  proof (induction services arbitrary: c)
    case (Cons s services)
    from alone_append [OF alone_sync Cons.IH, of s c] show ?case by simp
  qed (simp add: alone.nothing)
  with Some show ?thesis by (intro alone.next_act) (auto simp: reindexAllClusterIPs_def)
qed

lemma fold_filter_if: "fold f (filter P xs) = fold (\<lambda>x s. if P x then f x s else s) xs"
  by (induction xs) (auto simp: fun_eq_iff)

lemma alone_reindex: "alone L (reindex_acts old updated) c (reindexPorts old updated c)"
  unfolding reindex_acts_def reindexPorts_def Let_def indexPorts_def
  by (rule alone_append [OF alone_loops(1)]) (use alone_loops(2) in \<open>simp add: fold_filter_if [symmetric]\<close>)

lemma alone_evict: "alone L (evict_acts old new) c (evict_ips old new c)"
  unfolding evict_acts_def evict_ips_def Let_def fold_filter_if [symmetric] by (rule alone_loops(3))

lemma alone_handler: "alone L (handler uni ev) c (dispatch uni L ev c)"
proof (cases "(uni, L, ev)" rule: dispatch.cases)
  case (1 uni L obj)
  then show ?thesis by (simp add: alone_pod)
next
  case (2 uni L old obj)
  then show ?thesis by (simp add: alone_pod)
next
  case (3 uni L obj)
  have "alone L (if u \<noteq> [] then [DropUID u] else []) c (if u \<noteq> [] then DeleteUID u c else c)" for u c
    by (cases u) (auto intro: alone.nothing alone_write)
  then have "alone L (map DropIP (podIPs p) @ (if pod_UID p \<noteq> [] then [DropUID (pod_UID p)] else [])) c
      (let c = fold Delete (podIPs p) c in if pod_UID p \<noteq> [] then DeleteUID (pod_UID p) c else c)" for p
    unfolding Let_def by (rule alone_append [OF alone_loops(3)])
  with 3 show ?thesis
    by (simp add: pod_delete_acts_def onPodDelete_def alone.nothing split: option.split)
next
  case (4 uni L obj)
  then show ?thesis by (auto simp: node_acts_def onNode_def Let_def alone_loops intro: alone.nothing split: kube_object.split)
next
  case (5 uni L old obj)
  then show ?thesis by (auto simp: node_acts_def onNode_def Let_def alone_loops intro: alone.nothing split: kube_object.split)
next
  case (6 uni L obj)
  then show ?thesis by (auto simp: node_delete_acts_def onNodeDelete_def alone_loops intro: alone.nothing split: option.split)
next
  case (7 uni L obj)
  then show ?thesis
    by (auto simp: service_acts_def onService_def indexPorts_def intro: alone.nothing alone_append [OF alone_loops(1) alone_sync]
        split: option.split)
next
  case (8 uni L old obj)
  have "alone L ((case oldSvc of None \<Rightarrow> [] | Some o' \<Rightarrow> evict_acts (clusterIPs o') (clusterIPs new)) @ [SyncService new]) c
      (syncServiceClusterIPs L (Some new) (case oldSvc of None \<Rightarrow> c | Some o' \<Rightarrow> evict_ips (clusterIPs o') (clusterIPs new) c))"
    for oldSvc new c
    by (cases oldSvc) (auto intro: alone_sync alone_append [OF alone_evict])
  with 8 show ?thesis
    by (auto simp: service_update_acts_def onServiceUpdate_def Let_def alone_reindex intro!: alone_append [OF alone_reindex]
        split: option.split intro: alone.nothing alone_sync alone_append [OF alone_evict alone_sync])
next
  case (9 uni L obj)
  then show ?thesis
    by (auto simp: service_delete_acts_def onServiceDelete_def deletePorts_def intro: alone.nothing
        alone_append [OF alone_loops(2) alone_loops(3)] split: option.split)
next
  case (10 uni L obj)
  then show ?thesis
    by (auto simp: slice_acts_def onEndpointSlice_def indexPorts_def intro: alone.nothing
        alone_append [OF alone_loops(1) alone_sync_slice] split: option.split)
next
  case (11 uni L old obj)
  show ?thesis
  proof (cases "only_slice obj")
    case None
    with 11 alone_reindex show ?thesis
      by (simp add: slice_update_acts_def onEndpointSliceUpdate_def Let_def split: option.split)
  next
    case (Some n)
    have "alone L ([SyncSlice n] @ (case only_slice old of Some o' \<Rightarrow> if service_name_label o' \<noteq> service_name_label n then [SyncSlice o'] else []
          | None \<Rightarrow> [])) c
        (case only_slice old of Some o' \<Rightarrow> if service_name_label o' \<noteq> service_name_label n
            then syncServiceForSlice L (Some o') (syncServiceForSlice L (Some n) c) else syncServiceForSlice L (Some n) c
          | None \<Rightarrow> syncServiceForSlice L (Some n) c)" for c
      by (rule alone_append [OF alone_sync_slice]) (auto intro: alone.nothing alone_sync_slice split: option.split)
    from alone_append [OF alone_reindex this] 11 Some show ?thesis
      by (cases "only_slice old") (simp_all add: slice_update_acts_def onEndpointSliceUpdate_def Let_def)
  qed
next
  case (12 uni L obj)
  then show ?thesis
    by (auto simp: slice_delete_acts_def onEndpointSliceDelete_def deletePorts_def intro: alone.nothing
        alone_append [OF alone_loops(2) alone_sync_slice] split: option.split)
qed (simp_all add: alone.nothing)

lemma alone_entry: "alone L (entry_acts ev) c (entry_dispatch ev c)"
proof -
  have put: "alone L (put_entry obj) c (onServiceEntry obj c)" for obj
    unfolding put_entry_def onServiceEntry_def
    by (cases "asUnstructured obj") (simp_all add: alone.nothing alone_writes)
  have drop: "alone L (drop_entry obj) c (onServiceEntryDelete obj c)" for obj
    unfolding drop_entry_def onServiceEntryDelete_def
    by (cases "asUnstructured obj") (simp_all add: alone.nothing alone_writes)
  show ?thesis by (cases ev) (simp_all add: put drop del: trimServiceEntry_handlers)
qed

lemma label_alone_run:
  assumes "controller_step uni l (idle c) (idle c\<lparr>ct_todo := (ct_todo (idle c))(g := as)\<rparr>)" and "alone L as c c'"
  shows "\<exists>n. controller_run uni (l # replicate n (Act g L)) (idle c) (idle c')"
proof -
  let ?s = "idle c\<lparr>ct_todo := (ct_todo (idle c))(g := as)\<rparr>"
  have rest: "?s\<lparr>ct_cache := c', ct_todo := (ct_todo ?s)(g := [])\<rparr> = idle c'"
    by (simp add: idle_def fun_eq_iff)
  from alone_run [OF assms(2), of ?s g "[]" uni] obtain n where
    "controller_run uni (replicate n (Act g L)) ?s (?s\<lparr>ct_cache := c', ct_todo := (ct_todo ?s)(g := [])\<rparr>)"
    by (auto simp: idle_def)
  from run_append [OF this run_step [OF assms(1)]] show ?thesis unfolding rest by auto
qed

lemma event_alone_run:
  "\<exists>n. controller_run uni (Deliver ev # replicate n (Act (Handler (event_resource ev)) L)) (idle c)
      (idle (dispatch uni L ev c))"
  by (rule label_alone_run [OF controller_step.deliver alone_handler]) (simp add: idle_def)

lemma entry_alone_run:
  "\<exists>n. controller_run uni (DeliverEntry ev # replicate n (Act EntryHandler L)) (idle c) (idle (entry_dispatch ev c))"
  by (rule label_alone_run [OF controller_step.deliver_entry alone_entry]) (simp add: idle_def)

lemma reindex_alone_run:
  "\<exists>n. controller_run uni (Reindex # replicate n (Act Main L)) (idle c) (idle (reindexAllClusterIPs L c))"
  by (rule label_alone_run [OF controller_step.reindex alone_sync_all]) (simp add: idle_def)

section \<open>Keys no goroutine frees\<close>

fun frees :: "portKey \<Rightarrow> access \<Rightarrow> bool" where
  "frees k (PutPort e) \<longleftrightarrow> entry_key e = k \<and> pe_l7 e = []"
| "frees k (DropPort e) \<longleftrightarrow> entry_key e = k"
| "frees k a \<longleftrightarrow> False"

fun keeps_port :: "unicode_lower \<Rightarrow> portKey \<Rightarrow> informer_event \<Rightarrow> bool" where
  \<comment> \<open>the event does not take the key away: an update that listed it still does, no deleted object lists it\<close>
  "keeps_port uni k (Updated Services old obj) \<longleftrightarrow>
     (k \<in> entry_key ` set (serviceEntries uni (only_service old)) \<longrightarrow> k \<in> entry_key ` set (serviceEntries uni (only_service obj)))"
| "keeps_port uni k (Deleted Services obj) \<longleftrightarrow> k \<notin> entry_key ` set (serviceEntries uni (as_service obj))"
| "keeps_port uni k (Updated EndpointSlices old obj) \<longleftrightarrow>
     (k \<in> entry_key ` set (endpointSliceEntries uni (only_slice old))
        \<longrightarrow> k \<in> entry_key ` set (endpointSliceEntries uni (only_slice obj)))"
| "keeps_port uni k (Deleted EndpointSlices obj) \<longleftrightarrow> k \<notin> entry_key ` set (endpointSliceEntries uni (as_slice_obj obj))"
| "keeps_port uni k ev \<longleftrightarrow> True"

lemma service_port_entries_l7: "e \<in> set (service_port_entries uni ips ps) \<Longrightarrow> pe_l7 e \<noteq> []"
  by (induction uni ips ps rule: service_port_entries.induct) (auto simp: Let_def split: if_splits)

lemma slice_port_entries_l7: "e \<in> set (slice_port_entries uni eps ps) \<Longrightarrow> pe_l7 e \<noteq> []"
  by (induction uni eps ps rule: slice_port_entries.induct) (auto simp: Let_def split: if_splits option.splits)

lemma entries_l7:
  "e \<in> set (serviceEntries uni svc) \<Longrightarrow> pe_l7 e \<noteq> []" "e \<in> set (endpointSliceEntries uni es) \<Longrightarrow> pe_l7 e \<noteq> []"
  by (auto simp: serviceEntries_def endpointSliceEntries_def Let_def dest: service_port_entries_l7 slice_port_entries_l7
      split: option.splits if_splits)

lemma act_step_frees:
  assumes "act_step L a c = (as, c')" and "\<not> frees k a"
  shows "\<forall>b \<in> set as. \<not> frees k b" "fmlookup (byPort c) k \<noteq> None \<Longrightarrow> fmlookup (byPort c') k \<noteq> None"
proof -
  note pure = pod_writes_def map_ips_def Let_def cache_defs
  show "\<forall>b \<in> set as. \<not> frees k b"
    using assms by (cases "(L, a, c)" rule: act_step.cases) (auto simp: pure split: option.splits if_splits)
  show "fmlookup (byPort c) k \<noteq> None \<Longrightarrow> fmlookup (byPort c') k \<noteq> None"
    using assms by (cases "(L, a, c)" rule: act_step.cases) (auto simp: pure entry_key_def split: option.splits if_splits)
qed

lemma handler_frees: "keeps_port uni k ev \<Longrightarrow> b \<in> set (handler uni ev) \<Longrightarrow> \<not> frees k b"
proof -
  have reindex: "\<not> frees k b" if "b \<in> set (reindex_acts old new)" "k \<in> entry_key ` set old \<longrightarrow> k \<in> entry_key ` set new"
    "\<And>e. e \<in> set new \<Longrightarrow> pe_l7 e \<noteq> []" for b old new
    using that by (auto simp: reindex_acts_def)
  assume "keeps_port uni k ev" "b \<in> set (handler uni ev)"
  then show ?thesis
    by (cases "(uni, ev)" rule: handler.cases)
      (auto simp: pod_acts_def pod_delete_acts_def node_acts_def node_delete_acts_def service_acts_def service_update_acts_def
        service_delete_acts_def slice_acts_def slice_update_acts_def slice_delete_acts_def evict_acts_def entries_l7
        dest: reindex split: kube_object.splits option.splits if_splits)
qed

lemma entry_acts_writes: "b \<in> set (entry_acts ev) \<Longrightarrow> (\<exists>ip w. b = PutIP ip w) \<or> (\<exists>ip. b = DropIP ip)"
  by (cases ev) (auto simp: put_entry_def drop_entry_def split: option.splits)

lemma run_keeps_port:
  assumes "controller_run uni ls s t" and "\<forall>ev. Deliver ev \<in> set ls \<longrightarrow> keeps_port uni k ev"
    and "fmlookup (byPort (ct_cache s)) k \<noteq> None" and "\<forall>g. \<forall>b \<in> set (ct_todo s g). \<not> frees k b"
  shows "fmlookup (byPort (ct_cache t)) k \<noteq> None \<and> (\<forall>g. \<forall>b \<in> set (ct_todo t g). \<not> frees k b)"
  using assms
proof (induction rule: controller_run.induct)
  case (and_then ls s t l u)
  then have t: "fmlookup (byPort (ct_cache t)) k \<noteq> None" "\<forall>g. \<forall>b \<in> set (ct_todo t g). \<not> frees k b"
    and l: "\<And>ev. l = Deliver ev \<Longrightarrow> keeps_port uni k ev" by auto
  from and_then.hyps(2) show ?case
  proof (cases rule: controller_step.cases)
    case (deliver ev)
    with t l handler_frees [of uni k ev] show ?thesis by auto
  next
    case (deliver_entry ev)
    with t show ?thesis by (auto dest: entry_acts_writes)
  next
    case reindex
    with t show ?thesis by auto
  next
    case (act g a as L as' c)
    from t(2) act(3) have "\<not> frees k a" "\<forall>b \<in> set as. \<not> frees k b" by (metis list.set_intros)+
    with act_step_frees [OF act(4)] t act show ?thesis by auto
  qed
qed simp

section \<open>The UID index\<close>

fun uid_fate :: "string \<Rightarrow> access \<Rightarrow> string option \<Rightarrow> string option" where
  \<comment> \<open>the namespace a UID's workload has once the access and what follows from it are done\<close>
  "uid_fate u (Walk n pod kind name) x = (if u = pod_UID pod \<and> u \<noteq> [] then Some (pod_Namespace pod) else x)"
| "uid_fate u (PutUID v w) x = (if u = v then Some (w_Namespace w) else x)"
| "uid_fate u (DropUID v) x = (if u = v then None else x)"
| "uid_fate u a x = x"

fun on_uids :: "access \<Rightarrow> bool" where
  "on_uids (Walk n pod kind name) \<longleftrightarrow> True"
| "on_uids (PutUID u w) \<longleftrightarrow> True"
| "on_uids (DropUID u) \<longleftrightarrow> True"
| "on_uids a \<longleftrightarrow> False"

definition uid_namespace :: "WCache \<Rightarrow> string \<Rightarrow> string option" where
  "uid_namespace c u = map_option w_Namespace (LookupUID c u)"

fun event_uid :: "string \<Rightarrow> informer_event \<Rightarrow> string option \<Rightarrow> string option" where
  "event_uid u (Deleted Pods obj) x =
     (case as_pod obj of Some pod \<Rightarrow> if u = pod_UID pod \<and> u \<noteq> [] then None else x | None \<Rightarrow> x)"
| "event_uid u (Added Pods (PodObj pod)) x = (if u = pod_UID pod \<and> u \<noteq> [] then Some (pod_Namespace pod) else x)"
| "event_uid u (Updated Pods old (PodObj pod)) x = (if u = pod_UID pod \<and> u \<noteq> [] then Some (pod_Namespace pod) else x)"
| "event_uid u ev x = x"

fun delivered :: "label list \<Rightarrow> informer_event list" where
  "delivered [] = []"
| "delivered (Deliver ev # ls) = ev # delivered ls"
| "delivered (l # ls) = delivered ls"

lemma delivered_append: "delivered (ls @ ls') = delivered ls @ delivered ls'"
  by (induction ls rule: delivered.induct) simp_all

lemma uid_fate_off: "\<not> on_uids a \<Longrightarrow> uid_fate u a x = x"
  by (cases a) simp_all

lemma uid_fates_off: "\<forall>a \<in> set as. \<not> on_uids a \<Longrightarrow> fold (uid_fate u) as x = x"
  by (induction as) (simp_all add: uid_fate_off)

lemma map_ips_off: "a \<in> set (map_ips svc wl) \<Longrightarrow> \<not> on_uids a"
  by (cases wl) (auto simp: map_ips_def)

lemma pod_writes_fate:
  "w_Namespace wl = pod_Namespace pod \<Longrightarrow>
     fold (uid_fate u) (pod_writes pod wl) x = (if u = pod_UID pod \<and> u \<noteq> [] then Some (pod_Namespace pod) else x)"
  using uid_fates_off [of "map (\<lambda>ip. PutIP ip wl) (podIPs pod)" u] by (auto simp: pod_writes_def)

lemma act_step_uid:
  assumes "act_step L a c = (as, c')"
  shows "fold (uid_fate u) as (uid_namespace c' u) = uid_fate u a (uid_namespace c u)"
    and "\<not> on_uids a \<Longrightarrow> (\<forall>b \<in> set as. \<not> on_uids b) \<and> uid_namespace c' u = uid_namespace c u"
proof -
  have get: "uid_namespace (UpsertUID v w c) u = (if u = v then Some (w_Namespace w) else uid_namespace c u)"
    "uid_namespace (DeleteUID v c) u = (if u = v then None else uid_namespace c u)" for v w
    by (auto simp: uid_namespace_def uids.lookup_upsert uids.lookup_delete)
  have off: "fold (uid_fate u) (map_ips svc wl) x = x" for svc wl x
    by (rule uid_fates_off) (blast dest: map_ips_off)
  have same: "uid_namespace (Upsert ip w c) u = uid_namespace c u" "uid_namespace (Delete ip c) u = uid_namespace c u"
    "uid_namespace (UpsertPort ip port l7 c) u = uid_namespace c u" "uid_namespace (DeletePort ip port c) u = uid_namespace c u"
    for ip w port l7 by (simp_all add: uid_namespace_def)
  have syncs: "fold (uid_fate u) (map SyncService services) x = x" for services x
    by (rule uid_fates_off) auto
  show "fold (uid_fate u) as (uid_namespace c' u) = uid_fate u a (uid_namespace c u)"
    using assms
    by (cases "(L, a, c)" rule: act_step.cases)
      (auto simp: pod_writes_fate get off same syncs Let_def split: option.splits prod.splits if_splits)
  show "\<not> on_uids a \<Longrightarrow> (\<forall>b \<in> set as. \<not> on_uids b) \<and> uid_namespace c' u = uid_namespace c u"
    using assms
    by (cases "(L, a, c)" rule: act_step.cases)
      (auto simp: same Let_def dest: map_ips_off split: option.splits if_splits)
qed

lemma handler_uid:
  "event_resource ev = Pods \<Longrightarrow> fold (uid_fate u) (handler uni ev) x = event_uid u ev x"
  "event_resource ev \<noteq> Pods \<Longrightarrow> event_uid u ev x = x \<and> (\<forall>a \<in> set (handler uni ev). \<not> on_uids a)"
proof -
  have drops: "fold (uid_fate u) (map DropIP ips) x = x" for ips x
    by (rule uid_fates_off) auto
  show "event_resource ev = Pods \<Longrightarrow> fold (uid_fate u) (handler uni ev) x = event_uid u ev x"
    by (cases "(u, ev, x)" rule: event_uid.cases)
      (auto simp: pod_acts_def pod_delete_acts_def drops split: option.split kube_object.split)
  show "event_resource ev \<noteq> Pods \<Longrightarrow> event_uid u ev x = x \<and> (\<forall>a \<in> set (handler uni ev). \<not> on_uids a)"
    by (cases "(uni, ev)" rule: handler.cases)
      (auto simp: node_acts_def node_delete_acts_def service_acts_def service_update_acts_def reindex_acts_def
        service_delete_acts_def slice_acts_def slice_update_acts_def slice_delete_acts_def evict_acts_def
        split: kube_object.splits option.splits if_splits)
qed

definition uid_inv :: "WCache \<Rightarrow> label list \<Rightarrow> controller \<Rightarrow> bool" where
  "uid_inv c ls t \<longleftrightarrow>
     (\<forall>u. fold (uid_fate u) (ct_todo t (Handler Pods)) (uid_namespace (ct_cache t) u)
          = fold (event_uid u) (delivered ls) (uid_namespace c u))
     \<and> (\<forall>g. g \<noteq> Handler Pods \<longrightarrow> (\<forall>a \<in> set (ct_todo t g). \<not> on_uids a))"

lemma uid_inv_run: "controller_run uni ls (idle c) t \<Longrightarrow> uid_inv c ls t"
proof (induction ls "idle c" t rule: controller_run.induct)
  case at_rest
  show ?case by (simp add: uid_inv_def idle_def)
next
  case (and_then ls t l u)
  note inv = and_then.hyps(2) [unfolded uid_inv_def]
  from and_then.hyps(3) show ?case
  proof (cases rule: controller_step.cases)
    case (deliver ev)
    show ?thesis
    proof (cases "event_resource ev = Pods")
      case True
      with inv deliver handler_uid(1) [OF True] show ?thesis by (simp add: uid_inv_def delivered_append)
    next
      case False
      with inv deliver handler_uid(2) [OF False] show ?thesis by (auto simp: uid_inv_def delivered_append)
    qed
  next
    case (deliver_entry ev)
    with inv show ?thesis by (auto simp: uid_inv_def delivered_append dest: entry_acts_writes)
  next
    case reindex
    with inv show ?thesis by (auto simp: uid_inv_def delivered_append)
  next
    case (act g a as L as' c')
    show ?thesis
    proof (cases "g = Handler Pods")
      case True
      with inv act act_step_uid(1) [OF act(4)] show ?thesis
        by (auto simp: uid_inv_def delivered_append)
    next
      case False
      with inv act have "\<not> on_uids a" by (metis list.set_intros(1))
      with inv False act act_step_uid(2) [OF act(4)] show ?thesis
        by (auto simp: uid_inv_def delivered_append)
    qed
  qed
qed

section \<open>A handler overtaken by a deletion\<close>

lemma todo_after: "s\<lparr>ct_cache := c, ct_todo := f\<rparr>\<lparr>ct_cache := c', ct_todo := f'\<rparr> = s\<lparr>ct_cache := c', ct_todo := f'\<rparr>"
  by simp

lemma run_on:
  assumes "controller_run uni ls s t" and "alone L as (ct_cache t) c'" and "ct_todo t g = as @ bs"
  shows "\<exists>n u. controller_run uni (ls @ replicate n (Act g L)) s u
    \<and> ct_cache u = c' \<and> ct_todo u = (ct_todo t)(g := bs)"
proof -
  from alone_run [OF assms(2,3) refl, of uni] obtain n where
    "controller_run uni (replicate n (Act g L)) t (t\<lparr>ct_cache := c', ct_todo := (ct_todo t)(g := bs)\<rparr>)" by blast
  from run_append [OF this assms(1)] show ?thesis by (intro exI conjI) auto
qed

lemma run_deliver:
  assumes "controller_run uni ls s t" and "ct_todo t (Handler (event_resource ev)) = []"
  shows "\<exists>u. controller_run uni (ls @ [Deliver ev]) s u \<and> ct_cache u = ct_cache t
    \<and> ct_todo u = (ct_todo t)(Handler (event_resource ev) := handler uni ev)"
  by (rule exI, rule conjI, rule controller_run.and_then [OF assms(1) controller_step.deliver [OF assms(2)]]) simp

lemma delivered_acts: "delivered (ls @ replicate n (Act g L)) = delivered ls"
  by (induction n) (simp_all add: delivered_append replicate_append_same [symmetric] del: replicate_append_same)

lemma late_slice_run:
  assumes before: "service_name_label es = svc_Name svc" "svc_Name svc \<noteq> []" "es_Namespace es = svc_Namespace svc"
    "ls_Service (L :: listers) (svc_Namespace svc) (svc_Name svc) = Some svc"
  shows "\<exists>ls t. controller_run uni ls (idle c) t \<and> (\<forall>g. ct_todo t g = [])
    \<and> delivered ls = [Added EndpointSlices (EndpointSliceObj es), Deleted Services (ServiceObj svc)]
    \<and> ct_cache t = syncServiceClusterIPs L' (Some svc)
         (onServiceDelete uni (ServiceObj svc) (indexPorts (endpointSliceEntries uni (Some es)) c))"
proof -
  let ?add = "Added EndpointSlices (EndpointSliceObj es)" and ?del = "Deleted Services (ServiceObj svc)"
  let ?g = "Handler EndpointSlices" and ?h = "Handler Services"
  let ?c1 = "indexPorts (endpointSliceEntries uni (Some es)) c"
  let ?c2 = "onServiceDelete uni (ServiceObj svc) ?c1"
  from run_deliver [OF controller_run.at_rest, of "idle c" ?add uni] obtain s1 where
    s1: "controller_run uni [Deliver ?add] (idle c) s1" "ct_cache s1 = c"
      "ct_todo s1 = (\<lambda>_. [])(?g := map PutPort (endpointSliceEntries uni (Some es)) @ [SyncSlice es])"
    by (auto simp: idle_def slice_acts_def)
  have ports: "alone L (map PutPort (endpointSliceEntries uni (Some es))) (ct_cache s1) ?c1"
    using alone_loops(1) s1(2) by (simp add: indexPorts_def)
  from run_on [OF s1(1) ports, of ?g "[SyncSlice es]"] s1(3) obtain n s2 where
    s2: "controller_run uni ([Deliver ?add] @ replicate n (Act ?g L)) (idle c) s2" "ct_cache s2 = ?c1"
      "ct_todo s2 = (\<lambda>_. [])(?g := [SyncSlice es])"
    by auto
  have look: "act_step L (SyncSlice es) (ct_cache s2) = ([SyncService svc], ?c1)" using before s2(2) by simp
  let ?s3 = "s2\<lparr>ct_cache := ?c1, ct_todo := (ct_todo s2)(?g := [SyncService svc] @ [])\<rparr>"
  have "controller_step uni (Act ?g L) s2 ?s3" by (rule controller_step.act [OF _ look]) (simp add: s2(3))
  from controller_run.and_then [OF s2(1) this] have
    s3: "controller_run uni ([Deliver ?add] @ replicate n (Act ?g L) @ [Act ?g L]) (idle c) ?s3" by simp
  from run_deliver [OF s3, of ?del] s2(3) obtain s4 where
    s4: "controller_run uni (([Deliver ?add] @ replicate n (Act ?g L) @ [Act ?g L]) @ [Deliver ?del]) (idle c) s4"
      "ct_cache s4 = ?c1" "ct_todo s4 = ((\<lambda>_. [])(?g := [SyncService svc]))(?h := handler uni ?del)"
    by auto
  have "alone L (handler uni ?del) (ct_cache s4) ?c2" using alone_handler [of L uni ?del ?c1] s4(2) by simp
  from run_on [OF s4(1) this, of ?h "[]"] s4(3) obtain m s5 where
    s5: "controller_run uni ((([Deliver ?add] @ replicate n (Act ?g L) @ [Act ?g L]) @ [Deliver ?del]) @ replicate m (Act ?h L)) (idle c) s5"
      "ct_cache s5 = ?c2" "ct_todo s5 = (ct_todo s4)(?h := [])"
    by auto
  have rest: "ct_todo s5 = (\<lambda>_. [])(?g := [SyncService svc])" by (simp add: s5(3) s4(3) fun_eq_iff)
  have "alone L' [SyncService svc] (ct_cache s5) (syncServiceClusterIPs L' (Some svc) ?c2)" using alone_sync s5(2) by simp
  from run_on [OF s5(1) this, of ?g "[]"] rest [THEN fun_cong, of ?g] obtain k s6 where
    "controller_run uni (((([Deliver ?add] @ replicate n (Act ?g L) @ [Act ?g L]) @ [Deliver ?del]) @ replicate m (Act ?h L)) @ replicate k (Act ?g L')) (idle c) s6"
      "ct_cache s6 = syncServiceClusterIPs L' (Some svc) ?c2" "ct_todo s6 = (ct_todo s5)(?g := [])"
    by auto
  then show ?thesis using rest
    by (intro exI conjI) (auto simp: delivered_append delivered_acts delivered_acts [of "[]", simplified])
qed

section \<open>Properties\<close>


text \<open>C19. A lookup racing an update finds no gap: a port that is bound stays bound in every state
  of every interleaving of the goroutines, as long as no delivered event takes the port
  away (an update that listed the port lists it still, no deleted object listed it).\<close>

theorem no_port_gap:
  assumes "controller_run uni ls (idle c) t" and "LookupPort c ip port \<noteq> None"
    and "\<forall>ev. Deliver ev \<in> set ls \<longrightarrow> keeps_port uni (port_key ip port) ev"
  shows "LookupPort (ct_cache t) ip port \<noteq> None"
  using run_keeps_port [OF assms(1,3)] assms(2) by (simp add: idle_def LookupPort_def)

definition web_service :: Service where
  "web_service = \<lparr>svc_Namespace = ''shop'', svc_Name = ''web'', svc_ClusterIP = ''10.96.0.7'', svc_ClusterIPs = [''10.96.0.7''],
     svc_Ports = [\<lparr>sp_Name = ''http'', sp_AppProtocol = None, sp_Port = 80\<rparr>], svc_unread = []\<rparr>"

theorem no_port_gap_witness:
  "LookupPort (dispatch (\<lambda>s. s) sample_listers (Updated Services (ServiceObj web_service) (ServiceObj web_service))
     (UpsertPort (Addr4 0x0A600007) 80 ''http'' NewCache)) (Addr4 0x0A600007) 80 \<noteq> None"
proof -
  let ?c = "UpsertPort (Addr4 0x0A600007) 80 ''http'' NewCache"
  let ?ev = "Updated Services (ServiceObj web_service) (ServiceObj web_service)"
  obtain n where run: "controller_run (\<lambda>s. s) (Deliver ?ev # replicate n (Act (Handler Services) sample_listers)) (idle ?c)
      (idle (dispatch (\<lambda>s. s) sample_listers ?ev ?c))"
    using event_alone_run [of "\<lambda>s. s" ?ev sample_listers ?c] by auto
  have "LookupPort ?c (Addr4 0x0A600007) 80 \<noteq> None" by (simp add: LookupPort_def UpsertPort_def NewCache_def Let_def)
  from no_port_gap [OF run this] show ?thesis by (simp add: idle_def)
qed

text \<open>C20. The UID index under concurrency: whenever the pod goroutine is between events, whatever
  the other goroutines are doing, the index holds for each UID a workload of the namespace of
  the last delivered pod event that named the UID, or nothing when that was a deletion.\<close>

theorem uid_index_concurrent:
  assumes "controller_run uni ls (idle c) t" and "ct_todo t (Handler Pods) = []"
  shows "map_option w_Namespace (LookupUID (ct_cache t) u)
    = fold (event_uid u) (delivered ls) (map_option w_Namespace (LookupUID c u))"
  using uid_inv_run [OF assms(1)] assms(2) by (simp add: uid_inv_def uid_namespace_def)

definition web_pod :: Pod where
  "web_pod = \<lparr>pod_Namespace = ''shop'', pod_Name = ''web-1'', pod_UID = ''u'', pod_OwnerReferences = [],
     pod_HostNetwork = True, pod_PodIP = [], pod_PodIPs = [], pod_unread = []\<rparr>"

theorem uid_index_concurrent_witness:
  "\<exists>w. LookupUID (dispatch (\<lambda>s. s) sample_listers (Added Pods (PodObj web_pod)) NewCache) ''u'' = Some w
     \<and> w_Namespace w = ''shop''"
proof -
  let ?ev = "Added Pods (PodObj web_pod)"
  obtain n where run: "controller_run (\<lambda>s. s) (Deliver ?ev # replicate n (Act (Handler Pods) sample_listers)) (idle NewCache)
      (idle (dispatch (\<lambda>s. s) sample_listers ?ev NewCache))"
    using event_alone_run [of "\<lambda>s. s" ?ev sample_listers NewCache] by auto
  have "delivered (Deliver ?ev # replicate n (Act (Handler Pods) sample_listers)) = [?ev]"
    using delivered_acts [of "[Deliver ?ev]" n] by simp
  with uid_index_concurrent [OF run, of "''u''"] show ?thesis by (simp add: idle_def web_pod_def)
qed



end
