(* ===== verification/Edge_Types.thy ===== *)
theory Edge_Types
  imports Handlers_Concurrent Report_Concurrent
begin

text \<open>
  What the workload cache may hold and what the edges made from it look like. The types
  follow \<open>internal/model/model.go\<close>: a workload has a name and a kind; it has a namespace
  unless it is a node or an external peer. The API objects are assumed to be as Kubernetes
  admits them: names, namespaces and kinds are not empty, names have no bar, namespaces no
  slash, and no owner is of one of the kinds the sniffer itself invents.
\<close>

section \<open>Types\<close>

definition plain_name :: "string \<Rightarrow> bool" where
  "plain_name s \<longleftrightarrow> s \<noteq> [] \<and> CHR ''|'' \<notin> set s"

definition plain_namespace :: "string \<Rightarrow> bool" where
  "plain_namespace s \<longleftrightarrow> s \<noteq> [] \<and> CHR ''/'' \<notin> set s"

definition typed :: "Workload \<Rightarrow> bool" where
  "typed w \<longleftrightarrow> plain_name (w_Name w) \<and> w_Kind w \<noteq> []
     \<and> (if w_Kind w \<in> {KindNode, KindExternal} then w_Namespace w = [] else plain_namespace (w_Namespace w))"

definition known :: "Workload \<Rightarrow> bool" where
  \<comment> \<open>of the cluster: what the cache may hold\<close>
  "known w \<longleftrightarrow> typed w \<and> \<not> IsExternal w"

definition cache_typed :: "WCache \<Rightarrow> bool" where
  "cache_typed c \<longleftrightarrow>
     (\<forall>ip w. LookupIP c ip = Some w \<longrightarrow> known w) \<and> (\<forall>u w. LookupUID c u = Some w \<longrightarrow> known w)
     \<and> (\<forall>k l7. lookup_port c k = Some l7 \<longrightarrow> l7 \<in> set recognizedL7)"

section \<open>Valid API objects\<close>

definition owner_kind :: "string \<Rightarrow> bool" where
  "owner_kind k \<longleftrightarrow> k \<noteq> [] \<and> k \<notin> {KindNode, KindExternal}"

definition owners_ok :: "OwnerReference list \<Rightarrow> bool" where
  "owners_ok rs \<longleftrightarrow> (\<forall>r \<in> set rs. owner_kind (or_Kind r) \<and> plain_name (or_Name r))"

definition pod_ok :: "Pod \<Rightarrow> bool" where
  "pod_ok p \<longleftrightarrow> plain_namespace (pod_Namespace p) \<and> plain_name (pod_Name p) \<and> owners_ok (pod_OwnerReferences p)"

definition service_ok :: "Service \<Rightarrow> bool" where
  "service_ok s \<longleftrightarrow> plain_namespace (svc_Namespace s) \<and> plain_name (svc_Name s)"

fun object_ok :: "kube_object \<Rightarrow> bool" where
  "object_ok (PodObj p) \<longleftrightarrow> pod_ok p"
| "object_ok (NodeObj n) \<longleftrightarrow> plain_name (node_Name n)"
| "object_ok (ServiceObj s) \<longleftrightarrow> service_ok s"
| "object_ok _ \<longleftrightarrow> True"

fun event_valid :: "informer_event \<Rightarrow> bool" where
  "event_valid (Added r obj) \<longleftrightarrow> object_ok obj"
| "event_valid (Updated r old obj) \<longleftrightarrow> object_ok obj"
| "event_valid (Deleted r obj) \<longleftrightarrow> True"

definition listers_ok :: "listers \<Rightarrow> bool" where
  "listers_ok L \<longleftrightarrow>
     (\<forall>ns n p. ls_Pod L ns n = Some p \<longrightarrow> owners_ok (pod_OwnerReferences p))
     \<and> (\<forall>ns n x. ls_ReplicaSet L ns n = Some x \<or> ls_Job L ns n = Some x \<longrightarrow> owners_ok (own_OwnerReferences x))
     \<and> (\<forall>ns n s. ls_Service L ns n = Some s \<longrightarrow> service_ok s)
     \<and> (\<forall>ss. ls_Services L = Some ss \<longrightarrow> (\<forall>s \<in> set ss. service_ok s))"

section \<open>ServiceEntries\<close>

fun bar_free :: "json \<Rightarrow> bool" where
  "bar_free (JStr s) \<longleftrightarrow> CHR ''|'' \<notin> set s"
| "bar_free (JArr xs) \<longleftrightarrow> (\<forall>x \<in> set xs. bar_free x)"
| "bar_free (JObj m) \<longleftrightarrow> (\<forall>e \<in> set m. bar_free (snd e))"
| "bar_free (JOther s) \<longleftrightarrow> True"

definition entry_ok :: "json_map \<Rightarrow> bool" where
  \<comment> \<open>its namespace is one, and no string in it has a bar\<close>
  "entry_ok u \<longleftrightarrow> bar_free (JObj u) \<and> plain_namespace (fst (nestedString u [''metadata'', ''namespace'']))"

lemma bar_free_map_of: "\<lbrakk>bar_free (JObj m); map_of m k = Some v\<rbrakk> \<Longrightarrow> bar_free v"
  by (auto dest!: map_of_SomeD)

lemma bar_free_as:
  "\<lbrakk>bar_free v; as_map v = Some m\<rbrakk> \<Longrightarrow> bar_free (JObj m)" "\<lbrakk>bar_free v; x \<in> set (as_arr v)\<rbrakk> \<Longrightarrow> bar_free x"
  "\<lbrakk>bar_free v; as_str v = Some s\<rbrakk> \<Longrightarrow> CHR ''|'' \<notin> set s"
  by (cases v; simp)+

lemmas bar_reads =
  bar_free_map_of bar_free_as bar_free_map_of [OF _ sym] bar_free_as(1) [OF _ sym] bar_free_as(3) [OF _ sym]

lemma nestedSlice_bar_free: "\<lbrakk>bar_free (JObj m); x \<in> set (nestedSlice m path)\<rbrakk> \<Longrightarrow> bar_free x"
proof (induction m path rule: nestedSlice.induct)
  case (2 m k)
  then show ?case by (auto simp del: bar_free.simps split: option.splits dest: bar_reads)
next
  case (3 m k k' path)
  show ?case
  proof (cases "map_of m k")
    case None
    with 3(3) show ?thesis by simp
  next
    case (Some v)
    with 3 show ?thesis by (cases "as_map v") (auto simp del: bar_free.simps dest: bar_reads)
  qed
qed simp

lemma nestedStringSlice_bar_free:
  assumes "bar_free (JObj m)" and "s \<in> set (nestedStringSlice m path)"
  shows "CHR ''|'' \<notin> set s"
proof -
  from assms(2) obtain v where "v \<in> set (nestedSlice m path)" "as_str v = Some s"
    by (auto simp: nestedStringSlice_def List.map_filter_def)
  with nestedSlice_bar_free [OF assms(1)] show ?thesis by (auto dest: bar_free_as)
qed

lemma string_field_bar_free: "bar_free (JObj m) \<Longrightarrow> CHR ''|'' \<notin> set (string_field m k)"
  by (auto simp del: bar_free.simps simp: string_field_def split: option.splits dest: bar_reads)

lemma se_workload_known: "\<lbrakk>plain_name host; plain_namespace ns\<rbrakk> \<Longrightarrow> known (se_workload host ns)"
  by (simp add: se_workload_def known_def typed_def IsExternal_def KindServiceEntry_def KindNode_def KindExternal_def)

lemma status_bindings_known:
  "\<lbrakk>b \<in> set (status_bindings p ns es); \<forall>e \<in> set es. bar_free e; CHR ''|'' \<notin> set p; plain_namespace ns\<rbrakk>
     \<Longrightarrow> known (vb_wl b)"
proof (induction p ns es rule: status_bindings.induct)
  case (2 p ns e es)
  have host: "known (se_workload (string_field m k) ns)" if "Some m = as_map e" "string_field m k \<noteq> []" for m k
    using that 2(3,5) bar_free_as(1) [of e m] string_field_bar_free [of m k]
    by (intro se_workload_known) (simp_all add: plain_name_def)
  have "known (se_workload p ns)" if "p \<noteq> []"
    using that 2(4,5) by (intro se_workload_known) (simp_all add: plain_name_def)
  with 2 host show ?case by (auto simp: Let_def split: option.splits if_splits)
qed simp

lemma spec_bindings_known:
  "\<lbrakk>b \<in> set (spec_bindings p ns as); plain_name p; plain_namespace ns\<rbrakk> \<Longrightarrow> known (vb_wl b)"
  by (induction p ns as rule: spec_bindings.induct) (auto simp: se_workload_known split: if_splits option.splits)

lemma bindings_known: "\<lbrakk>entry_ok u; b \<in> set (parseServiceEntryVIPs u)\<rbrakk> \<Longrightarrow> known (vb_wl b)"
proof -
  assume ok: "entry_ok u" and b: "b \<in> set (parseServiceEntryVIPs u)"
  let ?hosts = "nestedStringSlice u [''spec'', ''hosts'']"
  let ?p = "if ?hosts = [] then [] else ?hosts ! 0" and ?ns = "fst (nestedString u [''metadata'', ''namespace''])"
  have bar: "bar_free (JObj u)" and ns: "plain_namespace ?ns" using ok by (simp_all add: entry_ok_def)
  have p: "CHR ''|'' \<notin> set ?p"
    using nestedStringSlice_bar_free [OF bar, of "?hosts ! 0" "[''spec'', ''hosts'']"] by (cases ?hosts) simp_all
  from b consider "b \<in> set (status_bindings ?p ?ns (nestedSlice u [''status'', ''addresses'']))"
    | "?p \<noteq> []" "b \<in> set (spec_bindings ?p ?ns (nestedStringSlice u [''spec'', ''addresses'']))"
    by (auto simp: parseServiceEntryVIPs_def Let_def simp del: nestedString.simps nestedSlice.simps split: if_splits)
  then show ?thesis
  proof cases
    case 1
    with nestedSlice_bar_free [OF bar] p ns show ?thesis by (blast intro: status_bindings_known)
  next
    case 2
    with p ns show ?thesis by (intro spec_bindings_known) (auto simp: plain_name_def)
  qed
qed

fun entry_event_ok :: "entry_event \<Rightarrow> bool" where
  "entry_event_ok (EntryAdded obj) \<longleftrightarrow> (\<forall>u. asUnstructured obj = Some u \<longrightarrow> entry_ok u)"
| "entry_event_ok (EntryUpdated old obj) \<longleftrightarrow> (\<forall>u. asUnstructured obj = Some u \<longrightarrow> entry_ok u)"
| "entry_event_ok (EntryDeleted obj) \<longleftrightarrow> True"

lemma entry_acts_known: "\<lbrakk>entry_event_ok ev; PutIP ip w \<in> set (entry_acts ev)\<rbrakk> \<Longrightarrow> known w"
proof -
  have "known w" if "\<forall>u. asUnstructured obj = Some u \<longrightarrow> entry_ok u" "PutIP ip w \<in> set (put_entry (trimServiceEntry obj))" for obj
  proof -
    have "put_entry (trimServiceEntry obj) = put_entry obj"
      by (cases obj) (simp_all add: put_entry_def parse_trim)
    with that(2) have "PutIP ip w \<in> set (put_entry obj)" by simp
    with that(1) bindings_known show ?thesis by (cases "asUnstructured obj") (auto simp: put_entry_def)
  qed
  moreover have "PutIP ip w \<notin> set (drop_entry obj)" for obj by (auto simp: drop_entry_def split: option.splits)
  ultimately show "\<lbrakk>entry_event_ok ev; PutIP ip w \<in> set (entry_acts ev)\<rbrakk> \<Longrightarrow> known w" by (cases ev) auto
qed

fun label_ok :: "label \<Rightarrow> bool" where
  "label_ok (Deliver ev) \<longleftrightarrow> event_valid ev"
| "label_ok (DeliverEntry ev) \<longleftrightarrow> entry_event_ok ev"
| "label_ok (Act g L) \<longleftrightarrow> listers_ok L"
| "label_ok Reindex \<longleftrightarrow> True"

section \<open>Accesses keep the types\<close>

fun access_ok :: "access \<Rightarrow> bool" where
  "access_ok (Walk n pod kind name) \<longleftrightarrow> plain_namespace (pod_Namespace pod) \<and> owner_kind kind \<and> plain_name name"
| "access_ok (PutUID u w) \<longleftrightarrow> known w"
| "access_ok (PutIP ip w) \<longleftrightarrow> known w"
| "access_ok (PutPort e) \<longleftrightarrow> pe_l7 e \<in> set recognizedL7"
| "access_ok (SyncService svc) \<longleftrightarrow> service_ok svc"
| "access_ok (Scan svc as s) \<longleftrightarrow> service_ok svc \<and> (\<forall>w. sc_first s = Some w \<longrightarrow> known w)"
| "access_ok a \<longleftrightarrow> True"

lemma cache_typed_updates:
  assumes "cache_typed c"
  shows "known w \<Longrightarrow> cache_typed (Upsert ip w c)" "cache_typed (Delete ip c)"
    "known w \<Longrightarrow> cache_typed (UpsertUID u w c)" "cache_typed (DeleteUID u c)"
    "l7 \<in> set recognizedL7 \<Longrightarrow> cache_typed (UpsertPort a p l7 c)" "cache_typed (DeletePort a p c)"
proof -
  note get = ips.lookup_upsert ips.lookup_delete uids.lookup_upsert uids.lookup_delete
  have port: "lookup_port (UpsertPort a p l7 c) k = (if norm_port (a, p) = norm_port k then l7_val l7 else lookup_port c k)"
    "lookup_port (DeletePort a p c) k = (if norm_port (a, p) = norm_port k then None else lookup_port c k)" for a p l7 k
    using ports.lookup_upsert [of "(a, p)" l7 c k] ports.lookup_delete [of "(a, p)" c k]
    by (simp_all add: upsert_port_def delete_port_def)
  have other: "lookup_port (Upsert ip w c) k = lookup_port c k" "lookup_port (Delete ip c) k = lookup_port c k"
    "lookup_port (UpsertUID u w c) k = lookup_port c k" "lookup_port (DeleteUID u c) k = lookup_port c k" for w ip u k
    by (simp_all add: lookup_port_def)
  show "known w \<Longrightarrow> cache_typed (Upsert ip w c)" "cache_typed (Delete ip c)"
    "known w \<Longrightarrow> cache_typed (UpsertUID u w c)" "cache_typed (DeleteUID u c)"
    "l7 \<in> set recognizedL7 \<Longrightarrow> cache_typed (UpsertPort a p l7 c)" "cache_typed (DeletePort a p c)"
    using assms by (auto simp: cache_typed_def get port other l7_val_def split: if_splits)
qed

lemma owner_known:
  "\<lbrakk>plain_namespace ns; owner_kind kind; plain_name name\<rbrakk> \<Longrightarrow> known \<lparr>w_Name = name, w_Namespace = ns, w_Kind = kind\<rparr>"
  by (simp add: known_def typed_def owner_kind_def IsExternal_def)

lemma service_known: "service_ok s \<Longrightarrow> known \<lparr>w_Name = svc_Name s, w_Namespace = svc_Namespace s, w_Kind = KindService\<rparr>"
  by (simp add: known_def typed_def service_ok_def IsExternal_def KindService_def KindNode_def KindExternal_def)

lemma node_known: "plain_name n \<Longrightarrow> known \<lparr>w_Name = n, w_Namespace = [], w_Kind = KindNode\<rparr>"
  by (simp add: known_def typed_def IsExternal_def KindNode_def KindExternal_def)

lemma controllerOf_ok: "\<lbrakk>owners_ok rs; controllerOf rs = Some (k, n)\<rbrakk> \<Longrightarrow> owner_kind k \<and> plain_name n"
  by (induction rs rule: controllerOf.induct) (auto simp: owners_ok_def split: if_splits)

lemma GetController_ok: "\<lbrakk>listers_ok L; GetController L kind ns name = Some (k, n)\<rbrakk> \<Longrightarrow> owner_kind k \<and> plain_name n"
proof -
  assume "listers_ok L" and found: "GetController L kind ns name = Some (k, n)"
  then have ok: "ls_Pod L ns name = Some p \<Longrightarrow> owners_ok (pod_OwnerReferences p)"
    "ls_ReplicaSet L ns name = Some x \<Longrightarrow> owners_ok (own_OwnerReferences x)"
    "ls_Job L ns name = Some x \<Longrightarrow> owners_ok (own_OwnerReferences x)" for p x
    by (auto simp: listers_ok_def)
  from found show ?thesis
    by (auto simp: GetController_def split: if_splits option.splits dest: ok controllerOf_ok)
qed

lemma pod_writes_ok: "known wl \<Longrightarrow> a \<in> set (pod_writes pod wl) \<Longrightarrow> access_ok a"
  by (auto simp: pod_writes_def split: if_splits)

lemma map_ips_ok: "\<lbrakk>\<And>w. wl = Some w \<Longrightarrow> known w; a \<in> set (map_ips svc wl)\<rbrakk> \<Longrightarrow> access_ok a"
  by (cases wl) (auto simp: map_ips_def)

lemma scan_result_known:
  "\<lbrakk>service_ok svc; \<forall>w. sc_first s = Some w \<longrightarrow> known w; scan_result svc s = Some w\<rbrakk> \<Longrightarrow> known w"
  by (auto simp: scan_result_def service_known split: option.splits if_splits)

lemma act_step_typed:
  assumes "act_step L a c = (as, c')" and "listers_ok L" and "access_ok a" and "cache_typed c"
  shows "cache_typed c' \<and> (\<forall>b \<in> set as. access_ok b)"
proof (cases "(L, a, c)" rule: act_step.cases)
  case (1 L pod kind name c)
  with assms show ?thesis by (auto dest: pod_writes_ok [OF owner_known])
next
  case (2 L n pod kind name c)
  with assms show ?thesis
    by (auto split: option.splits dest: GetController_ok pod_writes_ok [OF owner_known])
next
  case (11 L svc s c)
  then have "\<And>w. scan_result svc s = Some w \<Longrightarrow> known w" using assms(3) scan_result_known [of svc s] by auto
  from map_ips_ok [OF this] 11 assms show ?thesis by auto
next
  case (12 L svc a as s c)
  have "known w" if "sc_first (scan_address (LookupIP c) a s) = Some w" for w
    using 12 assms(3,4) that by (auto simp: scan_address_def cache_typed_def split: option.splits if_splits)
  with 12 assms show ?thesis by auto
qed (use assms in \<open>auto simp: Let_def cache_typed_updates listers_ok_def split: if_splits option.splits\<close>)

lemma NormalizeL7_kept: "NormalizeL7 uni a b \<noteq> [] \<Longrightarrow> NormalizeL7 uni a b \<in> set recognizedL7"
  using NormalizeL7_recognized [of uni a b] by simp

lemma service_entries_ok: "e \<in> set (service_port_entries uni ips ps) \<Longrightarrow> pe_l7 e \<in> set recognizedL7"
  by (induction uni ips ps rule: service_port_entries.induct) (auto simp: Let_def NormalizeL7_kept split: if_splits)

lemma slice_entries_ok: "e \<in> set (slice_port_entries uni eps ps) \<Longrightarrow> pe_l7 e \<in> set recognizedL7"
  by (induction uni eps ps rule: slice_port_entries.induct)
    (auto simp: Let_def NormalizeL7_kept split: if_splits option.splits)

lemma entries_ok:
  "e \<in> set (serviceEntries uni svc) \<Longrightarrow> pe_l7 e \<in> set recognizedL7"
  "e \<in> set (endpointSliceEntries uni es) \<Longrightarrow> pe_l7 e \<in> set recognizedL7"
  by (auto simp: serviceEntries_def endpointSliceEntries_def Let_def dest: service_entries_ok slice_entries_ok
      split: option.splits if_splits)

lemma only_service_ok: "\<lbrakk>object_ok obj; only_service obj = Some s\<rbrakk> \<Longrightarrow> service_ok s"
  by (cases obj) auto

lemma handler_ok: "\<lbrakk>event_valid ev; a \<in> set (handler uni ev)\<rbrakk> \<Longrightarrow> access_ok a"
proof -
  have pod: "owner_kind ''Pod''" by (simp add: owner_kind_def KindNode_def KindExternal_def)
  assume "event_valid ev" "a \<in> set (handler uni ev)"
  then show ?thesis
    by (cases "(uni, ev)" rule: handler.cases)
      (auto simp: pod_acts_def pod_delete_acts_def node_acts_def node_delete_acts_def service_acts_def service_update_acts_def
        service_delete_acts_def slice_acts_def slice_update_acts_def slice_delete_acts_def evict_acts_def reindex_acts_def
        entries_ok pod pod_ok_def node_known dest: only_service_ok only_service_ok [OF _ sym] split: kube_object.splits option.splits if_splits)
qed

lemma controller_run_typed:
  assumes "controller_run uni ls s t" and "\<forall>l \<in> set ls. label_ok l" and "cache_typed (ct_cache s)"
    and "\<forall>g. \<forall>a \<in> set (ct_todo s g). access_ok a"
  shows "cache_typed (ct_cache t) \<and> (\<forall>g. \<forall>a \<in> set (ct_todo t g). access_ok a)"
  using assms
proof (induction rule: controller_run.induct)
  case (and_then ls s t l u)
  then have t: "cache_typed (ct_cache t)" "\<forall>g. \<forall>a \<in> set (ct_todo t g). access_ok a" and l: "label_ok l" by auto
  from and_then.hyps(2) show ?case
  proof (cases rule: controller_step.cases)
    case (deliver ev)
    with t l handler_ok [of ev _ uni] show ?thesis by auto
  next
    case (deliver_entry ev)
    have "access_ok b" if "b \<in> set (entry_acts ev)" for b
      using that entry_acts_writes [OF that] entry_acts_known [of ev] l deliver_entry(1) by auto
    with t deliver_entry show ?thesis by auto
  next
    case reindex
    with t show ?thesis by auto
  next
    case (act g a as L as' c)
    from t(2) act(3) have a: "access_ok a" "\<forall>b \<in> set as. access_ok b" by (metis list.set_intros)+
    from act_step_typed [OF act(4) _ a(1) t(1)] l act(1) have "cache_typed c" "\<forall>b \<in> set as'. access_ok b" by simp_all
    with t a act show ?thesis by auto
  qed
qed simp

section \<open>The text of an address\<close>

lemma no_bar_digits: "\<lbrakk>2 \<le> b; b \<le> 16\<rbrakk> \<Longrightarrow> CHR ''|'' \<notin> set (show_base b n)"
proof
  assume b: "2 \<le> b" "b \<le> 16" and "CHR ''|'' \<in> set (show_base b n)"
  then obtain d where d: "d < b" "CHR ''|'' = digit_char d" using set_show_base [OF b(1), of n] by auto
  then have "(of_char (CHR ''|'') :: nat) = of_char (digit_char d)" by simp
  with d(1) b(2) show False by (auto simp: digit_char_def of_char_of split: if_splits)
qed

lemma four: "length xs = 4 \<Longrightarrow> \<exists>a b c d. xs = [a, b, c, d]"
  by (auto simp: numeral_eq_Suc length_Suc_conv)

lemma ipv4_string_plain: "plain_name (ipv4_string w)"
proof -
  obtain a b c d where "be_bytes 4 (unat w) = [a, b, c, d]" using four [OF length_be_bytes] by blast
  then show ?thesis by (simp add: ipv4_string_def plain_name_def no_bar_digits)
qed

lemma no_bar_join: "\<forall>x \<in> set xs. CHR ''|'' \<notin> set x \<Longrightarrow> CHR ''|'' \<notin> set (join_colon xs)"
  by (induction xs rule: join_colon.induct) auto

lemma ipv6_string_plain: "plain_name (ipv6_string w)"
proof -
  have bar: "CHR ''|'' \<notin> set (join_colon (f (map show_hex gs)))" if "\<And>xs. set (f xs) \<subseteq> set (xs :: string list)" for f gs
    using that [of "map show_hex gs"] by (intro no_bar_join) (auto simp: no_bar_digits)
  have "2 \<le> length xs \<Longrightarrow> join_colon xs \<noteq> []" for xs
    by (cases xs rule: join_colon.cases) auto
  then have "join_colon (map show_hex (groups6 w)) \<noteq> []" by (simp add: groups6_def)
  with bar [of "\<lambda>xs. xs"] bar [of "take n" for n, OF set_take_subset] bar [of "drop n" for n, OF set_drop_subset]
  show ?thesis by (simp add: ipv6_string_def plain_name_def Let_def split: option.split)
qed

lemma addr_string_plain: "addr_zone a = [] \<Longrightarrow> plain_name (addr_string a)"
  using ipv4_string_plain ipv6_string_plain by (cases a) (simp_all add: plain_name_def)

section \<open>The edges\<close>

definition wire_event :: "ConnectionEvent \<Rightarrow> bool" where
  \<comment> \<open>addresses without a zone, a host name without a bar\<close>
  "wire_event ev \<longleftrightarrow> addr_zone (SrcIP ev) = [] \<and> addr_zone (DstIP ev) = [] \<and> CHR ''|'' \<notin> set (DstHostname ev)"

lemma toEvent_wire: "\<lbrakk>toEvent r = Some ev; CHR ''|'' \<notin> set (fr_DstHostname r)\<rbrakk> \<Longrightarrow> wire_event ev"
proof -
  assume ev: "toEvent r = Some ev" and host: "CHR ''|'' \<notin> set (fr_DstHostname r)"
  then obtain src dst where "addr_from_slice (fr_SrcIp r) = Some src" "addr_from_slice (fr_DstIp r) = Some dst"
    "SrcIP ev = unmap src" "DstIP ev = unmap dst" "DstHostname ev = fr_DstHostname r"
    by (auto simp: toEvent_def split: option.splits if_splits)
  with host show ?thesis using addr_from_slice_Some by (simp add: wire_event_def addr_zone_unmap)
qed

lemma lookup_known:
  assumes "cache_typed c"
  shows "LookupIP c ip = Some w \<Longrightarrow> known w" "LookupUID c u = Some w \<Longrightarrow> known w"
    "LookupPort c ip p = Some l7 \<Longrightarrow> l7 \<in> set recognizedL7"
  using assms by (auto simp: cache_typed_def) (metis fst_conv lookup_port_def snd_conv)

lemma for_ip_typed: "\<lbrakk>cache_typed c; addr_zone ip = []\<rbrakk> \<Longrightarrow> typed (WorkloadForIP (LookupIP c) ip)"
  by (auto simp: WorkloadForIP_def typed_def addr_string_plain KindExternal_def dest: lookup_known [unfolded known_def typed_def]
      split: option.split)

lemma for_ip_external: "cache_typed c \<Longrightarrow> IsExternal (WorkloadForIP (LookupIP c) ip) \<longleftrightarrow> LookupIP c ip = None"
  by (auto simp: WorkloadForIP_def IsExternal_def dest: lookup_known [unfolded known_def IsExternal_def] split: option.splits)

lemma chosen_source_typed:
  "\<lbrakk>cache_typed c; cache_typed c'; wire_event ev\<rbrakk> \<Longrightarrow> typed (chosen_source c c' ev)"
  using for_ip_typed [of c "SrcIP ev"]
  by (auto simp: chosen_source_def source_by_ip_def source_by_uid_def wire_event_def Let_def
      dest: lookup_known(2) [unfolded known_def] split: option.split)

lemma dest_of_typed: "\<lbrakk>cache_typed c; wire_event ev\<rbrakk> \<Longrightarrow> typed (dest_of c ev)"
  using for_ip_typed [of c "DstIP ev"]
  by (auto simp: dest_of_def wire_event_def typed_def plain_name_def IsExternal_def Let_def)

lemma port_name_typed: "cache_typed c \<Longrightarrow> port_name c ev \<in> insert [] (set recognizedL7)"
  by (auto simp: port_name_def dest: lookup_known(3) split: option.split)

definition edge_typed :: "ServiceCall \<Rightarrow> bool" where
  "edge_typed sc \<longleftrightarrow> typed (sc_Source sc) \<and> typed (sc_Dest sc) \<and> sc_DestAppProtocol sc \<in> insert [] (set recognizedL7)"

lemma seen_in_typed:
  assumes "seen_in cs ev sc" and "\<forall>c \<in> set cs. cache_typed c" and "wire_event ev"
  shows "edge_typed sc"
proof -
  from assms(1) obtain i j k l where "i \<le> j" "j \<le> k" "k \<le> l" "l < length cs"
    and sc: "sc = service_call ev (chosen_source (cs ! i) (cs ! j) ev) (port_name (cs ! k) ev) (dest_of (cs ! l) ev)"
    unfolding seen_in_def by blast
  then have "cache_typed (cs ! i)" "cache_typed (cs ! j)" "cache_typed (cs ! k)" "cache_typed (cs ! l)"
    using assms(2) by (meson le_less_trans nth_mem)+
  then show ?thesis
    using chosen_source_typed dest_of_typed port_name_typed assms(3) unfolding sc edge_typed_def service_call_def by simp
qed

lemma edge_typed_plain: "edge_typed sc \<Longrightarrow> plain_names sc"
  by (auto simp: edge_typed_def typed_def plain_names_def plain_name_def plain_namespace_def split: if_splits)

text \<open>External means unknown: in a typed cache no entry passes for an external peer.\<close>

lemma external_unknown:
  assumes "cache_typed c" and "sc = Enrich ev (LookupIP c) (Some (LookupUID c)) (Some (LookupPort c))"
  shows "IsExternal (sc_Dest sc) \<longleftrightarrow> LookupIP c (DstIP ev) = None"
    "IsExternal (sc_Source sc) \<longleftrightarrow> LookupIP c (SrcIP ev) = None \<and> (SrcPodUID ev = [] \<or> LookupUID c (SrcPodUID ev) = None)"
proof -
  have kinds: "KindNode \<noteq> KindExternal" by (simp add: KindNode_def KindExternal_def)
  have known: "\<not> IsExternal w" if "LookupIP c ip = Some w \<or> LookupUID c u = Some w" for ip u w
    using that lookup_known [OF assms(1)] by (auto simp: known_def)
  show "IsExternal (sc_Dest sc) \<longleftrightarrow> LookupIP c (DstIP ev) = None"
    using known by (auto simp: assms(2) Enrich_dest IsExternal_def split: option.split)
  show "IsExternal (sc_Source sc) \<longleftrightarrow> LookupIP c (SrcIP ev) = None \<and> (SrcPodUID ev = [] \<or> LookupUID c (SrcPodUID ev) = None)"
    using known kinds by (auto simp: assms(2) Enrich_source IsExternal_def split: option.split)
qed

lemma sent_edge_typed:
  assumes "(server_step env)\<^sup>*\<^sup>* (serving p) s" and "\<forall>c \<in> set (g_caches s). cache_typed c"
    and "\<forall>rs \<in> set (g_batches s). \<forall>r \<in> set rs. CHR ''|'' \<notin> set (fr_DstHostname r)"
    and "(sc, k) \<in> set (g_sent s)"
  shows "edge_typed sc"
proof (rule sent_edge_decided [OF assms(1,4)])
  fix i r ev
  assume i: "i < length (g_batches s)" and r: "r \<in> set (g_batches s ! i)" "toEvent r = Some ev" and "seen_in (g_caches s) ev sc"
  moreover from i have "g_batches s ! i \<in> set (g_batches s)" by simp
  ultimately show "edge_typed sc" using assms(2,3) by (blast intro: toEvent_wire seen_in_typed)
qed

section \<open>Properties\<close>

text \<open>C17. The workload cache is well typed at all times: starting from a typed cache (a new one is),
  whatever valid events arrive, of ServiceEntries too, and however the handlers interleave,
  access by access, with listers that change, every workload in the cache has a plain name
  and a kind, has a plain namespace unless it is a node, none passes for an external peer,
  and every port is bound to a recognised protocol.\<close>

theorem cache_stays_typed:
  assumes "controller_run uni ls (idle c) t" and "\<forall>l \<in> set ls. label_ok l" and "cache_typed c"
  shows "cache_typed NewCache \<and> cache_typed (ct_cache t)"
proof -
  have "cache_typed (ct_cache t)"
    using controller_run_typed [OF assms(1,2)] assms(3) by (simp add: idle_def)
  moreover have "cache_typed NewCache"
    by (simp add: cache_typed_def NewCache_def LookupIP_def LookupUID_def lookup_port_def LookupPort_def)
  ultimately show ?thesis by blast
qed

theorem cache_stays_typed_witness:
  "cache_typed (dispatch (\<lambda>s. s) sample_listers (Added Pods (PodObj web_pod))
     (entry_dispatch (EntryAdded (Unstructured sample_entry)) NewCache))"
proof -
  let ?pod = "Added Pods (PodObj web_pod)" and ?entry = "EntryAdded (Unstructured sample_entry)"
  obtain n where first: "controller_run (\<lambda>s. s) (DeliverEntry ?entry # replicate n (Act EntryHandler sample_listers)) (idle NewCache)
      (idle (entry_dispatch ?entry NewCache))"
    using entry_alone_run [of "\<lambda>s. s" ?entry sample_listers NewCache] by blast
  obtain m where "controller_run (\<lambda>s. s) (Deliver ?pod # replicate m (Act (Handler Pods) sample_listers))
      (idle (entry_dispatch ?entry NewCache)) (idle (dispatch (\<lambda>s. s) sample_listers ?pod (entry_dispatch ?entry NewCache)))"
    using event_alone_run [of "\<lambda>s. s" ?pod sample_listers "entry_dispatch ?entry NewCache"] by auto
  note run = run_append [OF this first]
  have listers: "listers_ok sample_listers"
    by (simp add: listers_ok_def sample_listers_def sample_service_def service_ok_def plain_name_def plain_namespace_def)
  have labels: "\<forall>l \<in> set ((DeliverEntry ?entry # replicate n (Act EntryHandler sample_listers))
      @ Deliver ?pod # replicate m (Act (Handler Pods) sample_listers)). label_ok l"
    by (auto simp: listers web_pod_def pod_ok_def plain_name_def plain_namespace_def owners_ok_def entry_ok_def sample_entry_def)
  have new: "cache_typed NewCache"
    by (simp add: cache_typed_def NewCache_def LookupIP_def LookupUID_def lookup_port_def LookupPort_def)
  from cache_stays_typed [OF run labels new] show ?thesis by (simp add: idle_def del: entry_dispatch.simps)
qed



end
