(* ===== verification/Metrics.thy ===== *)
theory Metrics
  imports Sniffer_Prelude
begin

text \<open>
  \<open>internal/collector/metrics.go\<close>, \<open>internal/processor/metrics.go\<close> and \<open>NewRegistry\<close> of
  \<open>internal/telemetry/telemetry.go\<close>: the instruments each command declares and registers.
  The Prometheus registry is library code, the argument \<open>register\<close> (\<open>None\<close> is an error);
  \<open>registry_contract\<close> is its documented rule: a well-formed instrument whose name no
  registered one uses is accepted.
\<close>

section \<open>Instruments\<close>

datatype metric =
    Counter string string "string list"  \<comment> \<open>name, help, label names\<close>
  | Gauge string string "string list"
  | GoRuntime  \<comment> \<open>the collectors of \<open>client_golang\<close>\<close>
  | ProcessStats

fun label_names :: "metric \<Rightarrow> string list" where
  "label_names (Counter n h ls) = ls"
| "label_names (Gauge n h ls) = ls"
| "label_names _ = []"

definition labels_match :: "metric \<Rightarrow> string list \<Rightarrow> bool" where
  \<comment> \<open>what \<open>WithLabelValues\<close> asks of its arguments; it panics otherwise\<close>
  "labels_match m vs \<longleftrightarrow> length vs = length (label_names m)"

record collector_metrics =
  cm_Events :: metric
  cm_RecordsSent :: metric
  cm_RecordsDropped :: metric
  cm_ReportErrors :: metric
  cm_QueueDepth :: metric
  cm_DNSAnswers :: metric
  cm_DNSCacheEntries :: metric

record processor_metrics =
  pm_Records :: metric
  pm_Batches :: metric
  pm_EmitErrors :: metric

fun MustRegister :: "('r \<Rightarrow> metric \<Rightarrow> 'r option) \<Rightarrow> metric list \<Rightarrow> 'r \<Rightarrow> 'r option" where
  \<comment> \<open>documented as one \<open>Register\<close> after the other; \<open>None\<close> is the panic on the first error\<close>
  "MustRegister register [] reg = Some reg"
| "MustRegister register (m # ms) reg =
     (case register reg m of None \<Rightarrow> None | Some reg \<Rightarrow> MustRegister register ms reg)"

definition NewRegistry :: "('r \<Rightarrow> metric \<Rightarrow> 'r option) \<Rightarrow> 'r \<Rightarrow> 'r option" where
  \<comment> \<open>the second argument is an empty registry\<close>
  "NewRegistry register reg = MustRegister register [GoRuntime, ProcessStats] reg"

definition collector_instruments :: collector_metrics where
  "collector_instruments =
     \<lparr>cm_Events = Counter ''sniffer_collector_events_total''
        ''Connection events read from the eBPF ring buffer, by result.'' [''result''],
      cm_RecordsSent = Counter ''sniffer_collector_records_sent_total''
        ''Flow records delivered to the processor.'' [],
      cm_RecordsDropped = Counter ''sniffer_collector_records_dropped_total''
        ''Flow records dropped because the send queue was full.'' [],
      cm_ReportErrors = Counter ''sniffer_collector_report_errors_total''
        ''Failed Report calls to the processor (each is retried).'' [],
      cm_QueueDepth = Gauge ''sniffer_collector_queue_batches''
        ''Batches waiting to be sent to the processor.'' [],
      cm_DNSAnswers = Counter ''sniffer_collector_dns_answers_total''
        ''DNS records and address answers read from the eBPF ring buffer, by result.'' [''result''],
      cm_DNSCacheEntries = Gauge ''sniffer_collector_dns_cache_entries''
        ''IP -> hostname entries held in the DNS cache.'' []\<rparr>"

definition collector_registered :: "collector_metrics \<Rightarrow> metric list" where
  \<comment> \<open>the arguments of \<open>MustRegister\<close>\<close>
  "collector_registered m =
     [cm_Events m, cm_RecordsSent m, cm_RecordsDropped m, cm_ReportErrors m, cm_QueueDepth m, cm_DNSAnswers m,
      cm_DNSCacheEntries m]"

definition collector_NewMetrics :: "('r \<Rightarrow> metric \<Rightarrow> 'r option) \<Rightarrow> 'r \<Rightarrow> (collector_metrics \<times> 'r) option" where
  "collector_NewMetrics register reg =
     (let m = collector_instruments
      in case MustRegister register (collector_registered m) reg of None \<Rightarrow> None | Some reg \<Rightarrow> Some (m, reg))"

definition processor_instruments :: processor_metrics where
  "processor_instruments =
     \<lparr>pm_Records = Counter ''sniffer_processor_records_total''
        ''Flow records received from collectors, by pipeline result.'' [''result''],
      pm_Batches = Counter ''sniffer_processor_batches_total'' ''Report batches received from collectors.'' [],
      pm_EmitErrors = Counter ''sniffer_processor_emit_errors_total''
        ''Edges an output sink failed to deliver, by sink and reason.'' [''sink'', ''reason'']\<rparr>"

definition processor_registered :: "processor_metrics \<Rightarrow> metric list" where
  "processor_registered m = [pm_Records m, pm_Batches m, pm_EmitErrors m]"

definition processor_NewMetrics :: "('r \<Rightarrow> metric \<Rightarrow> 'r option) \<Rightarrow> 'r \<Rightarrow> (processor_metrics \<times> 'r) option" where
  "processor_NewMetrics register reg =
     (let m = processor_instruments
      in case MustRegister register (processor_registered m) reg of None \<Rightarrow> None | Some reg \<Rightarrow> Some (m, reg))"

section \<open>What the registry accepts\<close>

definition name_char :: "char \<Rightarrow> bool" where
  \<comment> \<open>of \<open>[a-zA-Z0-9_]\<close>\<close>
  "name_char c \<longleftrightarrow> (let n = of_char c :: nat in 97 \<le> n \<and> n \<le> 122 \<or> 65 \<le> n \<and> n \<le> 90 \<or> 48 \<le> n \<and> n \<le> 57 \<or> n = 95)"

definition valid_name :: "string \<Rightarrow> bool" where
  "valid_name s \<longleftrightarrow> s \<noteq> [] \<and> list_all name_char s \<and> \<not> (48 \<le> (of_char (hd s) :: nat) \<and> of_char (hd s) \<le> (57 :: nat))"

definition valid_label :: "string \<Rightarrow> bool" where
  \<comment> \<open>names that start with two underscores are reserved\<close>
  "valid_label s \<longleftrightarrow> valid_name s \<and> take 2 s \<noteq> ''__''"

fun well_formed :: "metric \<Rightarrow> bool" where
  "well_formed (Counter n h ls) \<longleftrightarrow> valid_name n \<and> list_all valid_label ls \<and> distinct ls"
| "well_formed (Gauge n h ls) \<longleftrightarrow> valid_name n \<and> list_all valid_label ls \<and> distinct ls"
| "well_formed _ \<longleftrightarrow> True"

fun uses_name :: "metric \<Rightarrow> string \<Rightarrow> bool" where
  \<comment> \<open>the two runtime collectors keep to their prefixes\<close>
  "uses_name (Counter n h ls) s \<longleftrightarrow> n = s"
| "uses_name (Gauge n h ls) s \<longleftrightarrow> n = s"
| "uses_name GoRuntime s \<longleftrightarrow> take 3 s = ''go_''"
| "uses_name ProcessStats s \<longleftrightarrow> take 8 s = ''process_''"

fun clashes :: "metric \<Rightarrow> metric \<Rightarrow> bool" where
  "clashes (Counter n h ls) m \<longleftrightarrow> uses_name m n"
| "clashes (Gauge n h ls) m \<longleftrightarrow> uses_name m n"
| "clashes GoRuntime (Counter n h ls) \<longleftrightarrow> uses_name GoRuntime n"
| "clashes GoRuntime (Gauge n h ls) \<longleftrightarrow> uses_name GoRuntime n"
| "clashes ProcessStats (Counter n h ls) \<longleftrightarrow> uses_name ProcessStats n"
| "clashes ProcessStats (Gauge n h ls) \<longleftrightarrow> uses_name ProcessStats n"
| "clashes m m' \<longleftrightarrow> m = m'"

definition registry_contract :: "('r \<Rightarrow> metric \<Rightarrow> 'r option) \<Rightarrow> ('r \<Rightarrow> metric list) \<Rightarrow> bool" where
  "registry_contract register registered \<longleftrightarrow>
     (\<forall>reg m. well_formed m \<and> (\<forall>m' \<in> set (registered reg). \<not> clashes m m') \<longrightarrow>
        (\<exists>reg'. register reg m = Some reg' \<and> registered reg' = registered reg @ [m]))"

fun free_of_clashes :: "metric list \<Rightarrow> bool" where
  "free_of_clashes [] \<longleftrightarrow> True"
| "free_of_clashes (m # ms) \<longleftrightarrow> list_all (\<lambda>m'. \<not> clashes m' m) ms \<and> free_of_clashes ms"

section \<open>Facts\<close>

lemma MustRegister_ok:
  assumes "registry_contract register registered"
  shows "\<lbrakk>list_all well_formed ms; free_of_clashes (registered reg @ ms)\<rbrakk> \<Longrightarrow>
    \<exists>reg'. MustRegister register ms reg = Some reg' \<and> registered reg' = registered reg @ ms"
proof (induction ms arbitrary: reg)
  case Nil
  show ?case by simp
next
  case (Cons m ms)
  have apart: "\<forall>x \<in> set xs. \<not> clashes y x" if "free_of_clashes (xs @ y # ys)" for xs y ys
    using that by (induction xs) auto
  then obtain r where r: "register reg m = Some r" "registered r = registered reg @ [m]"
    using assms Cons.prems unfolding registry_contract_def by fastforce
  with Cons.IH [of r] Cons.prems show ?case by simp
qed

section \<open>Properties\<close>

text \<open>Setting up the metrics never panics: in both commands, from an empty registry, the
  runtime collectors and all the command's instruments are registered (their names and
  labels are well formed and no two clash), and every counter the program increments by
  labels is given as many values as it has labels.\<close>

lemma metrics_register:
  assumes "registry_contract register registered" and "registered reg0 = []"
  shows "(\<exists>reg reg'. NewRegistry register reg0 = Some reg
      \<and> collector_NewMetrics register reg = Some (collector_instruments, reg')
      \<and> registered reg' = [GoRuntime, ProcessStats] @ collector_registered collector_instruments)
    \<and> (\<exists>reg reg'. NewRegistry register reg0 = Some reg
      \<and> processor_NewMetrics register reg = Some (processor_instruments, reg')
      \<and> registered reg' = [GoRuntime, ProcessStats] @ processor_registered processor_instruments)
    \<and> labels_match (cm_Events collector_instruments) [result] \<and> labels_match (cm_DNSAnswers collector_instruments) [result]
    \<and> labels_match (pm_Records processor_instruments) [result]
    \<and> labels_match (pm_EmitErrors processor_instruments) [sink, reason]"
proof -
  have base: "list_all well_formed [GoRuntime, ProcessStats]" "free_of_clashes ([] @ [GoRuntime, ProcessStats])"
    by simp_all
  have col: "list_all well_formed (collector_registered collector_instruments)"
    "free_of_clashes ([GoRuntime, ProcessStats] @ collector_registered collector_instruments)"
    by code_simp+
  have pro: "list_all well_formed (processor_registered processor_instruments)"
    "free_of_clashes ([GoRuntime, ProcessStats] @ processor_registered processor_instruments)"
    by code_simp+
  from MustRegister_ok [OF assms(1) base(1), of reg0] base(2) assms(2) obtain reg where
    reg: "NewRegistry register reg0 = Some reg" "registered reg = [GoRuntime, ProcessStats]"
    by (auto simp: NewRegistry_def)
  from MustRegister_ok [OF assms(1) col(1), of reg] col(2) reg(2) obtain c where
    "MustRegister register (collector_registered collector_instruments) reg = Some c"
    "registered c = [GoRuntime, ProcessStats] @ collector_registered collector_instruments" by auto
  moreover from MustRegister_ok [OF assms(1) pro(1), of reg] pro(2) reg(2) obtain d where
    "MustRegister register (processor_registered processor_instruments) reg = Some d"
    "registered d = [GoRuntime, ProcessStats] @ processor_registered processor_instruments" by auto
  ultimately show ?thesis using reg(1)
    by (simp add: collector_NewMetrics_def processor_NewMetrics_def Let_def labels_match_def)
      (simp add: collector_instruments_def processor_instruments_def)
qed

end
