(* ===== verification/Error_Log.thy ===== *)
theory Error_Log
  imports Emit "HOL-Library.Multiset"
begin

text \<open>
  The callback \<open>buildSinks\<close> of \<open>cmd/sniffer/processor_linux.go\<close> gives the Kafka sink. The Kafka
  client runs it from its own goroutines, for any number of failed records at once: it
  counts the failure, reads the clock, and writes a log line when it is the one that moves
  the atomic \<open>lastLog\<close> on. A callback moves one shared access at a time. Instants are
  whole seconds here (\<open>time.Now().Unix()\<close>).
\<close>

section \<open>Callbacks\<close>

datatype phase =
    CountIt
  | AskTime
  | LoadLast int  \<comment> \<open>with \<open>now\<close>\<close>
  | Compare int int  \<comment> \<open>with \<open>now\<close> and \<open>prev\<close>\<close>
  | WriteLine int
  | Over

record error_log =
  el_callbacks :: "(string \<times> phase) list"  \<comment> \<open>each with its reason\<close>
  el_counts :: "string \<Rightarrow> nat"  \<comment> \<open>\<open>EmitErrors\<close> of sink kafka\<close>
  el_lastLog :: int
  el_lines :: "(int \<times> string) list"
  g_claimed :: "int list"  \<comment> \<open>ghost: the values \<open>lastLog\<close> was moved to, in order\<close>

definition no_errors :: error_log where
  "no_errors = \<lparr>el_callbacks = [], el_counts = (\<lambda>_. 0), el_lastLog = 0, el_lines = [], g_claimed = []\<rparr>"

definition goes_to :: "nat \<Rightarrow> phase \<Rightarrow> error_log \<Rightarrow> error_log" where
  "goes_to i ph s = s\<lparr>el_callbacks := (el_callbacks s)[i := (fst (el_callbacks s ! i), ph)]\<rparr>"

fun callback_step :: "int \<Rightarrow> nat \<Rightarrow> string \<Rightarrow> phase \<Rightarrow> error_log \<Rightarrow> error_log" where
  \<comment> \<open>the next access of callback \<open>i\<close>; \<open>clock\<close> is what the clock shows\<close>
  "callback_step clock i r CountIt s = goes_to i AskTime (s\<lparr>el_counts := (el_counts s)(r := el_counts s r + 1)\<rparr>)"
| "callback_step clock i r AskTime s = goes_to i (LoadLast clock) s"
| "callback_step clock i r (LoadLast now) s =
     (let prev = el_lastLog s in goes_to i (if now > prev then Compare now prev else Over) s)"
| "callback_step clock i r (Compare now prev) s =
     (if el_lastLog s = prev
      then goes_to i (WriteLine now) (s\<lparr>el_lastLog := now, g_claimed := g_claimed s @ [now]\<rparr>)
      else goes_to i Over s)"
| "callback_step clock i r (WriteLine now) s = goes_to i Over (s\<lparr>el_lines := el_lines s @ [(now, r)]\<rparr>)"
| "callback_step clock i r Over s = s"

inductive log_step :: "error_log \<Rightarrow> error_log \<Rightarrow> bool" where
  failed: "log_step s (s\<lparr>el_callbacks := el_callbacks s @ [(r, CountIt)]\<rparr>)"
| goes_on: "\<lbrakk>i < length (el_callbacks s); el_callbacks s ! i = (r, ph)\<rbrakk> \<Longrightarrow> log_step s (callback_step clock i r ph s)"

section \<open>Invariant\<close>

fun writing :: "string \<times> phase \<Rightarrow> int list" where
  "writing (r, WriteLine now) = [now]"
| "writing cb = []"

fun counted :: "string \<Rightarrow> string \<times> phase \<Rightarrow> nat" where
  "counted r (q, CountIt) = 0"
| "counted r (q, ph) = (if q = r then 1 else 0)"

fun compares_later :: "string \<times> phase \<Rightarrow> bool" where
  "compares_later (r, Compare now prev) \<longleftrightarrow> prev < now"
| "compares_later cb \<longleftrightarrow> True"

definition log_inv :: "error_log \<Rightarrow> bool" where
  "log_inv s \<longleftrightarrow>
     (\<forall>cb \<in> set (el_callbacks s). compares_later cb)
     \<and> (\<forall>r. el_counts s r = sum_list (map (counted r) (el_callbacks s)))
     \<and> el_lastLog s = last (0 # g_claimed s) \<and> sorted_wrt (<) (0 # g_claimed s)
     \<and> mset (map fst (el_lines s)) + sum_list (map (\<lambda>cb. mset (writing cb)) (el_callbacks s)) = mset (g_claimed s)"

lemma sorted_wrt_last: "sorted_wrt (<) (x # xs) \<Longrightarrow> y \<in> set (x # xs) \<Longrightarrow> y \<le> last ((x :: int) # xs)"
  by (induction xs rule: rev_induct) (auto simp: sorted_wrt_append)

lemma goes_to_inv:
  assumes "log_inv s" and "i < length (el_callbacks s)" and "el_callbacks s ! i = (r, ph)"
    and "compares_later (r, ph')" and "counts = (\<lambda>q. el_counts s q + counted q (r, ph') - counted q (r, ph))"
    and "\<And>q. counted q (r, ph) \<le> counted q (r, ph')"
    and "last' = last (0 # claimed)" "sorted_wrt (<) (0 # claimed)"
    and "mset (map fst lines) + mset (g_claimed s) + mset (writing (r, ph'))
       = mset (map fst (el_lines s)) + mset claimed + mset (writing (r, ph))"
  shows "log_inv (goes_to i ph' (s\<lparr>el_counts := counts, el_lastLog := last', el_lines := lines, g_claimed := claimed\<rparr>))"
proof -
  let ?cbs = "(el_callbacks s)[i := (r, ph')]"
  have "\<forall>cb \<in> set ?cbs. compares_later cb"
    using assms(1,4) set_update_subset_insert [of "el_callbacks s" i "(r, ph')"] by (auto simp: log_inv_def)
  moreover have "counts q = sum_list (map (counted q) ?cbs)" for q
    using assms(1,3,5) assms(6) [of q] sum_list_update_one [OF assms(2), of "counted q" "(r, ph')"] by (simp add: log_inv_def)
  moreover have "mset (map fst lines) + sum_list (map (\<lambda>cb. mset (writing cb)) ?cbs) = mset claimed"
  proof -
    let ?w = "\<lambda>cbs. sum_list (map (\<lambda>cb. mset (writing cb)) cbs)"
    have sum: "?w ?cbs + mset (writing (r, ph)) = ?w (el_callbacks s) + mset (writing (r, ph'))"
      using sum_list_update_one [OF assms(2), of "\<lambda>cb. mset (writing cb)" "(r, ph')"] assms(3) by simp
    have old: "mset (map fst (el_lines s)) + ?w (el_callbacks s) = mset (g_claimed s)" using assms(1) by (simp add: log_inv_def)
    let ?rest = "mset (g_claimed s) + mset (writing (r, ph'))"
    have "mset (map fst lines) + ?w ?cbs + ?rest = mset (map fst lines) + mset (g_claimed s) + mset (writing (r, ph')) + ?w ?cbs"
      by (simp only: ac_simps)
    also have "\<dots> = mset (map fst (el_lines s)) + mset claimed + (?w ?cbs + mset (writing (r, ph)))"
      unfolding assms(9) by (simp only: ac_simps)
    also have "\<dots> = mset claimed + (mset (map fst (el_lines s)) + ?w (el_callbacks s) + mset (writing (r, ph')))"
      unfolding sum by (simp only: ac_simps)
    also have "\<dots> = mset claimed + ?rest" unfolding old ..
    finally show ?thesis by simp
  qed
  ultimately show ?thesis using assms(3,7,8) by (simp add: log_inv_def goes_to_def)
qed

lemma callback_step_inv:
  assumes inv: "log_inv s" and i: "i < length (el_callbacks s)" "el_callbacks s ! i = (r, ph)"
  shows "log_inv (callback_step clock i r ph s)"
proof -
  note step = goes_to_inv [OF inv i]
  have keep: "el_lastLog s = last (0 # g_claimed s)" "sorted_wrt (<) (0 # g_claimed s)" using inv by (simp_all add: log_inv_def)
  have over: "log_inv (goes_to i Over s)" if "ph = LoadLast now \<or> ph = Compare now prev" for now prev
    using step [of Over "el_counts s" "el_lastLog s" "g_claimed s" "el_lines s", OF _ _ _ keep] that by (auto simp: fun_eq_iff)
  show ?thesis
  proof (cases ph)
    case CountIt
    then show ?thesis
      using step [of AskTime "(el_counts s)(r := el_counts s r + 1)" "el_lastLog s" "g_claimed s" "el_lines s", OF _ _ _ keep]
      by (simp add: fun_eq_iff)
  next
    case AskTime
    then show ?thesis
      using step [of "LoadLast clock" "el_counts s" "el_lastLog s" "g_claimed s" "el_lines s", OF _ _ _ keep] by (simp add: fun_eq_iff)
  next
    case (LoadLast now)
    then show ?thesis
      using step [of "Compare now (el_lastLog s)" "el_counts s" "el_lastLog s" "g_claimed s" "el_lines s", OF _ _ _ keep] over
      by (simp add: fun_eq_iff Let_def)
  next
    case (Compare now prev)
    have "prev < now" using inv i Compare by (auto simp: log_inv_def dest!: bspec [OF _ nth_mem [OF i(1)]])
    then have "el_lastLog s = prev \<Longrightarrow> sorted_wrt (<) (0 # g_claimed s @ [now])"
      using keep sorted_wrt_last [OF keep(2)] by (force simp: sorted_wrt_append)
    with Compare show ?thesis
      using step [of "WriteLine now" "el_counts s" now "g_claimed s @ [now]" "el_lines s"] over by (simp add: fun_eq_iff)
  next
    case (WriteLine now)
    then show ?thesis
      using step [of Over "el_counts s" "el_lastLog s" "g_claimed s" "el_lines s @ [(now, r)]", OF _ _ _ keep] by (simp add: fun_eq_iff)
  next
    case Over
    with inv show ?thesis by simp
  qed
qed

lemma distinct_sub: "\<lbrakk>mset xs \<subseteq># mset ys; distinct ys\<rbrakk> \<Longrightarrow> distinct xs"
proof -
  assume sub: "mset xs \<subseteq># mset ys" and ys: "distinct ys"
  have "count (mset xs) a = (if a \<in> set xs then 1 else 0)" for a
  proof (cases "a \<in> set xs")
    case True
    then have pos: "0 < count (mset xs) a" by simp
    have "count (mset ys) a \<le> 1"
      using ys by (cases "a \<in> set ys") (simp_all add: distinct_count_atmost_1 count_mset_0_iff [THEN iffD2])
    then have "count (mset xs) a \<le> 1" using mset_subset_eq_count [OF sub, of a] by simp
    with pos have "count (mset xs) a = 1" by linarith
    with True show ?thesis by simp
  qed simp
  then show ?thesis by (simp add: distinct_count_atmost_1)
qed

lemma log_reaches: "log_step\<^sup>*\<^sup>* no_errors s \<Longrightarrow> log_inv s"
proof (induction rule: rtranclp_induct)
  case base
  show ?case by (simp add: log_inv_def no_errors_def)
next
  case (step s t)
  from step.hyps(2) show ?case
  proof (cases rule: log_step.cases)
    case (failed r)
    with step.IH show ?thesis by (auto simp: log_inv_def)
  next
    case (goes_on i r ph clock)
    with callback_step_inv [OF step.IH] show ?thesis by simp
  qed
qed

section \<open>Properties\<close>

text \<open>C40. Kafka failures are counted one by one and logged at most once a second: however the
  callbacks interleave, each failure that was reported is counted under its reason once its
  callback got that far, and of all the callbacks at most one writes a line for any second.\<close>

theorem logged_once_a_second:
  assumes "log_step\<^sup>*\<^sup>* no_errors s"
  shows "(\<forall>r. el_counts s r = length (filter (\<lambda>(q, ph). q = r \<and> ph \<noteq> CountIt) (el_callbacks s)))
    \<and> distinct (map fst (el_lines s)) \<and> (\<forall>t \<in> set (map fst (el_lines s)). 0 < t \<and> t \<le> el_lastLog s)"
proof -
  have inv: "log_inv s" by (rule log_reaches [OF assms])
  have counts: "sum_list (map (counted r) cbs) = length (filter (\<lambda>(q, ph). q = r \<and> ph \<noteq> CountIt) cbs)" for r cbs
  proof (induction cbs)
    case (Cons cb cbs)
    then show ?case by (cases "(r, cb)" rule: counted.cases) auto
  qed simp
  have "distinct (g_claimed s)"
    using inv by (auto simp: log_inv_def strict_sorted_iff)
  moreover have sub: "mset (map fst (el_lines s)) \<subseteq># mset (g_claimed s)"
    using inv unfolding log_inv_def by (metis mset_subset_eq_add_left)
  ultimately have "distinct (map fst (el_lines s))"
    by (blast intro: distinct_sub)
  moreover have "0 < t \<and> t \<le> el_lastLog s" if "t \<in> set (map fst (el_lines s))" for t
  proof -
    have "t \<in> set (g_claimed s)" using sub that by (metis mset_subset_eqD set_mset_mset)
    with inv sorted_wrt_last [of 0 "g_claimed s" t] show ?thesis by (simp add: log_inv_def)
  qed
  ultimately show ?thesis using inv counts by (simp add: log_inv_def)
qed

theorem logged_once_a_second_witness:
  "\<exists>s. log_step\<^sup>*\<^sup>* no_errors s \<and> el_callbacks s = [(ReasonProduce, CountIt)] \<and> el_counts s ReasonProduce = 0"
proof -
  have run: "log_step\<^sup>*\<^sup>* no_errors (no_errors\<lparr>el_callbacks := [(ReasonProduce, CountIt)]\<rparr>)"
    using failed [of no_errors ReasonProduce] by (auto simp: no_errors_def)
  from logged_once_a_second [OF run] run show ?thesis by (intro exI) auto
qed

end
