(* ===== verification/Go_Numbers.thy ===== *)
theory Go_Numbers
  imports Sniffer_Prelude
begin

text \<open>
  How package \<open>flag\<close> reads the values of the flags the commands define: \<open>strconv.ParseInt\<close>
  with base 0 for an \<open>Int\<close>, \<open>strconv.ParseBool\<close> for a \<open>Bool\<close> and \<open>time.ParseDuration\<close>
  for a \<open>Duration\<close>. \<open>None\<close> is an error; \<open>flag\<close> treats all errors alike. The lemmas show
  that each reads back what is written in the plain way.
\<close>

section \<open>Package strconv\<close>

definition is_digit :: "char \<Rightarrow> bool" where
  "is_digit c \<longleftrightarrow> 48 \<le> (of_char c :: nat) \<and> of_char c \<le> (57 :: nat)"

definition digit_of :: "char \<Rightarrow> nat" where
  "digit_of c = of_char c - 48"

definition digit_value :: "char \<Rightarrow> nat option" where
  \<comment> \<open>letters count from 10, whatever their case\<close>
  "digit_value c =
     (if is_digit c then Some (digit_of c)
      else let n = of_char (lower_char c) :: nat in if 97 \<le> n \<and> n \<le> 122 then Some (n - 87) else None)"

fun uint_loop :: "nat \<Rightarrow> string \<Rightarrow> nat \<Rightarrow> nat option" where
  "uint_loop b [] n = Some n"
| "uint_loop b (c # s) n =
     (if c = CHR ''_'' then uint_loop b s n
      else case digit_value c of
          None \<Rightarrow> None
        | Some d \<Rightarrow> if b \<le> d \<or> 2 ^ 64 \<le> n * b + d then None else uint_loop b s (n * b + d))"

definition base_prefix :: "string \<Rightarrow> nat \<times> string" where
  \<comment> \<open>the base a literal announces, and its digits\<close>
  "base_prefix s =
     (if s = [] \<or> hd s \<noteq> CHR ''0'' then (10, s)
      else if 3 \<le> length s \<and> lower_char (s ! 1) = CHR ''b'' then (2, drop 2 s)
      else if 3 \<le> length s \<and> lower_char (s ! 1) = CHR ''o'' then (8, drop 2 s)
      else if 3 \<le> length s \<and> lower_char (s ! 1) = CHR ''x'' then (16, drop 2 s)
      else (8, tl s))"

datatype seen = SeenStart | SeenDigit | SeenUnderscore | SeenOther

fun underscore_loop :: "bool \<Rightarrow> seen \<Rightarrow> string \<Rightarrow> bool" where
  "underscore_loop hex i [] \<longleftrightarrow> i \<noteq> SeenUnderscore"
| "underscore_loop hex i (c # s) \<longleftrightarrow>
     (if is_digit c \<or> hex \<and> lower_char c \<in> set ''abcdef'' then underscore_loop hex SeenDigit s
      else if c = CHR ''_'' then i = SeenDigit \<and> underscore_loop hex SeenUnderscore s
      else i \<noteq> SeenUnderscore \<and> underscore_loop hex SeenOther s)"

definition underscoreOK :: "string \<Rightarrow> bool" where
  \<comment> \<open>underscores stand between digits or after the base prefix only; \<open>s\<close> has no sign here\<close>
  "underscoreOK s \<longleftrightarrow>
     (if 2 \<le> length s \<and> hd s = CHR ''0'' \<and> lower_char (s ! 1) \<in> set ''box''
      then underscore_loop (lower_char (s ! 1) = CHR ''x'') SeenDigit (drop 2 s)
      else underscore_loop False SeenStart s)"

definition ParseUint :: "string \<Rightarrow> nat option" where
  "ParseUint s =
     (if s = [] then None
      else case base_prefix s of (b, ds) \<Rightarrow>
        case uint_loop b ds 0 of
          None \<Rightarrow> None
        | Some n \<Rightarrow> if CHR ''_'' \<in> set ds \<and> \<not> underscoreOK s then None else Some n)"

definition take_sign :: "string \<Rightarrow> bool \<times> string" where
  \<comment> \<open>whether it is negative, and the rest\<close>
  "take_sign s =
     (case s of [] \<Rightarrow> (False, []) | c # t \<Rightarrow> if c = CHR ''+'' \<or> c = CHR ''-'' then (c = CHR ''-'', t) else (False, s))"

definition ParseInt :: "string \<Rightarrow> int option" where
  "ParseInt s =
     (case take_sign s of (neg, t) \<Rightarrow>
        case ParseUint t of
          None \<Rightarrow> None
        | Some n \<Rightarrow>
            if \<not> neg \<and> 2 ^ 63 \<le> n then None
            else if neg \<and> 2 ^ 63 < n then None
            else Some (if neg then - int n else int n))"

definition ParseBool :: "string \<Rightarrow> bool option" where
  "ParseBool s =
     (if s \<in> {''1'', ''t'', ''T'', ''TRUE'', ''true'', ''True''} then Some True
      else if s \<in> {''0'', ''f'', ''F'', ''FALSE'', ''false'', ''False''} then Some False
      else None)"

section \<open>Durations\<close>

fun leading_int :: "string \<Rightarrow> nat \<Rightarrow> (nat \<times> string) option" where
  "leading_int [] x = Some (x, [])"
| "leading_int (c # s) x =
     (if \<not> is_digit c then Some (x, c # s)
      else if 2 ^ 63 div 10 < x then None
      else let y = x * 10 + digit_of c in if 2 ^ 63 < y then None else leading_int s y)"

fun leading_fraction :: "string \<Rightarrow> nat \<Rightarrow> nat \<Rightarrow> bool \<Rightarrow> nat \<times> nat \<times> string" where
  \<comment> \<open>the digits kept, their number, the rest; further digits are skipped after an overflow\<close>
  "leading_fraction [] x k over = (x, k, [])"
| "leading_fraction (c # s) x k over =
     (if \<not> is_digit c then (x, k, c # s)
      else if over then leading_fraction s x k True
      else if (2 ^ 63 - 1) div 10 < x then leading_fraction s x k True
      else let y = x * 10 + digit_of c in
        if 2 ^ 63 < y then leading_fraction s x k True else leading_fraction s y (Suc k) False)"

text \<open>
  A fraction is computed in \<open>float64\<close>: \<open>round53 a b\<close> is the fraction \<open>a / b\<close> rounded to 53
  significant bits, ties to even, again as numerator and denominator. The values met here
  (fractions below \<open>2 ^ 63\<close>, units up to an hour, scales up to \<open>10 ^ 19\<close>) stay far from
  the exponents where \<open>float64\<close> ends.
\<close>

definition round_even :: "nat \<Rightarrow> nat \<Rightarrow> nat" where
  "round_even a b =
     (let q = a div b; r = a mod b in if 2 * r < b \<or> (2 * r = b \<and> even q) then q else Suc q)"

function round53 :: "nat \<Rightarrow> nat \<Rightarrow> nat \<times> nat" where
  "round53 a b =
     (if a = 0 \<or> b = 0 then (0, 1)
      else if a < 2 ^ 52 * b then (case round53 (2 * a) b of (n, d) \<Rightarrow> (n, 2 * d))
      else if 2 ^ 53 * b \<le> a then (case round53 a (2 * b) of (n, d) \<Rightarrow> (2 * n, d))
      else (round_even a b, 1))"
  by pat_completeness auto
termination
  by (relation "measure (\<lambda>(a, b). if a < 2 ^ 52 * b then 2 ^ 52 * b - a else Suc a - 2 ^ 53 * b)") auto

declare round53.simps [simp del]

definition fraction_ns :: "nat \<Rightarrow> nat \<Rightarrow> nat \<Rightarrow> nat" where
  \<comment> \<open>\<open>uint64(float64(f) * (float64(unit) / scale))\<close> with \<open>scale\<close> the \<open>k\<close>-th power of ten\<close>
  "fraction_ns f unit k =
     (case (round53 f 1, round53 unit (10 ^ k)) of
        ((fn, fd), (un, ud)) \<Rightarrow> case round53 (fn * un) (fd * ud) of (pn, pd) \<Rightarrow> pn div pd)"

definition unit_map :: "string \<Rightarrow> nat option" where
  \<comment> \<open>the two spellings of the micro sign are UTF-8 sequences\<close>
  "unit_map = map_of
     [(''ns'', 1), (''us'', 1000), ([char_of (194 :: nat), char_of (181 :: nat), CHR ''s''], 1000),
      ([char_of (206 :: nat), char_of (188 :: nat), CHR ''s''], 1000),
      (''ms'', 10 ^ 6), (''s'', 10 ^ 9), (''m'', 60 * 10 ^ 9), (''h'', 3600 * 10 ^ 9)]"

definition duration_part :: "string \<Rightarrow> (nat \<times> string) option" where
  \<comment> \<open>one number with its unit, in nanoseconds, and the rest\<close>
  "duration_part s =
     (if s = [] \<or> \<not> (hd s = CHR ''.'' \<or> is_digit (hd s)) then None
      else case leading_int s 0 of
          None \<Rightarrow> None
        | Some (v, s1) \<Rightarrow>
            let dot = (s1 \<noteq> [] \<and> hd s1 = CHR ''.'');
                pre = (s1 \<noteq> s);
                (f, k, s2) = (if dot then leading_fraction (tl s1) 0 0 False else (0, 0, s1));
                post = (dot \<and> s2 \<noteq> tl s1)
            in if \<not> pre \<and> \<not> post then None
               else
                 let u = takeWhile (\<lambda>c. c \<noteq> CHR ''.'' \<and> \<not> is_digit c) s2 in
                 if u = [] then None
                 else case unit_map u of
                     None \<Rightarrow> None
                   | Some unit \<Rightarrow>
                       if 2 ^ 63 div unit < v then None
                       else
                         let w = v * unit + (if 0 < f then fraction_ns f unit k else 0) in
                         if 0 < f \<and> 2 ^ 63 < w then None else Some (w, drop (length u) s2))"

lemma leading_int_length: "leading_int s x = Some (v, t) \<Longrightarrow> length t \<le> length s"
  by (induction s x rule: leading_int.induct) (auto simp: Let_def split: if_splits)

lemma leading_fraction_length: "length (snd (snd (leading_fraction s x k b))) \<le> length s"
  by (induction s x k b rule: leading_fraction.induct) (auto simp: Let_def intro: le_SucI)

lemma duration_part_length: "duration_part s = Some (v, t) \<Longrightarrow> length t < length s"
proof -
  assume p: "duration_part s = Some (v, t)"
  then obtain w s1 where i: "leading_int s 0 = Some (w, s1)" "s \<noteq> []"
    by (auto simp: duration_part_def split: if_splits option.splits)
  define s2 where "s2 = (if s1 \<noteq> [] \<and> hd s1 = CHR ''.'' then snd (snd (leading_fraction (tl s1) 0 0 False)) else s1)"
  let ?u = "takeWhile (\<lambda>c. c \<noteq> CHR ''.'' \<and> \<not> is_digit c) s2"
  have "length s2 \<le> length s"
    using leading_fraction_length [of "tl s1" 0 0 False] leading_int_length [OF i(1)] by (auto simp: s2_def)
  moreover have "?u \<noteq> [] \<and> t = drop (length ?u) s2"
    using p i unfolding s2_def by (auto simp: duration_part_def Let_def split: if_splits option.splits prod.splits)
  moreover from this have "length s2 - length ?u < length s2" by (intro diff_less) auto
  ultimately show ?thesis by simp
qed

function duration_loop :: "nat \<Rightarrow> string \<Rightarrow> nat option" where
  \<comment> \<open>the sum is a \<open>uint64\<close> and wraps\<close>
  "duration_loop d s =
     (if s = [] then Some d
      else case duration_part s of
          None \<Rightarrow> None
        | Some (v, t) \<Rightarrow> let e = (d + v) mod 2 ^ 64 in if 2 ^ 63 < e then None else duration_loop e t)"
  by pat_completeness auto
termination
  by (relation "measure (\<lambda>(d, s). length s)") (auto simp: duration_part_length)

declare duration_loop.simps [simp del]

definition ParseDuration :: "string \<Rightarrow> duration option" where
  "ParseDuration s =
     (case take_sign s of (neg, t) \<Rightarrow>
        if t = ''0'' then Some 0
        else if t = [] then None
        else case duration_loop 0 t of
            None \<Rightarrow> None
          | Some d \<Rightarrow> if neg then Some (- int d) else if 2 ^ 63 - 1 < d then None else Some (int d))"

section \<open>Reading back\<close>

definition show_int :: "int \<Rightarrow> string" where
  "show_int i = (if i < 0 then CHR ''-'' # show_dec (nat (- i)) else show_dec (nat i))"

lemma is_digit_digit_char: "d < 10 \<Longrightarrow> is_digit (digit_char d)"
  by (simp add: is_digit_def digit_char_dec)

lemma digit_of_digit_char: "d < 10 \<Longrightarrow> digit_of (digit_char d) = d"
  by (simp add: digit_of_def digit_char_dec)

lemma is_digit_show_dec: "c \<in> set (show_dec n) \<Longrightarrow> is_digit c"
  using show_dec_digits by (simp add: is_digit_def)

lemma not_digit [simp]: "\<not> is_digit CHR ''_''" "\<not> is_digit CHR ''-''" "\<not> is_digit CHR ''+''" "\<not> is_digit CHR ''n''"
    "\<not> is_digit CHR ''s''" "\<not> is_digit CHR ''.''"
  by (simp_all add: is_digit_def)

lemma uint_loop_append:
  "uint_loop b (s @ t) n = (case uint_loop b s n of None \<Rightarrow> None | Some m \<Rightarrow> uint_loop b t m)"
  by (induction b s n rule: uint_loop.induct) (auto split: option.split)

lemma uint_loop_digit:
  "\<lbrakk>d < 10; n * 10 + d < 2 ^ 64\<rbrakk> \<Longrightarrow> uint_loop 10 [digit_char d] n = Some (n * 10 + d)"
  using is_digit_digit_char [of d] by (auto simp: digit_value_def digit_of_digit_char)

lemma uint_loop_show: "n < 2 ^ 64 \<Longrightarrow> uint_loop 10 (show_dec n) 0 = Some n"
proof (induction n rule: less_induct)
  case (less n)
  show ?case
  proof (cases "n < 10")
    case True
    then show ?thesis using uint_loop_digit [of n 0] by (simp add: show_base_small)
  next
    case False
    then have "uint_loop 10 (show_dec (n div 10)) 0 = Some (n div 10)" using less by simp
    moreover have "uint_loop 10 [digit_char (n mod 10)] (n div 10) = Some n"
      using uint_loop_digit [of "n mod 10" "n div 10"] less.prems by simp
    ultimately show ?thesis using False by (simp add: show_base_step uint_loop_append del: uint_loop.simps)
  qed
qed

lemma hd_show_dec: "0 < n \<Longrightarrow> hd (show_dec n) \<noteq> CHR ''0''"
proof (induction n rule: less_induct)
  case (less n)
  show ?case
  proof (cases "n < 10")
    case True
    with less.prems digit_char_dec [of n] show ?thesis by (auto simp: show_base_small)
  next
    case False
    with less.IH [of "n div 10"] show ?thesis by (simp add: show_base_step)
  qed
qed

lemma ParseUint_show: "n < 2 ^ 64 \<Longrightarrow> ParseUint (show_dec n) = Some n"
proof (cases "n = 0")
  case True
  moreover have "digit_char 0 = CHR ''0''" by code_simp
  ultimately show ?thesis by (simp add: ParseUint_def base_prefix_def show_base_small)
next
  case False
  assume "n < 2 ^ 64"
  with False show ?thesis
    using is_digit_show_dec [of "CHR ''_''" n]
    by (auto simp: ParseUint_def base_prefix_def hd_show_dec uint_loop_show)
qed

lemma take_sign_show: "take_sign (show_dec n @ t) = (False, show_dec n @ t)"
proof (cases "show_dec n")
  case (Cons c s)
  with is_digit_show_dec [of c n] show ?thesis by (auto simp: take_sign_def)
qed simp

lemma take_sign_show_int: "take_sign (show_int i @ t) = (i < 0, show_dec (nat \<bar>i\<bar>) @ t)"
  by (auto simp: show_int_def take_sign_show) (simp add: take_sign_def)

lemma ParseInt_show: "\<lbrakk>- (2 ^ 63) \<le> i; i < 2 ^ 63\<rbrakk> \<Longrightarrow> ParseInt (show_int i) = Some i"
  using take_sign_show_int [of i "[]"] ParseUint_show [of "nat \<bar>i\<bar>"] by (auto simp: ParseInt_def)

lemma leading_int_digit:
  "\<lbrakk>d < 10; x * 10 + d \<le> 2 ^ 63\<rbrakk> \<Longrightarrow> leading_int (digit_char d # t) x = leading_int t (x * 10 + d)"
  by (auto simp: is_digit_digit_char digit_of_digit_char Let_def)

lemma leading_int_show: "n \<le> 2 ^ 63 \<Longrightarrow> leading_int (show_dec n @ t) 0 = leading_int t n"
proof (induction n arbitrary: t rule: less_induct)
  case (less n)
  show ?case
  proof (cases "n < 10")
    case True
    then show ?thesis using leading_int_digit [of n 0 t] by (simp add: show_base_small)
  next
    case False
    then have "leading_int (show_dec (n div 10) @ digit_char (n mod 10) # t) 0
        = leading_int (digit_char (n mod 10) # t) (n div 10)"
      using less.IH [of "n div 10"] less.prems by simp
    also have "\<dots> = leading_int t n"
      using leading_int_digit [of "n mod 10" "n div 10" t] less.prems by simp
    finally show ?thesis using False by (simp add: show_base_step)
  qed
qed

lemma duration_part_ns:
  "n \<le> 2 ^ 63 \<Longrightarrow> duration_part (show_dec n @ ''ns'') = Some (n, [])"
  using is_digit_show_dec [of "hd (show_dec n)" n]
  by (simp add: duration_part_def leading_int_show unit_map_def)

lemma ParseDuration_show:
  assumes "- (2 ^ 63) \<le> d" and "d < 2 ^ 63"
  shows "ParseDuration (show_int d @ ''ns'') = Some d"
proof -
  let ?n = "nat \<bar>d\<bar>"
  have n: "?n \<le> 2 ^ 63" using assms by simp
  then have "duration_loop 0 (show_dec ?n @ ''ns'') = Some ?n"
    by (subst duration_loop.simps) (simp add: duration_part_ns duration_loop.simps)
  moreover have "show_dec ?n @ ''ns'' \<noteq> ''0''" by (cases "show_dec ?n") auto
  ultimately show ?thesis using assms by (auto simp: ParseDuration_def take_sign_show_int)
qed

end
