(* ===== verification/Command_Line.thy ===== *)
theory Command_Line
  imports Errgroup Go_Numbers
begin

text \<open>
  The arguments of the process, from \<open>os.Args\<close> to the settings a command runs with:
  \<open>main\<close> and the flag sets of \<open>runCollector\<close> and \<open>runProcessor\<close> (\<open>cmd/sniffer\<close>), with what
  they use of package \<open>flag\<close>. Both flag sets are \<open>ExitOnError\<close>: a bad flag ends the
  process with code 2, a request for help with code 0. Neither command looks at the
  arguments that are left when the flags end.
\<close>

section \<open>Package flag\<close>

record 's flag =
  fg_name :: string
  fg_bool :: bool  \<comment> \<open>\<open>IsBoolFlag\<close>: takes no argument of its own\<close>
  fg_Set :: "string \<Rightarrow> 's \<Rightarrow> 's option"  \<comment> \<open>\<open>None\<close> is an error\<close>

definition string_flag :: "string \<Rightarrow> (string \<Rightarrow> 's \<Rightarrow> 's) \<Rightarrow> 's flag" where
  "string_flag n upd = \<lparr>fg_name = n, fg_bool = False, fg_Set = \<lambda>v s. Some (upd v s)\<rparr>"

definition parsed_flag :: "string \<Rightarrow> bool \<Rightarrow> (string \<Rightarrow> 'v option) \<Rightarrow> ('v \<Rightarrow> 's \<Rightarrow> 's) \<Rightarrow> 's flag" where
  "parsed_flag n b P upd = \<lparr>fg_name = n, fg_bool = b, fg_Set = \<lambda>v s. map_option (\<lambda>x. upd x s) (P v)\<rparr>"

abbreviation int_flag :: "string \<Rightarrow> (int \<Rightarrow> 's \<Rightarrow> 's) \<Rightarrow> 's flag" where
  "int_flag n \<equiv> parsed_flag n False ParseInt"

abbreviation duration_flag :: "string \<Rightarrow> (duration \<Rightarrow> 's \<Rightarrow> 's) \<Rightarrow> 's flag" where
  "duration_flag n \<equiv> parsed_flag n False ParseDuration"

abbreviation bool_flag :: "string \<Rightarrow> (bool \<Rightarrow> 's \<Rightarrow> 's) \<Rightarrow> 's flag" where
  "bool_flag n \<equiv> parsed_flag n True ParseBool"

definition flag_named :: "'s flag list \<Rightarrow> string \<Rightarrow> 's flag option" where
  "flag_named F n = find (\<lambda>f. fg_name f = n) F"

datatype flag_stop = FlagHelp | FlagBad

definition ends_flags :: "string \<Rightarrow> bool" where
  \<comment> \<open>an argument that is no flag\<close>
  "ends_flags s \<longleftrightarrow> length s < 2 \<or> hd s \<noteq> CHR ''-''"

definition cut_value :: "string \<Rightarrow> string \<times> string option" where
  \<comment> \<open>a flag's name and the value after its first \<open>=\<close>, if any\<close>
  "cut_value s = (case str_cut CHR ''='' s of (n, v, found) \<Rightarrow> (n, if found then Some v else None))"

definition flag_body :: "string \<Rightarrow> string" where
  \<comment> \<open>without its one or two dashes\<close>
  "flag_body s = drop (if s ! 1 = CHR ''-'' then 2 else 1) s"

fun Parse :: "'s flag list \<Rightarrow> string list \<Rightarrow> 's \<Rightarrow> flag_stop + 's \<times> string list" where
  \<comment> \<open>\<open>FlagSet.Parse\<close>: the settings and the arguments left over\<close>
  "Parse F [] st = Inr (st, [])"
| "Parse F (s # args) st =
     (if ends_flags s then Inr (st, s # args)
      else if s = ''--'' then Inr (st, args)
      else
        let body = flag_body s in
        if body = [] \<or> hd body = CHR ''-'' \<or> hd body = CHR ''='' then Inl FlagBad
        else case cut_value body of (name, value) \<Rightarrow>
          case flag_named F name of
            None \<Rightarrow> Inl (if name = ''help'' \<or> name = ''h'' then FlagHelp else FlagBad)
          | Some f \<Rightarrow>
              if fg_bool f then
                (case fg_Set f (case value of Some v \<Rightarrow> v | None \<Rightarrow> ''true'') st of
                   None \<Rightarrow> Inl FlagBad
                 | Some st' \<Rightarrow> Parse F args st')
              else
                (case value of
                   Some v \<Rightarrow> (case fg_Set f v st of None \<Rightarrow> Inl FlagBad | Some st' \<Rightarrow> Parse F args st')
                 | None \<Rightarrow>
                     (case args of
                        [] \<Rightarrow> Inl FlagBad
                      | v # rest \<Rightarrow> (case fg_Set f v st of None \<Rightarrow> Inl FlagBad | Some st' \<Rightarrow> Parse F rest st'))))"

declare Parse.simps [simp del]

section \<open>The two commands\<close>

record collector_args = collector_flags +
  fl_ProcessorAddr :: string
  fl_NodeName :: string
  fl_MetricsAddr :: string
  fl_ReportTimeout :: duration
  fl_CgroupPath :: string

definition collector_flag_set :: "collector_args flag list" where
  "collector_flag_set =
     [string_flag ''processor-addr'' (\<lambda>v a. a\<lparr>fl_ProcessorAddr := v\<rparr>),
      string_flag ''node-name'' (\<lambda>v a. a\<lparr>fl_NodeName := v\<rparr>),
      string_flag ''metrics-addr'' (\<lambda>v a. a\<lparr>fl_MetricsAddr := v\<rparr>),
      duration_flag ''flush-interval'' (\<lambda>v a. a\<lparr>fl_FlushInterval := v\<rparr>),
      int_flag ''max-batch'' (\<lambda>v a. a\<lparr>fl_MaxBatch := v\<rparr>),
      int_flag ''queue-size'' (\<lambda>v a. a\<lparr>fl_QueueSize := v\<rparr>),
      duration_flag ''report-timeout'' (\<lambda>v a. a\<lparr>fl_ReportTimeout := v\<rparr>),
      bool_flag ''dns-names'' (\<lambda>v a. a\<lparr>fl_DnsNames := v\<rparr>),
      string_flag ''cgroup-path'' (\<lambda>v a. a\<lparr>fl_CgroupPath := v\<rparr>),
      int_flag ''dns-cache-size'' (\<lambda>v a. a\<lparr>fl_DnsCacheSize := v\<rparr>)]"

definition default_collector_args :: "string \<Rightarrow> collector_args" where
  \<comment> \<open>\<open>node\<close> is \<open>$NODE_NAME\<close>, empty when it is not set\<close>
  "default_collector_args node =
     collector_flags.extend default_collector_flags
       (collector_args.fields ''network-sniffer-processor:9000'' node '':9090'' (5 * second) ''/sys/fs/cgroup'')"

record processor_args =
  pa_Config :: string
  pa_ListenAddr :: string
  pa_MetricsAddr :: string
  pa_MaxConnectionAge :: duration

definition processor_flag_set :: "processor_args flag list" where
  "processor_flag_set =
     [string_flag ''config'' (\<lambda>v a. a\<lparr>pa_Config := v\<rparr>),
      string_flag ''listen-addr'' (\<lambda>v a. a\<lparr>pa_ListenAddr := v\<rparr>),
      string_flag ''metrics-addr'' (\<lambda>v a. a\<lparr>pa_MetricsAddr := v\<rparr>),
      duration_flag ''max-connection-age'' (\<lambda>v a. a\<lparr>pa_MaxConnectionAge := v\<rparr>)]"

definition default_processor_args :: processor_args where
  "default_processor_args =
     \<lparr>pa_Config = [], pa_ListenAddr = '':9000'', pa_MetricsAddr = '':9090'', pa_MaxConnectionAge = 300 * second\<rparr>"

datatype start = ExitWith nat | RunCollector collector_args | RunProcessor processor_args

definition parsed :: "('s \<Rightarrow> start) \<Rightarrow> flag_stop + 's \<times> string list \<Rightarrow> start" where
  \<comment> \<open>\<open>ExitOnError\<close>; what is left of the arguments is not looked at\<close>
  "parsed run r = (case r of Inl FlagHelp \<Rightarrow> ExitWith 0 | Inl FlagBad \<Rightarrow> ExitWith 2 | Inr (st, _) \<Rightarrow> run st)"

definition sniffer_start :: "string \<Rightarrow> string list \<Rightarrow> start" where
  \<comment> \<open>\<open>main\<close> as far as the parsed flags; the first argument is the program\<close>
  "sniffer_start node args =
     (if length args < 2 then ExitWith 2
      else if args ! 1 = ''collector''
        then parsed RunCollector (Parse collector_flag_set (drop 2 args) (default_collector_args node))
      else if args ! 1 = ''processor''
        then parsed RunProcessor (Parse processor_flag_set (drop 2 args) default_processor_args)
      else if args ! 1 \<in> {''-h'', ''-help'', ''--help'', ''help''} then ExitWith 0
      else ExitWith 2)"

definition sniffer_exit ::
  "string \<Rightarrow> (collector_args \<Rightarrow> run_error option) \<Rightarrow> (processor_args \<Rightarrow> run_error option) \<Rightarrow> string list \<Rightarrow> nat" where
  \<comment> \<open>the exit code, given what the two commands return\<close>
  "sniffer_exit node runC runP args =
     (case sniffer_start node args of
        ExitWith n \<Rightarrow> n | RunCollector a \<Rightarrow> exit_code (runC a) | RunProcessor a \<Rightarrow> exit_code (runP a))"

section \<open>How a setting is written\<close>

type_synonym spelling = "bool \<times> bool"  \<comment> \<open>two dashes; the value as an argument of its own\<close>

definition dashed :: "bool \<Rightarrow> string \<Rightarrow> string" where
  "dashed two n = (if two then ''--'' else ''-'') @ n"

definition spell :: "'s flag list \<Rightarrow> spelling \<Rightarrow> string \<times> string \<Rightarrow> string list" where
  \<comment> \<open>a boolean flag's value cannot stand apart\<close>
  "spell F sp w =
     (case (sp, w) of ((two, apart), (n, v)) \<Rightarrow>
        if apart \<and> (case flag_named F n of Some f \<Rightarrow> \<not> fg_bool f | None \<Rightarrow> True) then [dashed two n, v]
        else [dashed two (n @ CHR ''='' # v)])"

definition command_words :: "'s flag list \<Rightarrow> ('a \<Rightarrow> string \<times> string) \<Rightarrow> (spelling \<times> 'a) list \<Rightarrow> string list" where
  "command_words F written ws = concat (map (\<lambda>(sp, a). spell F sp (written a)) ws)"

definition apply_all :: "('a \<Rightarrow> 's \<Rightarrow> 's) \<Rightarrow> (spelling \<times> 'a) list \<Rightarrow> 's \<Rightarrow> 's" where
  "apply_all app ws st = fold (\<lambda>(sp, a). app a) ws st"

definition flag_name :: "string \<Rightarrow> bool" where
  "flag_name n \<longleftrightarrow> n \<noteq> [] \<and> hd n \<noteq> CHR ''-'' \<and> CHR ''='' \<notin> set n"

definition show_bool :: "bool \<Rightarrow> string" where
  "show_bool b = (if b then ''true'' else ''false'')"

lemma cut_value_joined: "CHR ''='' \<notin> set n \<Longrightarrow> cut_value (n @ CHR ''='' # v) = (n, Some v)"
  by (simp add: cut_value_def str_cut_hit)

lemma cut_value_bare: "CHR ''='' \<notin> set n \<Longrightarrow> cut_value n = (n, None)"
  by (simp add: cut_value_def str_cut_miss)

lemma dashed_body:
  assumes "n \<noteq> []" and "hd n \<noteq> CHR ''-''"
  shows "\<not> ends_flags (dashed two n)" "dashed two n \<noteq> ''--''"
    "flag_body (dashed two n) = n"
  using assms by (cases n; auto simp: dashed_def ends_flags_def flag_body_def)+

lemma Parse_spell:
  assumes n: "flag_name n" and f: "flag_named F n = Some f"
  shows "Parse F (spell F sp (n, v) @ rest) st =
    (case fg_Set f v st of None \<Rightarrow> Inl FlagBad | Some st' \<Rightarrow> Parse F rest st')"
proof -
  obtain two apart where sp: "sp = (two, apart)" by (cases sp)
  have a: "n \<noteq> []" "hd n \<noteq> CHR ''-''" "CHR ''='' \<notin> set n" "hd n \<noteq> CHR ''=''"
    using n by (cases n; auto simp: flag_name_def)+
  have j: "n @ CHR ''='' # v \<noteq> []" "hd (n @ CHR ''='' # v) = hd n" using a(1) by simp_all
  show ?thesis
  proof (cases "apart \<and> \<not> fg_bool f")
    case True
    then have "spell F sp (n, v) = [dashed two n, v]" by (simp add: spell_def sp f)
    with True a f show ?thesis
      by (simp add: Parse.simps dashed_body [OF a(1,2)] cut_value_bare Let_def)
  next
    case False
    then have "spell F sp (n, v) = [dashed two (n @ CHR ''='' # v)]" by (auto simp: spell_def sp f)
    with False a f j show ?thesis
      by (simp add: Parse.simps dashed_body cut_value_joined Let_def)
  qed
qed

lemma Parse_ends: "tail = [] \<or> ends_flags (hd tail) \<or> hd tail = ''--'' \<Longrightarrow>
  \<exists>left. Parse F tail st = Inr (st, left)"
  by (cases tail) (auto simp: Parse.simps)

text \<open>What a flag set and a type of settings have to do with each other: every setting has a
  flag of the set, and the flag reads the written value back.\<close>

locale flag_settings =
  fixes flags :: "'s flag list"
    and written :: "'a \<Rightarrow> string \<times> string"
    and apply_to :: "'a \<Rightarrow> 's \<Rightarrow> 's"
    and in_range :: "'a \<Rightarrow> bool"
  assumes known: "\<exists>f. flag_named flags (fst (written a)) = Some f
      \<and> (in_range a \<longrightarrow> fg_Set f (snd (written a)) st = Some (apply_to a st))"
    and named: "flag_name (fst (written a))"
begin

lemma Parse_setting:
  assumes "in_range a"
  shows "Parse flags (spell flags sp (written a) @ rest) st = Parse flags rest (apply_to a st)"
proof -
  obtain f where f: "flag_named flags (fst (written a)) = Some f"
      "fg_Set f (snd (written a)) st = Some (apply_to a st)"
    using known [of a st] assms by blast
  show ?thesis using Parse_spell [OF named f(1), of sp "snd (written a)" rest st] f(2) by simp
qed

lemma Parse_settings:
  "\<forall>(sp, a) \<in> set ws. in_range a \<Longrightarrow>
   Parse flags (command_words flags written ws @ rest) st = Parse flags rest (apply_all apply_to ws st)"
  by (induction ws arbitrary: st) (auto simp: Parse_setting command_words_def apply_all_def)

end

subsection \<open>The collector's settings\<close>

datatype collector_setting =
    ProcessorAddr string | NodeName string | MetricsAddr string | SetFlushInterval duration | SetMaxBatch int
  | QueueSize int | ReportTimeout duration | DnsNames bool | CgroupPath string | DnsCacheSize int

fun collector_written :: "collector_setting \<Rightarrow> string \<times> string" where
  "collector_written (ProcessorAddr v) = (''processor-addr'', v)"
| "collector_written (NodeName v) = (''node-name'', v)"
| "collector_written (MetricsAddr v) = (''metrics-addr'', v)"
| "collector_written (SetFlushInterval v) = (''flush-interval'', show_int v @ ''ns'')"
| "collector_written (SetMaxBatch v) = (''max-batch'', show_int v)"
| "collector_written (QueueSize v) = (''queue-size'', show_int v)"
| "collector_written (ReportTimeout v) = (''report-timeout'', show_int v @ ''ns'')"
| "collector_written (DnsNames v) = (''dns-names'', show_bool v)"
| "collector_written (CgroupPath v) = (''cgroup-path'', v)"
| "collector_written (DnsCacheSize v) = (''dns-cache-size'', show_int v)"

fun set_collector :: "collector_setting \<Rightarrow> collector_args \<Rightarrow> collector_args" where
  "set_collector (ProcessorAddr v) a = a\<lparr>fl_ProcessorAddr := v\<rparr>"
| "set_collector (NodeName v) a = a\<lparr>fl_NodeName := v\<rparr>"
| "set_collector (MetricsAddr v) a = a\<lparr>fl_MetricsAddr := v\<rparr>"
| "set_collector (SetFlushInterval v) a = a\<lparr>fl_FlushInterval := v\<rparr>"
| "set_collector (SetMaxBatch v) a = a\<lparr>fl_MaxBatch := v\<rparr>"
| "set_collector (QueueSize v) a = a\<lparr>fl_QueueSize := v\<rparr>"
| "set_collector (ReportTimeout v) a = a\<lparr>fl_ReportTimeout := v\<rparr>"
| "set_collector (DnsNames v) a = a\<lparr>fl_DnsNames := v\<rparr>"
| "set_collector (CgroupPath v) a = a\<lparr>fl_CgroupPath := v\<rparr>"
| "set_collector (DnsCacheSize v) a = a\<lparr>fl_DnsCacheSize := v\<rparr>"

definition int64 :: "int \<Rightarrow> bool" where
  "int64 i \<longleftrightarrow> - (2 ^ 63) \<le> i \<and> i < 2 ^ 63"

fun collector_in_range :: "collector_setting \<Rightarrow> bool" where
  "collector_in_range (SetFlushInterval v) = int64 v"
| "collector_in_range (SetMaxBatch v) = int64 v"
| "collector_in_range (QueueSize v) = int64 v"
| "collector_in_range (ReportTimeout v) = int64 v"
| "collector_in_range (DnsCacheSize v) = int64 v"
| "collector_in_range _ = True"

lemma ParseBool_show: "ParseBool (show_bool b) = Some b"
  by (simp add: ParseBool_def show_bool_def)

lemma int64_read: "int64 v \<Longrightarrow> ParseInt (show_int v) = Some v" "int64 v \<Longrightarrow> ParseDuration (show_int v @ ''ns'') = Some v"
  by (simp_all add: int64_def ParseInt_show ParseDuration_show)

lemmas flag_set_simps = flag_named_def string_flag_def parsed_flag_def flag_name_def ParseBool_show int64_read

interpretation cf: flag_settings collector_flag_set collector_written set_collector collector_in_range
proof
  fix a st
  show "\<exists>f. flag_named collector_flag_set (fst (collector_written a)) = Some f
      \<and> (collector_in_range a \<longrightarrow> fg_Set f (snd (collector_written a)) st = Some (set_collector a st))"
    by (cases a) (simp_all add: collector_flag_set_def flag_set_simps)
  show "flag_name (fst (collector_written a))"
    by (cases a) (simp_all add: flag_set_simps)
qed

subsection \<open>The processor's settings\<close>

datatype processor_setting = ConfigPath string | ListenAddr string | ServeAddr string | MaxConnectionAge duration

fun processor_written :: "processor_setting \<Rightarrow> string \<times> string" where
  "processor_written (ConfigPath v) = (''config'', v)"
| "processor_written (ListenAddr v) = (''listen-addr'', v)"
| "processor_written (ServeAddr v) = (''metrics-addr'', v)"
| "processor_written (MaxConnectionAge v) = (''max-connection-age'', show_int v @ ''ns'')"

fun set_processor :: "processor_setting \<Rightarrow> processor_args \<Rightarrow> processor_args" where
  "set_processor (ConfigPath v) a = a\<lparr>pa_Config := v\<rparr>"
| "set_processor (ListenAddr v) a = a\<lparr>pa_ListenAddr := v\<rparr>"
| "set_processor (ServeAddr v) a = a\<lparr>pa_MetricsAddr := v\<rparr>"
| "set_processor (MaxConnectionAge v) a = a\<lparr>pa_MaxConnectionAge := v\<rparr>"

fun processor_in_range :: "processor_setting \<Rightarrow> bool" where
  "processor_in_range (MaxConnectionAge v) = int64 v"
| "processor_in_range _ = True"

interpretation pf: flag_settings processor_flag_set processor_written set_processor processor_in_range
proof
  fix a st
  show "\<exists>f. flag_named processor_flag_set (fst (processor_written a)) = Some f
      \<and> (processor_in_range a \<longrightarrow> fg_Set f (snd (processor_written a)) st = Some (set_processor a st))"
    by (cases a) (simp_all add: processor_flag_set_def flag_set_simps)
  show "flag_name (fst (processor_written a))"
    by (cases a) (simp_all add: flag_set_simps)
qed

section \<open>Exit codes\<close>

lemma parsed_exit:
  "parsed run r = ExitWith n \<Longrightarrow> n \<in> {0, 2} \<or> (\<exists>st. run st = ExitWith n)"
  by (auto simp: parsed_def split: sum.splits flag_stop.splits prod.splits)

lemma sniffer_exit_codes: "sniffer_exit node runC runP args \<in> {0, 1, 2}"
proof (cases "sniffer_start node args")
  case (ExitWith n)
  then show ?thesis by (auto simp: sniffer_exit_def sniffer_start_def split: if_splits dest!: parsed_exit)
next
  case (RunCollector a)
  then show ?thesis by (cases "runC a" rule: exit_code.cases) (simp_all add: sniffer_exit_def)
next
  case (RunProcessor a)
  then show ?thesis by (cases "runP a" rule: exit_code.cases) (simp_all add: sniffer_exit_def)
qed

lemma sniffer_exit_main:
  "sniffer_start node (prog # ''collector'' # args) = RunCollector a \<Longrightarrow>
     sniffer_exit node runC runP (prog # ''collector'' # args) = main_exit (\<lambda>_. runC a) runQ (prog # ''collector'' # args)"
  "sniffer_start node (prog # ''processor'' # args) = RunProcessor b \<Longrightarrow>
     sniffer_exit node runC runP (prog # ''processor'' # args) = main_exit runQ (\<lambda>_. runP b) (prog # ''processor'' # args)"
  by (simp_all add: sniffer_exit_def main_exit_commands)

lemma sniffer_start_commands:
  "sniffer_start node (prog # ''collector'' # args) =
     parsed RunCollector (Parse collector_flag_set args (default_collector_args node))"
  "sniffer_start node (prog # ''processor'' # args) =
     parsed RunProcessor (Parse processor_flag_set args default_processor_args)"
  by (simp_all add: sniffer_start_def)

lemma bare_dns_names:
  "Parse collector_flag_set (''-dns-names'' # ''false'' # rest) st = Inr (st\<lparr>fl_DnsNames := True\<rparr>, ''false'' # rest)"
proof -
  have v: "ParseBool ''true'' = Some True" by (simp add: ParseBool_def)
  have c: "cut_value ''dns-names'' = (''dns-names'', None)" by (rule cut_value_bare) simp
  have f: "\<exists>f. flag_named collector_flag_set ''dns-names'' = Some f \<and> fg_bool f
      \<and> fg_Set f ''true'' st = Some (st\<lparr>fl_DnsNames := True\<rparr>)"
    by (simp add: collector_flag_set_def flag_named_def string_flag_def parsed_flag_def v)
  show ?thesis using f by (auto simp: Parse.simps c ends_flags_def flag_body_def)
qed

section \<open>Properties\<close>

text \<open>C39. What a command line means. Any sequence of settings, in any order, with
  repetitions, and each spelt with one dash or two and its value after \<open>=\<close> or as the next
  argument, is read back exactly: the command runs with its defaults changed by the
  settings one after the other. What follows the first argument that is not a flag is
  silently lost, and since a boolean flag takes no argument of its own,
  \<open>-dns-names false\<close> is such an end: it leaves DNS capture on and drops every setting
  after it.\<close>

theorem command_line:
  assumes "\<forall>(sp, a) \<in> set ws. collector_in_range a" and "\<forall>(sp, b) \<in> set ps. processor_in_range b"
    and "tail = [] \<or> ends_flags (hd tail) \<or> hd tail = ''--''"
  shows "sniffer_start node (prog # ''collector'' # command_words collector_flag_set collector_written ws @ tail)
      = RunCollector (apply_all set_collector ws (default_collector_args node))
    \<and> sniffer_start node (prog # ''processor'' # command_words processor_flag_set processor_written ps @ tail)
      = RunProcessor (apply_all set_processor ps default_processor_args)
    \<and> (\<exists>a. sniffer_start node (prog # ''collector'' # command_words collector_flag_set collector_written ws
            @ [''-dns-names'', ''false''] @ rest) = RunCollector a
        \<and> a = (apply_all set_collector ws (default_collector_args node))\<lparr>fl_DnsNames := True\<rparr>
        \<and> (\<forall>c open. setup_collector (collector_flags.truncate a) grpc_ok (\<lambda>_. True) = (Inr c, open) \<longrightarrow> col_dns c \<noteq> None))"
proof -
  let ?c = "apply_all set_collector ws (default_collector_args node)"
    and ?p = "apply_all set_processor ps default_processor_args"
  obtain a b where left: "Parse collector_flag_set tail ?c = Inr (?c, a)" "Parse processor_flag_set tail ?p = Inr (?p, b)"
    using Parse_ends [OF assms(3)] by metis
  note parse = sniffer_start_commands cf.Parse_settings [OF assms(1)] pf.Parse_settings [OF assms(2)]
  have "sniffer_start node (prog # ''collector'' # command_words collector_flag_set collector_written ws
      @ [''-dns-names'', ''false''] @ rest) = RunCollector (?c\<lparr>fl_DnsNames := True\<rparr>)"
    by (simp only: parse bare_dns_names append.simps) (simp add: parsed_def)
  moreover have "col_dns c \<noteq> None"
    if "setup_collector (collector_flags.truncate (?c\<lparr>fl_DnsNames := True\<rparr>)) grpc_ok (\<lambda>_. True) = (Inr c, open')" for c open'
    using that by (auto simp: setup_collector_def collector_flags.truncate_def Loader_New_def AttachDNS_def
        Collector_New_def Let_def split: if_splits)
  moreover have "parsed RunCollector (Inr (?c, a)) = RunCollector ?c" "parsed RunProcessor (Inr (?p, b)) = RunProcessor ?p"
    by (simp_all add: parsed_def)
  ultimately show ?thesis unfolding parse left by blast
qed

theorem command_line_witness:
  "sniffer_start ''node-1'' ([''sniffer'', ''collector''] @ [''-max-batch=50''] @ [''--flush-interval'', ''2000000000ns''])
     = RunCollector ((default_collector_args ''node-1'')\<lparr>fl_MaxBatch := 50, fl_FlushInterval := 2 * second\<rparr>)
   \<and> sniffer_start ''node-1'' ([''sniffer'', ''collector'', ''-max-batch=50''] @ [''-dns-names'', ''false'', ''-queue-size=1''])
     = RunCollector ((default_collector_args ''node-1'')\<lparr>fl_MaxBatch := 50, fl_DnsNames := True\<rparr>)"
proof -
  have w: "spell collector_flag_set (False, False) (''max-batch'', show_int 50) = [''-max-batch=50'']"
    "spell collector_flag_set (True, True) (''flush-interval'', show_int 2000000000 @ ''ns'')
      = [''--flush-interval'', ''2000000000ns'']" by code_simp+
  note c = command_line [of "[((False, False), SetMaxBatch 50), ((True, True), SetFlushInterval (2 * second))]" "[]" "[]"
      "''node-1''" "''sniffer''"]
    command_line [of "[((False, False), SetMaxBatch 50)]" "[]" "[]" "''node-1''" "''sniffer''" "[''-queue-size=1'']"]
  show ?thesis using c by (simp add: w int64_def second_def command_words_def apply_all_def)
qed

end
