(* ===== verification/Spec2Isabelle.thy ===== *)
theory Spec2Isabelle
  imports Fleet Kafka_Test Collector_Run Processor_Run Dns_Probe Edge_Types Metrics Error_Log Command_Line
begin

text \<open>
  The network sniffer, as verified. Two commands share one binary
  (\<open>src/cmd/sniffer\<close>). A collector runs on every node: an eBPF program reports each TCP
  connection that reaches ESTABLISHED, the collector decodes the record, turns it to the
  caller's direction, drops node-local traffic, adds the pod UID of the connecting
  process and the host name its address was resolved from, folds events into flows and
  delivers batches of flow records to the processor. The processor keeps a cache from
  addresses, pod UIDs and listening ports to workloads, fed by Kubernetes informers,
  enriches every record into a service call, drops reversed duplicates, ignored pairs
  and repeats, and emits the rest to its sinks.

  \<^bold>\<open>Theories and sources\<close> (paths under \<open>src/internal\<close> unless they start with \<open>cmd\<close> or \<open>bpf\<close>).

  \<^item> \<open>Sniffer_Prelude\<close>, \<open>Netip\<close>: what the source uses of Go. Bytes, strings, instants with
    saturating differences, maps, and \<open>net/netip\<close>. An instant is an \<open>int\<close> of nanoseconds, a
    Go map a finite map; a loop over a map that shows its order takes the order as an
    argument \<open>ks\<close> with \<open>key_order m ks\<close>.
  \<^item> \<open>Model\<close>: \<open>model/model.go\<close>. Events, workloads, service calls, filters, orientation.
  \<^item> \<open>Probe\<close>, \<open>Dns_Probe\<close>: \<open>bpf/sniffer.c\<close>. Connection capture is a step relation \<open>probe_step\<close>
    over the map from socket to process and the ring buffer; DNS capture a function of a
    packet's bytes.
  \<^item> \<open>Decode\<close>, \<open>Dns_Decode\<close>: \<open>decode/decode.go\<close>, \<open>decode/dns.go\<close>.
  \<^item> \<open>Interfaces\<close>: the locales \<open>timed_store\<close>, \<open>timed_machine\<close>, \<open>keyed_store\<close> and \<open>winding_down\<close>
    (a step relation that only uses up its work, interpreted by the sender that drains its
    queue and by the collector that shuts down).
  \<^item> \<open>Dns_Cache\<close>: \<open>dnscache/dnscache.go\<close>. \<open>Dedup\<close>: \<open>dedup/dedup.go\<close>. Both interpret
    \<open>timed_machine\<close>.
  \<^item> \<open>Ignore_List\<close>: \<open>ignore/ignore.go\<close>, with the fragment of \<open>regexp\<close> its patterns compile to.
  \<^item> \<open>Pod_Identity\<close>: \<open>resolver/cgroup.go\<close>, \<open>resolver/pid.go\<close>.
  \<^item> \<open>Aggregate\<close>, \<open>Sender\<close>, \<open>Collector\<close>: \<open>collector/*.go\<close>. The sender is a step relation in
    which producers, the delivery goroutine and the context interleave one channel
    operation at a time; the collector is a step relation of its loops, a record or a flush
    to a step. \<open>Collector_Concurrent\<close> takes the same loops apart into shared accesses; an
    iteration that nobody interrupts is a run of it (\<open>node_run_alone\<close>).
  \<^item> \<open>Workload_Cache\<close> (\<open>resolver/resolver.go\<close>, interprets \<open>keyed_store\<close> three times), \<open>Endpoints\<close>
    (\<open>resolver/endpoints.go\<close>), \<open>Transform\<close> (\<open>transform_linux.go\<close>), \<open>Controller\<close>
    (\<open>k8s_linux.go\<close>, \<open>endpoints_linux.go\<close>), \<open>Startup\<close> (\<open>Controller.Run\<close> of \<open>k8s_linux.go\<close>, a step
    relation), \<open>Istio\<close> (\<open>istio.go\<close>, \<open>istio_linux.go\<close>).
    \<open>Handlers_Concurrent\<close> runs the informer handlers of both controllers, and the full
    ClusterIP pass, as goroutines that interleave one cache operation or lister read at a time.
  \<^item> \<open>Config\<close>: \<open>config/config.go\<close>. \<open>Emit\<close>: \<open>emit/*.go\<close> and \<open>buildSinks\<close>.
    \<open>Error_Log\<close>: the Kafka client's failure callback, concurrent, with its rate-limited log.
  \<^item> \<open>Processor\<close>: \<open>enrich/enrich.go\<close>, \<open>processor/*.go\<close>. \<open>Report_Concurrent\<close> runs the
    handler of \<open>server.go\<close> and \<open>pipeline.go\<close> as concurrent calls, one access to the cache, the
    deduper, a counter or a sink at a time. \<open>Edge_Types\<close> types the cache's workloads and
    carries the typing to the edges sent. \<open>Metrics\<close>: the instruments of the metrics files
    and their registration.
  \<^item> \<open>Commands\<close>: \<open>cmd/sniffer/*_linux.go\<close>, \<open>bpf/*.go\<close>, \<open>telemetry/telemetry.go\<close>.
    \<open>Go_Numbers\<close> and \<open>Command_Line\<close>: the flags of both commands, from the process's
    arguments, with \<open>FlagSet.Parse\<close> and the readers of integers, booleans and durations.
    Their locale \<open>flag_settings\<close> is interpreted by both flag sets.
    \<open>Lifecycle\<close>: \<open>runProcessor\<close> from the listener to the exit, the step relation of
    \<open>Report_Concurrent\<close> with the shutdown beside it. \<open>Errgroup\<close> is the contract of the goroutine
    group both commands wait for. \<open>Collector_Run\<close> is the second half of \<open>runCollector\<close>, its
    five goroutines and the flush loop until the exit; \<open>Processor_Run\<close> is \<open>runProcessor\<close> as a
    process, from the resolver's start to the exit code. Both are step relations.
  \<^item> \<open>Wire\<close>: the records that pass from \<open>collector/*.go\<close> to \<open>processor/server.go\<close>. \<open>Fleet\<close>: any
    number of collectors (\<open>Collector_Concurrent\<close>) and processor replicas (\<open>Lifecycle\<close>), joined by
    the \<open>Report\<close> calls of \<open>send\<close> in \<open>collector/sender.go\<close>.
  \<^item> \<open>Kafka_Test\<close>: \<open>kafkatest/kafkatest.go\<close>, the broker of the integration tests.

  \<^bold>\<open>Conventions.\<close> Records and functions keep the source's names; a type's method \<open>M\<close> that
  would clash is \<open>Type_M\<close>. An error is the left of a sum, a Go \<open>ok\<close> result an option.
  A method that holds its mutex throughout is one function of the state. A result
  \<open>None\<close> of \<open>Enqueue\<close>, \<open>flush\<close>, \<open>handle\<close> or \<open>DecodeDNS\<close> means that the call does not return (it
  loops or panics); that these calls do return is part of \<open>collector_inv\<close>'s lemmas and
  of \<open>Enqueue_drops_oldest\<close>, \<open>handle_counts_once\<close>, \<open>flush_batches\<close> and \<open>DecodeDNS_result\<close>, under
  the conditions stated there (a queue with room for one batch, a positive batch size,
  a parser that makes progress). No definition carries artificial fuel: loops over lists
  are structural, the unbounded loops are \<open>partial_function (option)\<close>, and the bound 10 of
  \<open>ResolveTopOwner\<close> is the program's.

  \<^bold>\<open>What the lemmas show.\<close> Bytes: the decoder reads back what the kernel program writes.
  Collector: every event is counted once; flows summarise their events; batches keep
  their bound and lose no event; the queue drops the oldest batch first and accounts for
  every record under every interleaving, and it drains in a bounded number of steps once
  the processor answers; reading, flushing, DNS and delivery interleaved one access at a time
  lose and double nothing; host names and pod UIDs are recent; capture never stops while
  the command runs, a shutdown ends within a bound given by the queue's size, flushes
  nothing, and exits with the code its goroutines' results call for. Resolver:
  the exact contents of the UID, address and port indexes after any sequence of informer
  events, that the trimming transform changes nothing the handlers read, where an
  eviction takes an entry away from its new owner, that no event is handled before the
  owner stores have synced, and how the full ClusterIP pass can come too early; under every
  interleaving of the handlers, that the cache stays typed, that a surviving port is never
  missing and that the UID index follows the pod events, and the one race that leaves a
  deleted Service's address mapped. Processor: the exact verdict of every
  record, the spacing of repeated edges and that none is lost, the names an edge carries,
  that every sink is given the same edge, that concurrent calls amount to some order of their
  records and keep the spacing, that an edge's parts are typed and its key tells it from
  every other edge, that the failure log writes a line a second at most,
  what a command line means, and that a shutdown ends, loses no record
  received and emits nothing after the sinks are closed, and which failures end it with a
  non-zero code. Sweeping a store in the background is never
  observable: proved once in \<open>timed_machine\<close>. Both together: whatever collectors, replicas,
  retries and timeouts do, what a collector counts as sent a replica has decided about, and
  every edge written goes back to a record of some collector's probe. This theory holds
  properties of one collector's records at one processor.

  \<^bold>\<open>Parameters.\<close> Code outside the repository is an argument: the DNS message parser, the YAML
  decoder, the JSON log handler, the Kafka client, the Kubernetes listers, procfs, the
  Unicode part of \<open>strings.ToLower\<close>, whether each system call of the loader succeeds, the
  Prometheus registry (\<open>register\<close>, under \<open>registry_contract\<close>), and \<open>errgroup\<close>, whose documented
  contract is the hypothesis \<open>errgroup_contract\<close> (with the instance \<open>recorded_group\<close>).

  \<^bold>\<open>Not modelled.\<close> Generated gRPC code beyond the message types; the Prometheus registry and
  HTTP server beyond counters, registration and status codes; the informers and listers of
  client-go beyond the events and contents they give; signal delivery; log lines other than
  the Kafka failure log, and usage texts. Interleavings are taken a few parties
  at a time. \<open>Report_Concurrent\<close> and \<open>Lifecycle\<close> interleave calls, sweeps, any change of the
  cache and the shutdown, \<open>Handlers_Concurrent\<close> the Kubernetes and Istio handlers and the
  full ClusterIP pass. \<open>Fleet\<close> interleaves everything \<open>Collector_Concurrent\<close> and \<open>Lifecycle\<close>
  do; its collectors start set up, and no process restarts. In \<open>Collector_Run\<close>, which goes
  on to the exit, a record is read in one step and handled in another, and handling is not
  interleaved with a flush; \<open>Collector_Concurrent\<close> does that. In \<open>Processor_Run\<close> the optional
  Istio controller, which is outside the group, and the reasons why sinks or listener fail
  are left out.
\<close>

section \<open>Properties\<close>

text \<open>C3. Everything the collector reports is usable: whatever the kernel, the DNS messages,
  the processor and the scheduler do, every record in a batch the collector ever queued
  is accepted by the processor, never counted as invalid, and gives an event that is not
  node-local, has unmapped addresses, and names a pod UID only on the connecting side.\<close>

theorem collector_records_accepted:
  assumes "setup_collector fl grpc_ok ok = (Inr c0, open)" and "(collector_step uni P)\<^sup>*\<^sup>* c0 c"
    and "r \<in> set (concat (g_pushed (col_sender c)))"
  shows "(\<exists>e. toEvent r = Some e \<and> \<not> node_local e \<and> unmap (SrcIP e) = SrcIP e \<and> unmap (DstIP e) = DstIP e
      \<and> (Outbound e \<or> SrcPodUID e = []))
    \<and> m_Records (Report env [(t, r)] p) resultInvalid = m_Records p resultInvalid"
proof -
  have "reportable_state c"
    using reachable_reportable [OF assms(2) setup_collector_inv [OF assms(1)] setup_collector_reportable [OF assms(1)]] ..
  with assms(3) obtain k f where "reportable k" "r = flow_record k f" unfolding reportable_state_def by blast
  with toEvent_reportable [of k f] obtain e where e: "toEvent r = Some e" "\<not> node_local e"
    "unmap (SrcIP e) = SrcIP e" "unmap (DstIP e) = DstIP e" "Outbound e \<or> SrcPodUID e = []" by blast
  have "resultInvalid \<noteq> verdict q e t" for q
    by (simp add: verdict_def Let_def record_result_defs)
  then have "m_Records (Report env [(t, r)] p) resultInvalid = m_Records p resultInvalid"
    using e(1) by (simp add: Report_def Pipeline_Handle_verdict(1))
  with e show ?thesis by blast
qed

theorem collector_records_accepted_witness:
  "\<exists>fl (P :: nat dns_parser) c0 c r e. setup_collector fl True (\<lambda>_. True) = (Inr c0, conn_resources)
     \<and> collector_step id P c0 c
     \<and> r \<in> set (concat (g_pushed (col_sender c))) \<and> toEvent r = Some e \<and> \<not> node_local e"
proof -
  let ?fl = "\<lparr>fl_MaxBatch = 1, fl_QueueSize = 4, fl_FlushInterval = second, fl_DnsNames = False, fl_DnsCacheSize = 1\<rparr>"
  let ?cfg = "\<lparr>ProcRoot = procRoot, FlushInterval = second, MaxBatch = 1\<rparr>"
  let ?c = "Collector_New ?cfg None (NewSender 4)" and ?raw = "replicate 16 1 @ replicate 43 2 :: byte list"
  have s: "setup_collector ?fl True (\<lambda>_. True) = (Inr ?c, conn_resources)"
    by (auto simp: setup_collector_def second_def Loader_New_def conn_resources_def Let_def)
  have ok: "case Decode ?raw of Inl _ \<Rightarrow> False | Inr e \<Rightarrow> \<not> node_local (Canonical e)" by code_simp
  have dry: "col_sender (snd (observe_raw id (\<lambda>_. None) ?raw 0 ?c)) = NewSender 4"
      "col_cfg (snd (observe_raw id (\<lambda>_. None) ?raw 0 ?c)) = ?cfg"
    using observe_raw_inv(1,2) [OF setup_collector_inv [OF s]] by (simp_all add: Collector_New_def)
  obtain ev d where o: "observe_raw id (\<lambda>_. None) ?raw 0 ?c = (True, d)"
      "col_agg d = snd (Aggregator_Add ev 0 NewAggregator)"
  proof (rule observe_raw_cases [of ?raw id "\<lambda>_. None" 0 ?c])
    fix ev ev' c'
    assume "observe_raw id (\<lambda>_. None) ?raw 0 ?c =
        (MaxBatch (col_cfg ?c) \<le> int (agg_len (snd (Aggregator_Add ev' 0 (col_agg ?c)))),
         (count_event resultAccepted c')\<lparr>col_agg := snd (Aggregator_Add ev' 0 (col_agg ?c))\<rparr>)"
    then show thesis
      by (intro that) (auto simp: Collector_New_def NewAggregator_def Aggregator_Add_def agg_len_def map_len_def fcard_finsert_disjoint Let_def)
  qed (use ok in simp_all)
  let ?k = "flow_key ev"
  have d: "col_sender d = NewSender 4" "col_cfg d = ?cfg" using dry o(1) by simp_all
  have order: "key_order (a_flows (col_agg d)) [?k]"
    by (simp add: o(2) key_order_def NewAggregator_def Aggregator_Add_def Let_def)
  have "0 < MaxBatch (col_cfg d)" "0 < s_cap (col_sender d)" "sender_inv (col_sender d)"
    unfolding d by (simp_all add: sender_inv_New) (simp add: NewSender_def)
  from flush_result [OF this, of "[?k]"] obtain t bs where t:
    "flush [?k] d = Some (d\<lparr>col_agg := NewAggregator, col_sender := t\<rparr>)"
    "g_pushed t = g_pushed (col_sender d) @ bs" "concat bs = fst (Aggregator_Drain [?k] (col_agg d))"
    using enqueuedD(6) by blast
  let ?c' = "d\<lparr>col_agg := NewAggregator, col_sender := t\<rparr>"
  obtain f where "concat bs = [flow_record ?k f]"
    unfolding t(3) by (simp add: o(2) NewAggregator_def Aggregator_Drain_def Aggregator_Add_def Let_def)
  then have r: "flow_record ?k f \<in> set (concat (g_pushed (col_sender ?c')))"
    by (simp add: t(2) del: set_concat)
  obtain P :: "nat dns_parser" where "P = P" by blast
  have step: "collector_step id P ?c ?c'"
    by (rule collector_step.run [of id "\<lambda>_. None" "Some ?raw" 0 ?c "[?k]"])
      (simp_all only: raw_order_def Run_event_def handle_def o(1) snd_conv option.case order t(1) prod.case if_True)
  from collector_records_accepted [OF s r_into_rtranclp [where r = "collector_step id P", OF step] r] s step r
  show ?thesis by blast
qed

text \<open>C4. One edge per connection: both ends of a connection report it. Turned to the
  caller's direction, the accepting end's event has the addresses, the listening port
  and the protocol of the connecting end's, is filtered by the collector exactly when
  that one is, and gives an edge with the same destination port and application
  protocol. When the cache knows the caller as a workload the processor drops the event
  and only counts it, so the connecting end's edge is the only one; when it does not,
  the event goes through under the caller's address.\<close>

theorem one_edge_per_connection:
  fixes e p
  defines "a \<equiv> Canonical (accepted_side e)"
  shows "(SrcIP a, DstIP a, DstPort a, Protocol a, Outbound a) = (SrcIP e, DstIP e, DstPort e, Protocol e, False)
    \<and> (node_local a \<longleftrightarrow> node_local e)
    \<and> sc_DestPort (enriched p a) = sc_DestPort (enriched p e)
    \<and> sc_DestAppProtocol (enriched p a) = sc_DestAppProtocol (enriched p e)
    \<and> (LookupIP (pl_cache p) (SrcIP e) = Some w \<and> \<not> IsExternal w \<longrightarrow>
         Pipeline_Handle env a t p = count_record resultReversedDuplicate p)
    \<and> (LookupIP (pl_cache p) (SrcIP e) = None \<longrightarrow>
         verdict p a t \<noteq> resultReversedDuplicate
         \<and> sc_Source (enriched p a) = \<lparr>w_Name = addr_string (SrcIP e), w_Namespace = [], w_Kind = KindExternal\<rparr>)"
proof (intro conjI impI)
  have a: "SrcIP a = SrcIP e" "DstIP a = DstIP e" "DstPort a = DstPort e" "Protocol a = Protocol e"
    "\<not> Outbound a" "SrcPodUID a = []"
    by (simp_all add: a_def Canonical_def accepted_side_def)
  then show "(SrcIP a, DstIP a, DstPort a, Protocol a, Outbound a) = (SrcIP e, DstIP e, DstPort e, Protocol e, False)"
    by simp
  show "node_local a \<longleftrightarrow> node_local e" using a(1,2) by (rule node_local_cong)
  show "sc_DestPort (enriched p a) = sc_DestPort (enriched p e)"
    and "sc_DestAppProtocol (enriched p a) = sc_DestAppProtocol (enriched p e)"
    by (simp_all add: enriched_def Enrich_def a Let_def)
  have source: "sc_Source (enriched p a) = WorkloadForIP (LookupIP (pl_cache p)) (SrcIP e)"
    by (simp add: enriched_def Enrich_def a Let_def)
  {
    assume w: "LookupIP (pl_cache p) (SrcIP e) = Some w \<and> \<not> IsExternal w"
    then have "IsReversedDuplicate a (sc_Source (enriched p a))"
      unfolding source by (simp add: WorkloadForIP_def IsReversedDuplicate_def a)
    then show "Pipeline_Handle env a t p = count_record resultReversedDuplicate p"
      by (simp add: Pipeline_Handle_def enriched_def)
  }
  assume "LookupIP (pl_cache p) (SrcIP e) = None"
  then have s: "sc_Source (enriched p a) = \<lparr>w_Name = addr_string (SrcIP e), w_Namespace = [], w_Kind = KindExternal\<rparr>"
    unfolding source by (simp add: WorkloadForIP_def)
  then show "sc_Source (enriched p a) = \<lparr>w_Name = addr_string (SrcIP e), w_Namespace = [], w_Kind = KindExternal\<rparr>" .
  show "verdict p a t \<noteq> resultReversedDuplicate"
    by (simp add: verdict_def s IsExternal_def record_result_defs Let_def)
qed

definition known_caller :: Pipeline where
  "known_caller = NewPipeline (Upsert (Addr4 1) \<lparr>w_Name = ''web'', w_Namespace = ''shop'', w_Kind = ''Deployment''\<rparr> NewCache)
     None (Dedup_New 30) LoggerSink"

theorem one_edge_per_connection_witness:
  "Pipeline_Handle sample_env (Canonical (accepted_side sample_event)) 5 known_caller
     = count_record resultReversedDuplicate known_caller"
proof -
  have "LookupIP (pl_cache known_caller) (SrcIP sample_event) = Some \<lparr>w_Name = ''web'', w_Namespace = ''shop'', w_Kind = ''Deployment''\<rparr>
      \<and> \<not> IsExternal \<lparr>w_Name = ''web'', w_Namespace = ''shop'', w_Kind = ''Deployment''\<rparr>"
    by (simp add: known_caller_def NewPipeline_def sample_event_def Upsert_def LookupIP_def NewCache_def
        IsExternal_def KindExternal_def)
  with one_edge_per_connection [of sample_event known_caller] show ?thesis by blast
qed

end
